(* ===== verification/Prelude.thy ===== *)
theory Prelude
  imports Main "HOL-Library.Word"
begin

text \<open>
  Shared vocabulary of the ShipOS development: the machine integer types of the C sources,
  the result type of operations that may panic, the named collections that carry the
  component proofs, and lemmas on words that several components need.

  A call to \<open>panic\<close> (\<^verbatim>\<open>kernel/lib/src/panic.c\<close>) never returns, so an operation that can reach
  one returns \<open>Inl (Panic msg)\<close>; a busy-wait loop with no exit is \<open>Inl Hang\<close>.
\<close>

unbundle bit_operations_syntax

section \<open>Types\<close>

type_synonym u8 = "8 word"
type_synonym u16 = "16 word"
type_synonym u32 = "32 word"
type_synonym u64 = "64 word"

datatype kerror =
    Panic string
  | Hang

type_synonym 'a result = "kerror + 'a"

named_theorems mem_simps \<open>reads of the byte memory after writes\<close>
named_theorems page_simps \<open>page alignment and page offsets\<close>

section \<open>Sequencing of fallible operations\<close>

definition bind_result :: "'a result \<Rightarrow> ('a \<Rightarrow> 'b result) \<Rightarrow> 'b result" where
  "bind_result r f = (case r of Inl e \<Rightarrow> Inl e | Inr x \<Rightarrow> f x)"

lemma bind_result_Inl [simp]: "bind_result (Inl e) f = Inl e"
  by (simp add: bind_result_def)

lemma bind_result_Inr [simp]: "bind_result (Inr x) f = f x"
  by (simp add: bind_result_def)

lemma bind_result_eq_Inr:
  "bind_result r f = Inr y \<longleftrightarrow> (\<exists>x. r = Inr x \<and> f x = Inr y)"
  by (cases r) auto

lemma bind_result_cong [fundef_cong]:
  "\<lbrakk>r = r'; \<And>x. r' = Inr x \<Longrightarrow> f x = g x\<rbrakk> \<Longrightarrow> bind_result r f = bind_result r' g"
  by (cases r') auto

section \<open>Words\<close>

lemma unat_u64_less [simp]: "unat (x :: u64) < 18446744073709551616"
  using unsigned_less [of x] by simp

lemma unat_sub_int:
  fixes a b :: u64
  shows "int (unat (a - b)) = (int (unat a) - int (unat b)) mod 2 ^ 64"
  by (simp add: uint_word_ariths)

lemma unat_sub_swap:
  fixes a b :: u64
  assumes "a \<noteq> b"
  shows "unat (a - b) + unat (b - a) = 2 ^ 64"
proof -
  have bound: "unat a < 2 ^ 64" "unat b < 2 ^ 64" by simp_all
  show ?thesis
  proof (cases "a < b")
    case True
    then have "unat (b - a) = unat b - unat a" and "unat (a - b) = 2 ^ 64 + unat a - unat b"
      by (simp_all add: unat_sub_if_size word_less_nat_alt word_size)
    moreover have "unat a < unat b" using True by (simp add: word_less_nat_alt)
    ultimately show ?thesis using bound by linarith
  next
    case False
    with assms have "b < a" by simp
    then have "unat (a - b) = unat a - unat b" and "unat (b - a) = 2 ^ 64 + unat b - unat a"
      by (simp_all add: unat_sub_if_size word_less_nat_alt word_size)
    moreover have "unat b < unat a" using \<open>b < a\<close> by (simp add: word_less_nat_alt)
    ultimately show ?thesis using bound by linarith
  qed
qed

lemma unat_sub_mod:
  fixes a b :: u64
  assumes "k dvd 2 ^ 64" and "unat a mod k = 0" and "unat b mod k = 0"
  shows "unat (a - b) mod k = 0"
proof -
  have "int k dvd int (unat a) - int (unat b)"
    using assms(2,3) by (intro dvd_diff) (simp_all only: of_nat_dvd_iff mod_eq_0_iff_dvd)
  moreover have "int k dvd 2 ^ 64"
    using assms(1) by (metis of_nat_dvd_iff of_nat_numeral of_nat_power)
  ultimately have "int k dvd int (unat (a - b))"
    by (simp only: unat_sub_int dvd_mod)
  then show ?thesis by (simp only: of_nat_dvd_iff mod_eq_0_iff_dvd)
qed

lemma unat_sub_plus:
  fixes a b x :: u64
  shows "unat (x - a) = (unat (x - b) + unat (b - a)) mod 2 ^ 64"
proof -
  have "x - a = (x - b) + (b - a)" by simp
  then show ?thesis by (simp only: unat_word_ariths) simp
qed

section \<open>Polling a device\<close>

text \<open>
  The drivers wait for a device by reading a status register until it has some bit. A device is a function of the accesses so
  far: \<open>answer t\<close> is what the next read gives after the accesses \<open>t\<close>, and \<open>event v\<close> records a read of \<open>v\<close>. It settles if
  from every history on, reading often enough gives a value that is ready. The locale is the contract of a polling
  loop: one read, then the end or the same loop again.
\<close>

primrec polled :: "('e list \<Rightarrow> 'v) \<Rightarrow> ('v \<Rightarrow> 'e) \<Rightarrow> nat \<Rightarrow> 'e list \<Rightarrow> 'e list" where
  "polled answer event 0 t = t"
| "polled answer event (Suc n) t = (let u = polled answer event n t in u @ [event (answer u)])"

definition settles :: "('e list \<Rightarrow> 'v) \<Rightarrow> ('v \<Rightarrow> 'e) \<Rightarrow> ('v \<Rightarrow> bool) \<Rightarrow> bool" where
  "settles answer event ready \<longleftrightarrow> (\<forall>t. \<exists>n. ready (answer (polled answer event n t)))"

lemma polled_first: "polled answer event n (t @ [event (answer t)]) = polled answer event (Suc n) t"
  by (induction n) simp_all

locale polling =
  fixes wait :: "'s \<Rightarrow> 's option" and trace :: "'s \<Rightarrow> 'e list" and set_trace :: "'e list \<Rightarrow> 's \<Rightarrow> 's"
    and answer :: "'e list \<Rightarrow> 'v" and event :: "'v \<Rightarrow> 'e" and ready :: "'v \<Rightarrow> bool" and inv :: "'s \<Rightarrow> bool"
  assumes wait_step: "inv s \<Longrightarrow> wait s =
      (let v = answer (trace s); s' = set_trace (trace s @ [event v]) s in if ready v then Some s' else wait s')"
    and inv_step: "inv s \<Longrightarrow> inv (set_trace t s)"
    and trace_set: "trace (set_trace t s) = t"
    and set_set: "set_trace t (set_trace u s) = set_trace t s"
begin

lemma returns_after:
  assumes "inv s" "ready (answer (polled answer event n (trace s)))"
  shows "\<exists>vs v. wait s = Some (set_trace (trace s @ map event vs @ [event v]) s) \<and> ready v \<and> list_all (\<lambda>v. \<not> ready v) vs"
  using assms
proof (induction n arbitrary: s)
  case 0
  then show ?case using wait_step [of s] by (intro exI [of _ "[]"] exI [of _ "answer (trace s)"]) (simp add: Let_def)
next
  case (Suc n)
  let ?v = "answer (trace s)"
  let ?s = "set_trace (trace s @ [event ?v]) s"
  show ?case
  proof (cases "ready ?v")
    case True
    then show ?thesis using wait_step [OF Suc.prems(1)] by (intro exI [of _ "[]"] exI [of _ ?v]) (simp add: Let_def)
  next
    case False
    have "ready (answer (polled answer event n (trace ?s)))"
      using Suc.prems(2) polled_first [of answer event n "trace s"] by (simp only: trace_set)
    from Suc.IH [OF inv_step [OF Suc.prems(1)] this] obtain vs v where
      "wait ?s = Some (set_trace (trace s @ [event ?v] @ map event vs @ [event v]) s)" "ready v" "list_all (\<lambda>v. \<not> ready v) vs"
      by (auto simp: trace_set set_set)
    then show ?thesis
      using wait_step [OF Suc.prems(1)] False by (intro exI [of _ "?v # vs"] exI [of _ v]) (simp add: Let_def)
  qed
qed

lemma returns:
  assumes "inv s" "settles answer event ready"
  shows "\<exists>vs v. wait s = Some (set_trace (trace s @ map event vs @ [event v]) s) \<and> ready v \<and> list_all (\<lambda>v. \<not> ready v) vs"
  using returns_after [OF assms(1)] assms(2) unfolding settles_def by blast

end

end
