(* ===== verification/Memory.thy ===== *)
theory Memory
  imports Prelude
begin

text \<open>
  Physical memory as the kernel sees it: a flat array of bytes indexed by 64-bit addresses
  (the kernel runs identity-mapped, so a C pointer is a physical address; address
  arithmetic wraps at \<open>2\<^sup>6\<^sup>4\<close>). Loads and stores are little-endian. The theory also holds
  the page constants of \<^verbatim>\<open>kernel/memlayout.h\<close> and the byte loops \<open>memset\<close> and \<open>memcmp\<close>
  of \<^verbatim>\<open>kernel/lib/src\<close>.

  The lemmas say which bytes each operation writes and reduce a load after a store, or
  after a \<open>memset\<close>, to the old contents or the new value. They are collected in
  \<open>mem_simps\<close>; the arithmetic of page-aligned addresses is in \<open>page_simps\<close>.
\<close>

section \<open>Definitions\<close>

type_synonym memory = "u64 \<Rightarrow> u8"

text \<open>\<^verbatim>\<open>kernel/memlayout.h\<close>\<close>

definition KSTART :: u64 where
  [simp]: "KSTART = 0x100000"

definition INIT_PHYSTOP :: u64 where
  [simp]: "INIT_PHYSTOP = 2 * 1024 * 1024"

definition PHYSTOP :: u64 where
  [simp]: "PHYSTOP = 128 * 1024 * 1024"

definition PGSIZE :: u64 where
  [simp]: "PGSIZE = 4096"

definition PGROUNDUP :: "u64 \<Rightarrow> u64" where
  "PGROUNDUP sz = (sz + PGSIZE - 1) AND NOT (PGSIZE - 1)"

definition PGROUNDDOWN :: "u64 \<Rightarrow> u64" where
  "PGROUNDDOWN a = a AND NOT (PGSIZE - 1)"

text \<open>Little-endian access to the first \<open>n\<close> bytes at an address.\<close>

primrec load_le :: "memory \<Rightarrow> u64 \<Rightarrow> nat \<Rightarrow> u64" where
  "load_le m a 0 = 0"
| "load_le m a (Suc n) = ucast (m a) OR push_bit 8 (load_le m (a + 1) n)"

primrec store_le :: "memory \<Rightarrow> u64 \<Rightarrow> u64 \<Rightarrow> nat \<Rightarrow> memory" where
  "store_le m a v 0 = m"
| "store_le m a v (Suc n) = store_le (m(a := ucast v)) (a + 1) (drop_bit 8 v) n"

definition load64 :: "memory \<Rightarrow> u64 \<Rightarrow> u64" where
  "load64 m a = load_le m a 8"

definition store64 :: "memory \<Rightarrow> u64 \<Rightarrow> u64 \<Rightarrow> memory" where
  "store64 m a v = store_le m a v 8"

definition load32 :: "memory \<Rightarrow> u64 \<Rightarrow> u32" where
  "load32 m a = ucast (load_le m a 4)"

definition store32 :: "memory \<Rightarrow> u64 \<Rightarrow> u32 \<Rightarrow> memory" where
  "store32 m a v = store_le m a (ucast v) 4"

definition load16 :: "memory \<Rightarrow> u64 \<Rightarrow> u16" where
  "load16 m a = ucast (load_le m a 2)"

text \<open>
  \<^verbatim>\<open>kernel/lib/src/memset.c\<close>: \<open>value\<close> is an \<open>int\<close> cut to a byte, \<open>num\<close> a \<open>size_t\<close>. The
  function returns its first argument; no caller uses it.
\<close>

primrec memset_loop :: "memory \<Rightarrow> u64 \<Rightarrow> u8 \<Rightarrow> nat \<Rightarrow> memory" where
  "memset_loop m byte_ptr byte_value 0 = m"
| "memset_loop m byte_ptr byte_value (Suc n) =
     memset_loop (m(byte_ptr := byte_value)) (byte_ptr + 1) byte_value n"

definition memset :: "memory \<Rightarrow> u64 \<Rightarrow> u32 \<Rightarrow> u64 \<Rightarrow> memory" where
  "memset m ptr value num = memset_loop m ptr (ucast value) (unat num)"

text \<open>\<^verbatim>\<open>kernel/lib/src/memcmp.c\<close>: the difference of the first two bytes that differ.\<close>

primrec memcmp_loop :: "memory \<Rightarrow> u64 \<Rightarrow> u64 \<Rightarrow> nat \<Rightarrow> int" where
  "memcmp_loop m p1 p2 0 = 0"
| "memcmp_loop m p1 p2 (Suc n) =
     (if m p1 \<noteq> m p2 then uint (m p1) - uint (m p2)
      else memcmp_loop m (p1 + 1) (p2 + 1) n)"

definition memcmp :: "memory \<Rightarrow> u64 \<Rightarrow> u64 \<Rightarrow> u64 \<Rightarrow> int" where
  "memcmp m a b n = memcmp_loop m a b (unat n)"

text \<open>Addresses: 8-byte slots that do not overlap, aligned slots, page-aligned addresses.\<close>

definition disjoint8 :: "u64 \<Rightarrow> u64 \<Rightarrow> bool" where
  "disjoint8 a b \<longleftrightarrow> 8 \<le> unat (b - a) \<and> 8 \<le> unat (a - b)"

definition aligned8 :: "u64 \<Rightarrow> bool" where
  "aligned8 a \<longleftrightarrow> unat a mod 8 = 0"

definition page_aligned :: "u64 \<Rightarrow> bool" where
  "page_aligned a \<longleftrightarrow> unat a mod 4096 = 0"

definition in_page :: "u64 \<Rightarrow> u64 \<Rightarrow> bool" where
  "in_page p x \<longleftrightarrow> unat (x - p) < 4096"

section \<open>Byte loops\<close>

lemma unat_sub_Suc:
  fixes x p :: u64
  assumes "x \<noteq> p"
  shows "unat (x - p) = Suc (unat (x - (p + 1)))"
proof -
  have "x - (p + 1) = (x - p) - 1" by simp
  moreover have "x - p \<noteq> 0" using assms by simp
  ultimately have "unat (x - (p + 1)) = unat (x - p) - 1" "unat (x - p) \<noteq> 0"
    by (metis unat_minus_one, metis unat_eq_zero)
  then show ?thesis by linarith
qed

lemma memset_loop_apply:
  "memset_loop m p v n x = (if unat (x - p) < n then v else m x)"
proof (induction n arbitrary: m p)
  case (Suc n)
  have "memset_loop m p v (Suc n) x =
      (if unat (x - (p + 1)) < n then v else (m(p := v)) x)"
    by (simp only: memset_loop.simps Suc.IH)
  then show ?case by (cases "x = p") (auto simp: unat_sub_Suc [of x p])
qed simp

lemma memset_apply [mem_simps]:
  "memset m p v n x = (if unat (x - p) < unat n then ucast v else m x)"
  by (simp add: memset_def memset_loop_apply)

lemma store_le_apply:
  "n \<le> 8 \<Longrightarrow> store_le m a v n x =
     (if unat (x - a) < n then ucast (drop_bit (8 * unat (x - a)) v) else m x)"
proof (induction n arbitrary: m a v)
  case (Suc n)
  show ?case
  proof (cases "x = a")
    case True
    have "unat (- 1 :: u64) = 2 ^ 64 - 1" by (simp add: unsigned_minus_1_eq_mask mask_eq_exp_minus_1)
    then have "\<not> unat (a - (a + 1)) < n" using Suc.prems by simp
    with True Suc show ?thesis by simp
  next
    case False
    with Suc show ?thesis by (simp add: unat_sub_Suc [of x a] drop_bit_drop_bit add.commute)
  qed
qed simp

lemma store64_apply [mem_simps]:
  "store64 m a v x =
     (if unat (x - a) < 8 then ucast (drop_bit (8 * unat (x - a)) v) else m x)"
  by (simp add: store64_def store_le_apply)

lemma bit_load_le:
  "bit (load_le m a n) k \<longleftrightarrow>
     k < 64 \<and> k < 8 * n \<and> bit (m (a + of_nat (k div 8))) (k mod 8)"
proof (induction n arbitrary: a k)
  case (Suc n)
  show ?case
  proof (cases "k < 8")
    case True
    then show ?thesis by (auto simp: bit_simps)
  next
    case False
    then have "k div 8 = Suc ((k - 8) div 8)" and "k mod 8 = (k - 8) mod 8"
      by (simp_all add: le_div_geq le_mod_geq)
    moreover have "a + of_nat (Suc j) = a + 1 + of_nat j" for j by simp
    ultimately have "bit (load_le m a (Suc n)) k \<longleftrightarrow> k < 64 \<and> bit (load_le m (a + 1) n) (k - 8)"
      using False by (auto simp: bit_simps dest: bit_imp_le_length)
    also have "\<dots> \<longleftrightarrow> k < 64 \<and> k < 8 * Suc n \<and>
        bit (m (a + 1 + of_nat ((k - 8) div 8))) ((k - 8) mod 8)"
      using False by (auto simp: Suc.IH)
    finally show ?thesis
      using \<open>k div 8 = _\<close> \<open>k mod 8 = _\<close> by (simp only: of_nat_Suc ac_simps)
  qed
qed simp

lemma load_le_cong:
  "(\<And>i. i < n \<Longrightarrow> m (a + of_nat i) = m' (a + of_nat i)) \<Longrightarrow> load_le m a n = load_le m' a n"
  by (rule bit_word_eqI) (auto simp: bit_load_le div_less_iff_less_mult mult.commute)

lemma load64_cong:
  "(\<And>i. i < 8 \<Longrightarrow> m (a + of_nat i) = m' (a + of_nat i)) \<Longrightarrow> load64 m a = load64 m' a"
  unfolding load64_def by (rule load_le_cong)

section \<open>Loads after stores\<close>

lemma unat_add_small:
  fixes a :: u64
  assumes "unat a + n < 2 ^ 64"
  shows "unat (a + of_nat n) = unat a + n"
  using assms by (simp add: unat_word_ariths unat_of_nat mod_add_right_eq)

lemma load64_store64_same [mem_simps]: "load64 (store64 m a v) a = v"
proof (rule bit_word_eqI)
  fix k assume "k < LENGTH(64)"
  then have "k div 8 < 8" by (simp add: div_less_iff_less_mult)
  then have "unat (a + of_nat (k div 8) - a) = k div 8"
    by (simp add: unat_of_nat)
  with \<open>k div 8 < 8\<close> \<open>k < LENGTH(64)\<close>
  show "bit (load64 (store64 m a v) a) k = bit v k"
    by (simp add: load64_def bit_load_le store64_apply bit_simps)
qed

lemma load64_store64_disjoint:
  assumes "disjoint8 a b"
  shows "load64 (store64 m a v) b = load64 m b"
proof (rule load64_cong)
  fix i :: nat assume i: "i < 8"
  have "a \<noteq> b" using assms by (auto simp: disjoint8_def)
  then have sum: "unat (b - a) + unat (a - b) = 2 ^ 64"
    using unat_sub_swap [of a b] by simp
  with assms i have "unat (b - a) + i < 2 ^ 64" by (simp add: disjoint8_def)
  then have "unat (b - a + of_nat i) = unat (b - a) + i" by (rule unat_add_small)
  moreover have "b + of_nat i - a = b - a + of_nat i" by simp
  ultimately have "unat (b + of_nat i - a) = unat (b - a) + i" by (simp only:)
  then have "\<not> unat (b + of_nat i - a) < 8" using assms by (simp add: disjoint8_def)
  then show "store64 m a v (b + of_nat i) = m (b + of_nat i)"
    by (simp add: store64_apply)
qed

lemma aligned8_disjoint:
  assumes "aligned8 a" "aligned8 b" "a \<noteq> b"
  shows "disjoint8 a b"
proof -
  have "unat (b - a) mod 8 = 0" "unat (a - b) mod 8 = 0"
    using assms by (auto intro!: unat_sub_mod simp: aligned8_def)
  moreover have "unat (b - a) \<noteq> 0" "unat (a - b) \<noteq> 0"
    using assms(3) by (simp_all add: unat_eq_zero)
  ultimately show ?thesis by (auto simp: disjoint8_def)
qed

lemma load64_store64 [mem_simps]:
  "\<lbrakk>aligned8 a; aligned8 b\<rbrakk> \<Longrightarrow>
     load64 (store64 m a v) b = (if a = b then v else load64 m b)"
  by (simp add: load64_store64_same load64_store64_disjoint aligned8_disjoint)

section \<open>Pages\<close>

lemma PGROUNDDOWN_mask: "PGROUNDDOWN a = a AND NOT (mask 12)"
  by (simp add: PGROUNDDOWN_def mask_eq_exp_minus_1)

lemma page_aligned_aligned8 [page_simps, simp]: "page_aligned p \<Longrightarrow> aligned8 p"
  unfolding page_aligned_def aligned8_def
  using mod_mod_cancel [of 8 4096 "unat p"] by simp

lemma page_aligned_mod: "page_aligned p \<longleftrightarrow> p mod 4096 = 0"
proof -
  have "unat (p mod 4096) = unat p mod 4096" by (simp add: unat_mod)
  then show ?thesis by (metis page_aligned_def unat_eq_zero)
qed

lemma unat_PGROUNDDOWN [page_simps]: "unat (PGROUNDDOWN a) = 4096 * (unat a div 4096)"
proof -
  have "PGROUNDDOWN a = push_bit 12 (drop_bit 12 a)"
    by (rule bit_word_eqI) (auto simp: PGROUNDDOWN_mask bit_simps)
  moreover have "4096 * (unat a div 4096) < 2 ^ 64"
    using unat_u64_less [of a] by (simp add: div_less_iff_less_mult)
  ultimately show ?thesis
    by (simp add: push_bit_eq_mult drop_bit_eq_div unat_word_ariths unat_div)
qed

lemma PGROUNDUP_eq: "PGROUNDUP a = PGROUNDDOWN (a + 4095)"
  by (simp add: PGROUNDUP_def PGROUNDDOWN_def add.commute)

lemma PGROUNDDOWN_aligned [simp, page_simps]: "page_aligned (PGROUNDDOWN a)"
  by (simp add: page_aligned_def unat_PGROUNDDOWN)

lemma PGROUNDUP_aligned [simp, page_simps]: "page_aligned (PGROUNDUP a)"
  by (simp add: PGROUNDUP_eq)

lemma unat_PGROUNDUP [page_simps]:
  assumes "unat a + 4095 < 2 ^ 64"
  shows "unat (PGROUNDUP a) = 4096 * ((unat a + 4095) div 4096)"
proof -
  have "unat (a + 4095) = unat a + 4095"
    using unat_add_small [of a 4095] assms by simp
  then show ?thesis by (simp add: PGROUNDUP_eq unat_PGROUNDDOWN)
qed

lemma PGROUNDDOWN_id [simp]: "page_aligned a \<Longrightarrow> PGROUNDDOWN a = a"
  by (rule word_unat_eq_iff [THEN iffD2]) (auto simp: unat_PGROUNDDOWN page_aligned_def)

lemma in_page_self [simp]: "in_page p p"
  by (simp add: in_page_def)

lemma pages_disjoint:
  assumes "page_aligned p" "page_aligned q" "in_page p x" "in_page q x"
  shows "p = q"
proof (rule ccontr)
  assume "p \<noteq> q"
  have "unat (q - p) mod 4096 = 0" "unat (p - q) mod 4096 = 0"
    using assms(1,2) by (auto intro!: unat_sub_mod simp: page_aligned_def)
  moreover have "unat (q - p) \<noteq> 0" "unat (p - q) \<noteq> 0"
    using \<open>p \<noteq> q\<close> by (simp_all add: unat_eq_zero)
  ultimately have ge: "4096 \<le> unat (q - p)" "4096 \<le> unat (p - q)" by auto
  have "unat (q - p) + unat (p - q) = 2 ^ 64"
    using unat_sub_swap [of q p] \<open>p \<noteq> q\<close> by simp
  then have "unat (x - q) + unat (q - p) < 2 ^ 64"
    using ge assms(4) by (simp add: in_page_def)
  then have "unat (x - p) = unat (x - q) + unat (q - p)"
    by (simp add: unat_sub_plus [of x p q])
  with ge assms(3) show False by (simp add: in_page_def)
qed

text \<open>A slot of a page: the addresses \<open>p + 8 * i\<close> of its 512 quadwords.\<close>

lemma unat_slot:
  "i < 512 \<Longrightarrow> unat (8 * of_nat i :: u64) = 8 * i"
  by (simp add: unat_word_ariths unat_of_nat)

lemma in_page_slot:
  assumes "i < 512" "j < 8"
  shows "in_page p (p + 8 * of_nat i + of_nat j)"
proof -
  have "unat (8 * of_nat i + of_nat j :: u64) = 8 * i + j"
    using unat_add_small [of "8 * of_nat i" j] unat_slot [OF assms(1)] assms by simp
  then show ?thesis using assms by (simp add: in_page_def algebra_simps)
qed

lemma aligned8_slot:
  assumes "page_aligned p" "i < 512"
  shows "aligned8 (p + 8 * of_nat i)"
proof -
  have "unat (p + 8 * of_nat i) = (unat p + 8 * i) mod 2 ^ 64"
    by (simp add: unat_word_ariths unat_of_nat mod_simps)
  moreover have "(unat p + 8 * i) mod 2 ^ 64 mod 8 = (unat p + 8 * i) mod 8"
    by (rule mod_mod_cancel) simp
  moreover have "(unat p + 8 * i) mod 8 = 0"
    using page_aligned_aligned8 [OF assms(1)] by (simp add: aligned8_def mod_eq_0_iff_dvd)
  ultimately show ?thesis by (simp add: aligned8_def)
qed

lemma slot_eq_iff:
  assumes "page_aligned p" "page_aligned q" "i < 512" "j < 512"
  shows "p + 8 * of_nat i = q + 8 * of_nat j \<longleftrightarrow> p = q \<and> i = j"
proof
  assume eq: "p + 8 * of_nat i = q + 8 * of_nat j"
  have "in_page p (p + 8 * of_nat i)" "in_page q (p + 8 * of_nat i)"
    using in_page_slot [of i 0 p] in_page_slot [of j 0 q] assms(3,4) eq by simp_all
  with assms(1,2) have "p = q" by (rule pages_disjoint)
  with eq have "unat (8 * of_nat i :: u64) = unat (8 * of_nat j :: u64)" by simp
  with assms(3,4) \<open>p = q\<close> show "p = q \<and> i = j" by (simp add: unat_slot)
qed simp

lemma load64_other_page:
  assumes "\<And>x. in_page p x \<Longrightarrow> m' x = m x" "i < 512"
  shows "load64 m' (p + 8 * of_nat i) = load64 m (p + 8 * of_nat i)"
  using assms by (intro load64_cong) (simp add: in_page_slot)

lemma store64_outside_page:
  assumes "page_aligned q" "i < 512" "\<not> in_page q x"
  shows "store64 m (q + 8 * of_nat i) v x = m x"
proof -
  have "\<not> unat (x - (q + 8 * of_nat i)) < 8"
  proof
    define j where "j = unat (x - (q + 8 * of_nat i))"
    assume "unat (x - (q + 8 * of_nat i)) < 8"
    then have "j < 8" and "x = q + 8 * of_nat i + of_nat j"
      by (simp_all add: j_def)
    with in_page_slot [OF assms(2), of j q] assms(3) show False by simp
  qed
  then show ?thesis by (simp add: store64_apply)
qed

lemma memset_page:
  "memset m p v 4096 x = (if in_page p x then ucast v else m x)"
  by (simp add: memset_apply in_page_def)

lemma load64_zeroed_page:
  assumes "i < 512"
  shows "load64 (memset m p 0 4096) (p + 8 * of_nat i) = 0"
proof -
  have "load64 (memset m p 0 4096) (p + 8 * of_nat i) = load64 (\<lambda>_. 0) (p + 8 * of_nat i)"
    using assms by (intro load64_cong) (simp add: memset_page in_page_slot)
  also have "\<dots> = 0"
    by (rule bit_word_eqI) (simp add: load64_def bit_load_le)
  finally show ?thesis .
qed

text \<open>Fields of an object that starts a page: quadwords by their index, and a 32-bit field.\<close>

definition fld :: "memory \<Rightarrow> u64 \<Rightarrow> nat \<Rightarrow> u64" where
  "fld m p i = load64 m (p + 8 * of_nat i)"

definition set_fld :: "memory \<Rightarrow> u64 \<Rightarrow> nat \<Rightarrow> u64 \<Rightarrow> memory" where
  "set_fld m p i v = store64 m (p + 8 * of_nat i) v"

definition fld32 :: "memory \<Rightarrow> u64 \<Rightarrow> nat \<Rightarrow> u32" where
  "fld32 m p i = load32 m (p + 8 * of_nat i)"

definition set_fld32 :: "memory \<Rightarrow> u64 \<Rightarrow> nat \<Rightarrow> u32 \<Rightarrow> memory" where
  "set_fld32 m p i v = store32 m (p + 8 * of_nat i) v"

lemma aligned8_apart:
  assumes "aligned8 a" "aligned8 b" "a \<noteq> b" "i < 8"
  shows "8 \<le> unat (b + of_nat i - a)"
proof -
  have d: "8 \<le> unat (b - a)" "8 \<le> unat (a - b)" using aligned8_disjoint [OF assms(1-3)] by (auto simp: disjoint8_def)
  have "unat (b - a) + i < 2 ^ 64" using unat_sub_swap [OF assms(3)] d assms(4) by linarith
  then have "unat (b - a + of_nat i) = unat (b - a) + i" by (rule unat_add_small)
  moreover have "b + of_nat i - a = b - a + of_nat i" by simp
  ultimately have "unat (b + of_nat i - a) = unat (b - a) + i" by (simp only:)
  then show ?thesis using d(1) by simp
qed

lemma fld_set_fld [mem_simps]:
  assumes "page_aligned p" "page_aligned q" "i < 512" "j < 512"
  shows "fld (set_fld m p i v) q j = (if p = q \<and> i = j then v else fld m q j)"
  unfolding fld_def set_fld_def
  using load64_store64 [OF aligned8_slot [OF assms(1,3)] aligned8_slot [OF assms(2,4)]] slot_eq_iff [OF assms] by simp

lemma fld32_set_fld [mem_simps]:
  assumes "page_aligned p" "page_aligned q" "i < 512" "j < 512" "\<not> (p = q \<and> i = j)"
  shows "fld32 (set_fld m p i v) q j = fld32 m q j"
proof -
  have "set_fld m p i v (q + 8 * of_nat j + of_nat k) = m (q + 8 * of_nat j + of_nat k)" if "k < 4" for k
    using aligned8_apart [OF aligned8_slot [OF assms(1,3)] aligned8_slot [OF assms(2,4)], of k] slot_eq_iff [OF assms(1-4)] assms(5) that
    by (simp add: set_fld_def store64_apply)
  then show ?thesis unfolding fld32_def load32_def by (simp add: load_le_cong [of 4 "set_fld m p i v"])
qed

lemma fld_set_fld32 [mem_simps]:
  assumes "page_aligned p" "page_aligned q" "i < 512" "j < 512" "\<not> (p = q \<and> i = j)"
  shows "fld (set_fld32 m p i v) q j = fld m q j"
  unfolding fld_def
proof (rule load64_cong)
  fix k :: nat assume "k < 8"
  then show "set_fld32 m p i v (q + 8 * of_nat j + of_nat k) = m (q + 8 * of_nat j + of_nat k)"
    using aligned8_apart [OF aligned8_slot [OF assms(1,3)] aligned8_slot [OF assms(2,4)], of k] slot_eq_iff [OF assms(1-4)] assms(5)
    by (simp add: set_fld32_def store32_def store_le_apply)
qed

lemma load32_store32_same: "load32 (store32 m a v) a = v"
proof (rule bit_word_eqI)
  fix k assume k: "k < LENGTH(32)"
  then have "k div 8 < 4" by (simp add: div_less_iff_less_mult)
  moreover from this have "unat (a + of_nat (k div 8) - a) = k div 8" by (simp add: unat_of_nat)
  ultimately show "bit (load32 (store32 m a v) a) k = bit v k"
    using k by (simp add: load32_def store32_def bit_load_le store_le_apply bit_simps)
qed

lemma fld32_set_fld32 [mem_simps]:
  assumes "page_aligned p" "page_aligned q" "i < 512" "j < 512"
  shows "fld32 (set_fld32 m p i v) q j = (if p = q \<and> i = j then v else fld32 m q j)"
proof (cases "p = q \<and> i = j")
  case True
  then show ?thesis by (simp add: fld32_def set_fld32_def load32_store32_same)
next
  case False
  have "set_fld32 m p i v (q + 8 * of_nat j + of_nat k) = m (q + 8 * of_nat j + of_nat k)" if "k < 4" for k
    using aligned8_apart [OF aligned8_slot [OF assms(1,3)] aligned8_slot [OF assms(2,4)], of k] slot_eq_iff [OF assms] False that
    by (simp add: set_fld32_def store32_def store_le_apply)
  then show ?thesis unfolding if_not_P [OF False] fld32_def load32_def by (simp add: load_le_cong [of 4 "set_fld32 m p i v"])
qed

lemma set_fld_outside: "\<lbrakk>page_aligned q; i < 512; \<not> in_page q x\<rbrakk> \<Longrightarrow> set_fld m q i v x = m x"
  unfolding set_fld_def by (rule store64_outside_page)

lemma fld_other_page: "\<lbrakk>\<And>x. in_page p x \<Longrightarrow> m' x = m x; i < 512\<rbrakk> \<Longrightarrow> fld m' p i = fld m p i"
  unfolding fld_def by (rule load64_other_page)

lemma fld32_other_page:
  assumes "\<And>x. in_page p x \<Longrightarrow> m' x = m x" "i < 512"
  shows "fld32 m' p i = fld32 m p i"
proof -
  have "m' (p + 8 * of_nat i + of_nat k) = m (p + 8 * of_nat i + of_nat k)" if "k < 4" for k
    using assms(1) in_page_slot [OF assms(2), of k p] that by simp
  then show ?thesis unfolding fld32_def load32_def by (simp add: load_le_cong [of 4 m'])
qed

end
