(* ===== verification/Kalloc.thy ===== *)
theory Kalloc
  imports Memory
begin

text \<open>
  The physical page allocator of \<^verbatim>\<open>kernel/kalloc/kalloc.c\<close>: free pages are linked through
  their own first eight bytes (\<open>struct run\<close>), and the list head is \<open>kmem.freelist\<close>. The
  spinlock of \<open>kmem\<close> is declared in the source but every use of it is commented out, so it
  is not part of the state. The linker symbol \<open>end\<close> is the parameter \<open>kend\<close>.

  \<open>kmem_inv kend s ps\<close> says that the chain starting at \<open>freelist\<close> is exactly the list
  \<open>ps\<close> of distinct valid pages. The locale \<open>page_allocator\<close> is the contract the other
  components rely on; it is interpreted on \<open>kalloc\<close> and \<open>kfree\<close> as \<open>kpages\<close>.
\<close>

section \<open>Definitions\<close>

record kstate =
  mem :: memory
  freelist :: u64

definition kfree :: "u64 \<Rightarrow> u64 \<Rightarrow> 'a kstate_scheme \<Rightarrow> 'a kstate_scheme result" where
  "kfree kend pa s =
     (if pa mod PGSIZE \<noteq> 0 \<or> pa < kend \<or> pa \<ge> PHYSTOP then Inl (Panic ''kfree'')
      else
        let m = memset (mem s) pa 0 PGSIZE;
            m = store64 m pa (freelist s)
        in Inr (s\<lparr>mem := m, freelist := pa\<rparr>))"

definition kalloc :: "'a kstate_scheme \<Rightarrow> u64 \<times> 'a kstate_scheme" where
  "kalloc s =
     (let r = freelist s;
          s = (if r \<noteq> 0 then s\<lparr>freelist := load64 (mem s) r\<rparr> else s);
          s = (if r \<noteq> 0 then s\<lparr>mem := memset (mem s) r 5 PGSIZE\<rparr> else s)
      in (r, s))"

text \<open>
  The loop of \<open>kinit\<close>. It stops: \<open>kfree\<close> panics for a page at or above \<open>PHYSTOP\<close>, so
  before each further round \<open>p\<close> is small and \<open>p + PGSIZE\<close> does not wrap.
\<close>

function kinit_loop :: "u64 \<Rightarrow> u64 \<Rightarrow> u64 \<Rightarrow> 'a kstate_scheme \<Rightarrow> 'a kstate_scheme result" where
  "kinit_loop kend p stop s =
     (if p + PGSIZE < stop
      then bind_result (kfree kend p s) (\<lambda>s. kinit_loop kend (p + PGSIZE) stop s)
      else Inr s)"
  by pat_completeness auto
termination
proof (relation "measure (\<lambda>(kend, p, stop, s). unat stop - unat p)", goal_cases)
  case (2 kend p stop s s')
  then have p: "unat p < 134217728"
    by (auto simp: kfree_def word_le_nat_alt split: if_splits)
  then have "unat (p + 4096) = unat p + 4096"
    using unat_add_small [of p 4096] by simp
  with 2 show ?case by (simp add: word_less_nat_alt)
qed simp

declare kinit_loop.simps [simp del]

definition kinit :: "u64 \<Rightarrow> u64 \<Rightarrow> u64 \<Rightarrow> 'a kstate_scheme \<Rightarrow> 'a kstate_scheme result" where
  "kinit kend start stop s = kinit_loop kend (PGROUNDUP start) stop s"

text \<open>The loop of \<open>count_pages\<close> ends only if the chain does: \<open>None\<close> is an endless loop.\<close>

partial_function (option) count_loop :: "memory \<Rightarrow> u64 \<Rightarrow> u64 \<Rightarrow> u64 option" where
  "count_loop m r res = (if r \<noteq> 0 then count_loop m (load64 m r) (res + 1) else Some res)"

definition count_pages :: "'a kstate_scheme \<Rightarrow> u64 option" where
  "count_pages s = count_loop (mem s) (freelist s) 0"

section \<open>Abstraction and invariant\<close>

primrec chain :: "memory \<Rightarrow> u64 \<Rightarrow> u64 list \<Rightarrow> bool" where
  "chain m r [] \<longleftrightarrow> r = 0"
| "chain m r (p # ps) \<longleftrightarrow> r = p \<and> p \<noteq> 0 \<and> chain m (load64 m p) ps"

definition valid_page :: "u64 \<Rightarrow> u64 \<Rightarrow> bool" where
  "valid_page kend p \<longleftrightarrow> page_aligned p \<and> kend \<le> p \<and> p < PHYSTOP \<and> p \<noteq> 0"

definition kmem_inv :: "u64 \<Rightarrow> 'a kstate_scheme \<Rightarrow> u64 list \<Rightarrow> bool" where
  "kmem_inv kend s ps \<longleftrightarrow>
     chain (mem s) (freelist s) ps \<and> distinct ps \<and> (\<forall>p \<in> set ps. valid_page kend p)"

text \<open>The pages \<open>p, p + 4096, \<dots>\<close> the loop of \<open>kinit\<close> frees, in order.\<close>

definition kinit_range :: "u64 \<Rightarrow> u64 \<Rightarrow> u64 list" where
  "kinit_range p stop = map (\<lambda>i. p + 4096 * of_nat i) [0..<(unat stop - 1 - unat p) div 4096]"

text \<open>Repeated allocation and freeing, as the callers and the tests of the allocator do it.\<close>

primrec alloc_many :: "('s \<Rightarrow> 'p \<times> 's) \<Rightarrow> nat \<Rightarrow> 's \<Rightarrow> 'p list \<times> 's" where
  "alloc_many alloc 0 s = ([], s)"
| "alloc_many alloc (Suc n) s =
     (let (p, s) = alloc s; (ps, s) = alloc_many alloc n s in (p # ps, s))"

primrec free_many :: "('p \<Rightarrow> 's \<Rightarrow> 's result) \<Rightarrow> 'p list \<Rightarrow> 's \<Rightarrow> 's result" where
  "free_many free [] s = Inr s"
| "free_many free (p # ps) s = bind_result (free p s) (free_many free ps)"

section \<open>The contract of a page allocator\<close>

locale page_allocator =
  fixes alloc :: "'s \<Rightarrow> u64 \<times> 's"
    and free :: "u64 \<Rightarrow> 's \<Rightarrow> 's result"
    and owns :: "'s \<Rightarrow> u64 list \<Rightarrow> bool"
    and valid :: "u64 \<Rightarrow> bool"
    and byte :: "'s \<Rightarrow> u64 \<Rightarrow> u8"
  assumes alloc_cons: "owns s (p # ps) \<Longrightarrow> \<exists>s'. alloc s = (p, s') \<and> owns s' ps"
    and alloc_nil: "owns s [] \<Longrightarrow> alloc s = (0, s)"
    and alloc_frame: "\<lbrakk>owns s ps; alloc s = (p, s'); \<not> in_page p x\<rbrakk> \<Longrightarrow> byte s' x = byte s x"
    and free_valid: "\<lbrakk>owns s ps; valid p; p \<notin> set ps\<rbrakk> \<Longrightarrow> \<exists>s'. free p s = Inr s' \<and> owns s' (p # ps)"
    and free_frame: "\<lbrakk>free p s = Inr s'; \<not> in_page p x\<rbrakk> \<Longrightarrow> byte s' x = byte s x"
    and owned: "owns s ps \<Longrightarrow> distinct ps \<and> (\<forall>p \<in> set ps. valid p)"
    and valid_nonzero: "valid p \<Longrightarrow> page_aligned p \<and> p \<noteq> 0"
begin

lemma alloc_null_iff:
  assumes "owns s ps"
  shows "fst (alloc s) = 0 \<longleftrightarrow> ps = []"
proof (cases ps)
  case Nil
  with assms show ?thesis by (simp add: alloc_nil)
next
  case (Cons p qs)
  with assms obtain s' where "alloc s = (p, s')" using alloc_cons by blast
  moreover have "p \<noteq> 0" using Cons owned [OF assms] valid_nonzero by auto
  ultimately show ?thesis using Cons by simp
qed

lemma alloc_free:
  assumes "owns s (p # ps)"
  shows "\<exists>s1 s2. alloc s = (p, s1) \<and> free p s1 = Inr s2 \<and> owns s2 (p # ps)"
proof -
  obtain s1 where s1: "alloc s = (p, s1)" "owns s1 ps"
    using alloc_cons [OF assms] by blast
  moreover have "valid p" "p \<notin> set ps" using owned [OF assms] by auto
  ultimately show ?thesis using free_valid by blast
qed

lemma alloc_many_spec:
  "owns s (ps @ qs) \<Longrightarrow> \<exists>s'. alloc_many alloc (length ps) s = (ps, s') \<and> owns s' qs"
proof (induction ps arbitrary: s)
  case (Cons p ps)
  then obtain s1 where "alloc s = (p, s1)" "owns s1 (ps @ qs)"
    using alloc_cons by fastforce
  with Cons.IH show ?case by fastforce
qed simp

lemma free_many_spec:
  "\<lbrakk>owns s qs; distinct ps; \<forall>p \<in> set ps. valid p; set ps \<inter> set qs = {}\<rbrakk>
   \<Longrightarrow> \<exists>s'. free_many free ps s = Inr s' \<and> owns s' (rev ps @ qs)"
proof (induction ps arbitrary: s qs)
  case (Cons p ps)
  then obtain s1 where "free p s = Inr s1" "owns s1 (p # qs)"
    using free_valid [of s qs p] by auto
  moreover from Cons.prems this(2) have "\<exists>s'. free_many free ps s1 = Inr s' \<and> owns s' (rev ps @ p # qs)"
    by (intro Cons.IH) auto
  ultimately show ?case by auto
qed simp

lemma alloc_many_free_many:
  assumes "owns s (ps @ qs)"
  shows "\<exists>s1 s2. alloc_many alloc (length ps) s = (ps, s1) \<and> owns s1 qs
           \<and> free_many free ps s1 = Inr s2 \<and> owns s2 (rev ps @ qs)"
proof -
  obtain s1 where s1: "alloc_many alloc (length ps) s = (ps, s1)" "owns s1 qs"
    using alloc_many_spec [OF assms] by blast
  moreover from owned [OF assms] have "distinct ps" "\<forall>p \<in> set ps. valid p" "set ps \<inter> set qs = {}"
    by auto
  ultimately show ?thesis using free_many_spec [of s1 qs ps] by blast
qed

end

section \<open>The free chain\<close>

lemma chain_cong:
  "(\<And>p. p \<in> set ps \<Longrightarrow> load64 m' p = load64 m p) \<Longrightarrow> chain m' r ps \<longleftrightarrow> chain m r ps"
  by (induction ps arbitrary: r) auto

lemma load64_page_head:
  "(\<And>x. in_page p x \<Longrightarrow> m' x = m x) \<Longrightarrow> load64 m' p = load64 m p"
  using load64_other_page [of p m' m 0] by simp

lemma chain_frame:
  assumes "chain m r ps" "page_aligned q" "q \<notin> set ps" "\<forall>p \<in> set ps. page_aligned p"
    and "\<And>x. \<not> in_page q x \<Longrightarrow> m' x = m x"
  shows "chain m' r ps"
proof -
  have "load64 m' p = load64 m p" if "p \<in> set ps" for p
    using that assms by (intro load64_page_head) (metis pages_disjoint)
  with assms(1) show ?thesis using chain_cong by blast
qed

lemma count_loop_chain:
  "chain m r ps \<Longrightarrow> count_loop m r res = Some (res + of_nat (length ps))"
proof (induction ps arbitrary: r res)
  case Nil
  then show ?case by (simp add: count_loop.simps)
next
  case (Cons p ps)
  then show ?case by (subst count_loop.simps) (simp add: add.assoc)
qed

lemma count_pages_inv: "kmem_inv kend s ps \<Longrightarrow> count_pages s = Some (of_nat (length ps))"
  using count_loop_chain [of "mem s" "freelist s" ps 0] by (simp add: count_pages_def kmem_inv_def)

section \<open>Operations\<close>

lemma valid_page_guard:
  "valid_page kend p \<Longrightarrow> \<not> (p mod PGSIZE \<noteq> 0 \<or> p < kend \<or> p \<ge> PHYSTOP)"
  by (auto simp: valid_page_def page_aligned_mod)

lemma kfree_valid:
  assumes "kmem_inv kend s ps" "valid_page kend p" "p \<notin> set ps"
  shows "\<exists>s'. kfree kend p s = Inr s' \<and> kmem_inv kend s' (p # ps)"
proof -
  define m' where "m' = store64 (memset (mem s) p 0 4096) p (freelist s)"
  have eq: "kfree kend p s = Inr (s\<lparr>mem := m', freelist := p\<rparr>)"
    using valid_page_guard [OF assms(2)] by (auto simp: kfree_def m'_def Let_def)
  have al: "page_aligned p" using assms(2) by (simp add: valid_page_def)
  have frame: "m' x = mem s x" if "\<not> in_page p x" for x
    using store64_outside_page [OF al, of 0 x] that by (simp add: m'_def memset_page)
  have "chain (mem s) (freelist s) ps" "\<forall>q \<in> set ps. page_aligned q"
    using assms(1) by (simp_all add: kmem_inv_def valid_page_def)
  then have "chain m' (freelist s) ps"
    using al assms(3) frame by (blast intro: chain_frame)
  moreover have "load64 m' p = freelist s" by (simp add: m'_def load64_store64_same)
  ultimately show ?thesis
    using assms eq by (simp add: kmem_inv_def valid_page_def)
qed

lemma kfree_frame:
  assumes "kfree kend p s = Inr s'" "\<not> in_page p x"
  shows "mem s' x = mem s x"
proof -
  have "page_aligned p" using assms(1) by (auto simp: kfree_def page_aligned_mod split: if_splits)
  then show ?thesis
    using assms store64_outside_page [of p 0 x]
    by (auto simp: kfree_def Let_def memset_page split: if_splits)
qed

lemma kalloc_cons:
  assumes "kmem_inv kend s (p # ps)"
  shows "\<exists>s'. kalloc s = (p, s') \<and> kmem_inv kend s' ps"
proof -
  define m' where "m' = memset (mem s) p 5 4096"
  have p: "freelist s = p" "p \<noteq> 0" "page_aligned p" "p \<notin> set ps"
    and tl: "chain (mem s) (load64 (mem s) p) ps"
    using assms by (auto simp: kmem_inv_def valid_page_def)
  have eq: "kalloc s = (p, s\<lparr>freelist := load64 (mem s) p, mem := m'\<rparr>)"
    using p by (simp add: kalloc_def m'_def)
  have "chain m' (load64 (mem s) p) ps"
    using assms p by (intro chain_frame [OF tl, of p]) (auto simp: m'_def memset_page kmem_inv_def valid_page_def)
  with assms eq show ?thesis by (simp add: kmem_inv_def)
qed

lemma kalloc_nil: "kmem_inv kend s [] \<Longrightarrow> kalloc s = (0, s)"
  by (simp add: kmem_inv_def kalloc_def)

lemma kalloc_frame:
  "\<lbrakk>kalloc s = (p, s'); \<not> in_page p x\<rbrakk> \<Longrightarrow> mem s' x = mem s x"
  by (auto simp: kalloc_def Let_def memset_page split: if_splits)

interpretation kpages: page_allocator kalloc "kfree kend" "kmem_inv kend" "valid_page kend" mem
  for kend
proof (unfold_locales, goal_cases)
  case (1 s p ps) then show ?case by (rule kalloc_cons)
next
  case (2 s) then show ?case by (rule kalloc_nil)
next
  case (3 s ps p s' x) then show ?case by (blast intro: kalloc_frame)
next
  case (4 s ps p) then show ?case by (rule kfree_valid)
next
  case (5 p s s' x) then show ?case by (rule kfree_frame)
next
  case (6 s ps) then show ?case by (simp add: kmem_inv_def)
next
  case (7 p) then show ?case by (simp add: valid_page_def)
qed

section \<open>Initialisation\<close>

lemma unat_kinit_range:
  fixes p stop :: u64
  assumes "stop \<le> PHYSTOP" "i < (unat stop - 1 - unat p) div 4096"
  shows "unat (p + 4096 * of_nat i) = unat p + 4096 * i"
proof -
  have "unat stop \<le> 134217728" using assms(1) by (simp add: word_le_nat_alt)
  with assms(2) have "unat p + 4096 * i < 2 ^ 64" by simp
  then show ?thesis using unat_add_small [of p "4096 * i"] by simp
qed

lemma kinit_range_Cons:
  assumes "stop \<le> PHYSTOP" "p + 4096 < stop" "unat p < 2 ^ 32"
  shows "kinit_range p stop = p # kinit_range (p + 4096) stop"
proof -
  have p: "unat (p + 4096) = unat p + 4096"
    using unat_add_small [of p 4096] assms(3) by simp
  with assms(2) have "unat p + 4096 < unat stop" by (simp add: word_less_nat_alt)
  then have "(unat stop - 1 - unat p) div 4096 = Suc ((unat stop - 1 - unat (p + 4096)) div 4096)"
    unfolding p by (simp add: le_div_geq)
  moreover have "map (\<lambda>i. p + 4096 * of_nat i) [0..<Suc n]
      = p # map (\<lambda>i. p + 4096 + 4096 * of_nat i :: u64) [0..<n]" for n
    by (simp only: upt_conv_Cons map_Suc_upt [symmetric] zero_less_Suc list.map map_map)
      (simp add: algebra_simps)
  ultimately show ?thesis by (simp add: kinit_range_def)
qed

lemma kinit_range_Nil:
  assumes "\<not> p + 4096 < stop" "unat p < 2 ^ 32"
  shows "kinit_range p stop = []"
proof -
  have "unat (p + 4096) = unat p + 4096"
    using unat_add_small [of p 4096] assms(2) by simp
  with assms(1) show ?thesis by (simp add: kinit_range_def word_less_nat_alt)
qed

lemma kinit_range_bounds:
  assumes "stop \<le> PHYSTOP" "q \<in> set (kinit_range p stop)"
  shows "unat p \<le> unat q \<and> unat q + 4096 < unat stop \<and> (unat q - unat p) mod 4096 = 0"
proof -
  obtain i where i: "i < (unat stop - 1 - unat p) div 4096" "q = p + 4096 * of_nat i"
    using assms(2) by (auto simp: kinit_range_def)
  then have "unat q = unat p + 4096 * i" using unat_kinit_range [OF assms(1)] by simp
  moreover have "4096 * i + 4096 \<le> unat stop - 1 - unat p" using i(1) by (simp add: less_eq_div_iff_mult_less_eq Suc_le_eq [symmetric])
  ultimately show ?thesis using i(1) by auto
qed

lemma kinit_range_valid:
  assumes "stop \<le> PHYSTOP" "page_aligned p" "kend \<le> p" "p \<noteq> 0" "q \<in> set (kinit_range p stop)"
  shows "valid_page kend q"
proof -
  have b: "unat p \<le> unat q" "unat q + 4096 < unat stop" "(unat q - unat p) mod 4096 = 0"
    using kinit_range_bounds [OF assms(1,5)] by auto
  have "4096 dvd unat p + (unat q - unat p)"
    using b(3) assms(2) by (intro dvd_add) (auto simp: page_aligned_def mod_eq_0_iff_dvd)
  then have "unat q mod 4096 = 0" using b(1) by simp
  moreover have "unat p \<noteq> 0" using assms(4) by (simp add: unat_eq_zero)
  ultimately show ?thesis
    using b assms(1,3) by (auto simp: valid_page_def page_aligned_def word_le_nat_alt word_less_nat_alt)
qed

lemma kinit_loop_spec:
  "\<lbrakk>kmem_inv kend s ps; page_aligned p; kend \<le> p; p \<noteq> 0; stop \<le> PHYSTOP; unat p < 2 ^ 32;
    set (kinit_range p stop) \<inter> set ps = {}\<rbrakk>
   \<Longrightarrow> \<exists>s'. kinit_loop kend p stop s = Inr s' \<and> kmem_inv kend s' (rev (kinit_range p stop) @ ps)"
proof (induction kend p stop s arbitrary: ps rule: kinit_loop.induct)
  case (1 kend p stop s)
  show ?case
  proof (cases "p + 4096 < stop")
    case False
    with 1 show ?thesis by (simp add: kinit_loop.simps kinit_range_Nil)
  next
    case True
    have up: "unat (p + 4096) = unat p + 4096"
      using unat_add_small [of p 4096] 1 by simp
    have small: "unat p + 4096 < unat stop" "unat stop \<le> 134217728"
      using True "1.prems" up by (simp_all add: word_less_nat_alt word_le_nat_alt)
    have range: "kinit_range p stop = p # kinit_range (p + 4096) stop"
      using "1.prems" True by (intro kinit_range_Cons)
    then have "valid_page kend p" "p \<notin> set ps"
      using kinit_range_valid [of stop p kend p] "1.prems" by auto
    then obtain s1 where s1: "kfree kend p s = Inr s1" "kmem_inv kend s1 (p # ps)"
      using kfree_valid "1.prems"(1) by blast
    have "p \<notin> set (kinit_range (p + 4096) stop)"
      using kinit_range_bounds [of stop p "p + 4096"] "1.prems" up by auto
    moreover have "page_aligned (p + 4096)" "p + 4096 \<noteq> 0" "kend \<le> p + 4096"
      using "1.prems" up small by (auto simp: page_aligned_def word_le_nat_alt unat_eq_zero [symmetric])
    ultimately have "\<exists>s'. kinit_loop kend (p + 4096) stop s1 = Inr s' \<and>
        kmem_inv kend s' (rev (kinit_range (p + 4096) stop) @ p # ps)"
      using "1.prems" small up s1 True range by (intro "1.IH" [simplified, OF True s1(1)]) auto
    with s1 True range show ?thesis by (simp add: kinit_loop.simps [of kend p])
  qed
qed

lemma set_kinit_range:
  assumes "stop \<le> PHYSTOP" "page_aligned p"
  shows "set (kinit_range p stop) = {q. page_aligned q \<and> p \<le> q \<and> unat q + 4096 < unat stop}"
proof (intro equalityI subsetI)
  fix q assume q: "q \<in> set (kinit_range p stop)"
  then have b: "unat p \<le> unat q" "unat q + 4096 < unat stop" "(unat q - unat p) mod 4096 = 0"
    using kinit_range_bounds [OF assms(1)] by auto
  have "4096 dvd unat p + (unat q - unat p)"
    using b(3) assms(2) by (intro dvd_add) (auto simp: page_aligned_def mod_eq_0_iff_dvd)
  with b show "q \<in> {q. page_aligned q \<and> p \<le> q \<and> unat q + 4096 < unat stop}"
    by (simp add: page_aligned_def word_le_nat_alt)
next
  fix q assume "q \<in> {q. page_aligned q \<and> p \<le> q \<and> unat q + 4096 < unat stop}"
  then have q: "page_aligned q" "unat p \<le> unat q" "unat q + 4096 < unat stop"
    by (auto simp: word_le_nat_alt)
  have "4096 dvd unat q - unat p"
    using q(1) assms(2) by (simp add: page_aligned_def mod_eq_0_iff_dvd dvd_diff_nat)
  then obtain i where i: "unat q - unat p = 4096 * i" by (auto elim: dvdE)
  with q have lt: "i < (unat stop - 1 - unat p) div 4096"
    by (simp add: less_eq_div_iff_mult_less_eq Suc_le_eq [symmetric])
  then have "unat (p + 4096 * of_nat i) = unat q"
    using unat_kinit_range [OF assms(1)] i q(2) by simp
  then have "q = p + 4096 * of_nat i" by (simp add: word_unat_eq_iff)
  with lt show "q \<in> set (kinit_range p stop)" by (auto simp: kinit_range_def)
qed

lemma PGROUNDUP_le_iff:
  assumes "page_aligned q" "unat a + 4095 < 2 ^ 64"
  shows "PGROUNDUP a \<le> q \<longleftrightarrow> a \<le> q"
proof -
  obtain k where k: "unat q = 4096 * k"
    using assms(1) by (auto simp: page_aligned_def mod_eq_0_iff_dvd elim: dvdE)
  have "4096 * ((unat a + 4095) div 4096) \<le> 4096 * k \<longleftrightarrow> unat a \<le> 4096 * k" by auto
  then show ?thesis by (simp add: word_le_nat_alt unat_PGROUNDUP [OF assms(2)] k)
qed

section \<open>Misuse\<close>

lemma count_loop_cycle:
  assumes "load64 m p = p" "p \<noteq> 0"
  shows "count_loop m p res = None"
proof (rule ccontr)
  assume "count_loop m p res \<noteq> None"
  then obtain y where y: "count_loop m p res = Some y" by auto
  have "m = m \<longrightarrow> load64 m p = p \<longrightarrow> p \<noteq> 0 \<longrightarrow> False"
    by (rule count_loop.raw_induct
        [where P = "\<lambda>m r _ _. load64 m r = r \<longrightarrow> r \<noteq> 0 \<longrightarrow> False", OF _ y, THEN rev_mp])
      (auto split: if_splits)
  with assms show False by blast
qed

lemma load64_zero [simp]: "load64 (\<lambda>_. 0) a = 0"
  by (rule bit_word_eqI) (simp add: load64_def bit_load_le)

section \<open>Properties of the page allocator\<close>

text \<open>
  C1. \<open>kinit start stop\<close> on pages between the kernel image and \<open>PHYSTOP\<close> does not panic and
  pushes onto the free list exactly the page-aligned addresses \<open>q\<close> with \<open>start \<le> q\<close> and
  \<open>q + PGSIZE < stop\<close> (the page that ends at \<open>stop\<close> itself is left out), each once.
\<close>

theorem kinit_frees_range:
  assumes "kmem_inv kend s ps" and "kend \<le> start" and "0 < start"
    and "start \<le> PHYSTOP" and "stop \<le> PHYSTOP"
    and "\<forall>p \<in> set ps. p < start \<or> stop \<le> p"
  shows "\<exists>s' qs. kinit kend start stop s = Inr s' \<and> kmem_inv kend s' (qs @ ps)
           \<and> set qs = {q. page_aligned q \<and> start \<le> q \<and> unat q + 4096 < unat stop}"
proof -
  let ?p = "PGROUNDUP start"
  have start: "unat start \<le> 134217728" "0 < unat start"
    using assms(3,4) by (simp_all add: word_le_nat_alt word_less_nat_alt)
  then have p: "unat ?p = 4096 * ((unat start + 4095) div 4096)" by (simp add: unat_PGROUNDUP)
  then have le: "unat start \<le> unat ?p" "unat ?p < 2 ^ 32" using start by auto
  then have "kend \<le> ?p" "?p \<noteq> 0"
    using assms(2) start by (auto simp: word_le_nat_alt)
  have set: "set (kinit_range ?p stop) = {q. page_aligned q \<and> start \<le> q \<and> unat q + 4096 < unat stop}"
    using start by (auto simp: set_kinit_range [OF assms(5)] PGROUNDUP_le_iff)
  then have "set (kinit_range ?p stop) \<inter> set ps = {}"
    using assms(6) by (fastforce simp: word_le_nat_alt word_less_nat_alt)
  then obtain s' where "kinit kend start stop s = Inr s'"
      "kmem_inv kend s' (rev (kinit_range ?p stop) @ ps)"
    using kinit_loop_spec [OF assms(1) _ \<open>kend \<le> ?p\<close> \<open>?p \<noteq> 0\<close> assms(5) le(2)]
    by (auto simp: kinit_def)
  with set show ?thesis by (metis set_rev)
qed

theorem kinit_frees_range_witness:
  "\<exists>s' qs. kinit 0x150123 0x150123 INIT_PHYSTOP \<lparr>mem = \<lambda>_. 0, freelist = 0\<rparr> = Inr s'
     \<and> kmem_inv 0x150123 s' (qs @ [])
     \<and> set qs = {q. page_aligned q \<and> 0x150123 \<le> q \<and> unat q + 4096 < unat INIT_PHYSTOP}"
  by (rule kinit_frees_range) (simp_all add: kmem_inv_def)

text \<open>
  C2. \<open>kalloc\<close> on a non-empty free list returns the first free page, removes exactly that page
  from the list, fills it with the junk byte 5 and changes no other byte of memory.
\<close>

theorem kalloc_takes_head:
  assumes "kmem_inv kend s (p # ps)"
  shows "\<exists>s'. kalloc s = (p, s') \<and> kmem_inv kend s' ps
           \<and> (\<forall>x. mem s' x = (if in_page p x then 5 else mem s x))"
proof -
  obtain s' where s': "kalloc s = (p, s')" "kmem_inv kend s' ps"
    using kalloc_cons [OF assms] by blast
  moreover have "mem s' = memset (mem s) p 5 4096"
    using s'(1) assms by (auto simp: kalloc_def Let_def kmem_inv_def)
  ultimately show ?thesis by (auto simp: memset_page)
qed

theorem kalloc_takes_head_witness:
  "\<exists>s'. kalloc \<lparr>mem = \<lambda>_. 0, freelist = 0x200000\<rparr> = (0x200000, s') \<and> kmem_inv 0x150000 s' []
     \<and> (\<forall>x. mem s' x = (if in_page 0x200000 x then 5 else mem \<lparr>mem = \<lambda>_. 0, freelist = 0x200000\<rparr> x))"
  by (rule kalloc_takes_head) (simp add: kmem_inv_def valid_page_def page_aligned_def)

text \<open>
  \<open>kfree\<close> panics exactly for an address that is not page-aligned, lies below the end of
  the kernel image, or is at or above \<open>PHYSTOP\<close>; every other address is accepted.
\<close>

theorem kfree_panics_iff:
  "kfree kend pa s = Inl (Panic ''kfree'') \<longleftrightarrow>
     \<not> (page_aligned pa \<and> unat kend \<le> unat pa \<and> unat pa < 134217728)"
  by (auto simp: kfree_def Let_def page_aligned_mod word_less_nat_alt word_le_nat_alt)

text \<open>
  C4. \<open>count_pages\<close> terminates on a well-formed free list and returns the number of free pages
  (as a 64-bit counter).
\<close>

theorem count_pages_length:
  assumes "kmem_inv kend s ps"
  shows "count_pages s = Some (of_nat (length ps))"
  using assms by (rule count_pages_inv)

theorem count_pages_length_witness:
  "count_pages \<lparr>mem = \<lambda>_. 0, freelist = 0x200000\<rparr> = Some 1"
  using count_pages_length [of "0x150000" "\<lparr>mem = \<lambda>_. 0, freelist = 0x200000\<rparr>" "[0x200000]"]
  by (simp add: kmem_inv_def valid_page_def page_aligned_def)

text \<open>
  C5. Allocating \<open>n\<close> pages from a list of at least \<open>n\<close> free pages yields \<open>n\<close> distinct non-null
  pages and leaves \<open>n\<close> fewer; freeing them again in the order they were allocated succeeds and
  restores the number of free pages.
\<close>

theorem alloc_free_consistency:
  assumes "kmem_inv kend s ps" and "n \<le> length ps"
  shows "\<exists>qs s1 s2. alloc_many kalloc n s = (qs, s1) \<and> length qs = n \<and> distinct qs \<and> 0 \<notin> set qs
           \<and> count_pages s1 = Some (of_nat (length ps - n))
           \<and> free_many (kfree kend) qs s1 = Inr s2 \<and> count_pages s2 = count_pages s"
proof -
  define qs rs where "qs = take n ps" and "rs = drop n ps"
  have ps: "ps = qs @ rs" "length qs = n" using assms(2) by (auto simp: qs_def rs_def)
  with assms(1) obtain s1 s2 where
      s12: "alloc_many kalloc n s = (qs, s1)" "kmem_inv kend s1 rs"
           "free_many (kfree kend) qs s1 = Inr s2" "kmem_inv kend s2 (rev qs @ rs)"
    using kpages.alloc_many_free_many [of kend s qs rs] by auto
  have "distinct qs" "0 \<notin> set qs"
    using assms(1) ps by (auto simp: kmem_inv_def valid_page_def)
  moreover have "length rs = length ps - n" using ps by simp
  ultimately show ?thesis
    using s12 ps(1,2) count_pages_inv [OF s12(2)] count_pages_inv [OF s12(4)] count_pages_inv [OF assms(1)]
    by auto
qed

theorem alloc_free_consistency_witness:
  "\<exists>qs s1 s2. alloc_many kalloc 1 \<lparr>mem = \<lambda>_. 0, freelist = 0x200000\<rparr> = (qs, s1)
     \<and> length qs = 1 \<and> distinct qs \<and> 0 \<notin> set qs
     \<and> count_pages s1 = Some (of_nat (length [0x200000 :: u64] - 1))
     \<and> free_many (kfree 0x150000) qs s1 = Inr s2
     \<and> count_pages s2 = count_pages \<lparr>mem = \<lambda>_. 0, freelist = 0x200000\<rparr>"
  by (rule alloc_free_consistency) (simp_all add: kmem_inv_def valid_page_def page_aligned_def)

text \<open>
  Freeing a page that is already the head of the free list is not detected: \<open>kfree\<close>
  returns normally, the page then links to itself, and \<open>count_pages\<close> no longer terminates.
\<close>

theorem double_free_loops:
  assumes "kmem_inv kend s (p # ps)"
  shows "\<exists>s'. kfree kend p s = Inr s' \<and> freelist s' = p \<and> count_pages s' = None"
proof -
  have p: "valid_page kend p" "freelist s = p" "p \<noteq> 0"
    using assms by (auto simp: kmem_inv_def)
  define m' where "m' = store64 (memset (mem s) p 0 4096) p p"
  have "kfree kend p s = Inr (s\<lparr>mem := m', freelist := p\<rparr>)"
    using valid_page_guard [OF p(1)] p(2) by (auto simp: kfree_def m'_def Let_def)
  moreover have "count_loop m' p 0 = None"
    using p(3) by (intro count_loop_cycle) (simp_all add: m'_def load64_store64_same)
  ultimately show ?thesis by (simp add: count_pages_def)
qed

theorem double_free_loops_witness:
  "\<exists>s'. kfree 0x150000 0x200000 \<lparr>mem = \<lambda>_. 0, freelist = 0x200000\<rparr> = Inr s'
     \<and> freelist s' = 0x200000 \<and> count_pages s' = None"
  by (rule double_free_loops [of _ _ _ "[]"]) (simp add: kmem_inv_def valid_page_def page_aligned_def)

end
