(* ===== verification/Paging.thy ===== *)
theory Paging
  imports Kalloc "HOL-Library.Sublist" "HOL-Library.Sublist"
begin

text \<open>
  The four-level page tables of \<^verbatim>\<open>kernel/paging/paging.c\<close>: the codec of page entries,
  \<open>walk\<close>, and the operations that map, unmap and translate pages. A table is a page of 512
  quadwords in \<open>mem\<close>; table pages come from \<open>kalloc\<close>. The state extends the allocator's
  state with the CR3 register and the list of addresses given to \<open>invlpg\<close> so far.

  The specification side is \<open>follow\<close>, the walk the hardware makes over raw entries (present
  bit and address bits only), and \<open>translate\<close>, the partial map from virtual to physical
  addresses it defines. \<open>wf_tables\<close> says that the tables reachable from the root form a tree
  of distinct pages disjoint from the free list. Log output and the printing functions
  (\<open>print_entry\<close>, \<open>print_vm\<close>) are not modelled.
\<close>

section \<open>Page entries\<close>

record page_entry =
  pe_p :: bool
  pe_rw :: bool
  pe_us :: bool
  pe_pwt :: bool
  pe_pcd :: bool
  pe_a :: bool
  pe_d :: bool
  pe_rsvd :: bool
  pe_ign1 :: u8
  pe_address :: u64
  pe_ign2 :: u32
  pe_xd :: bool

text \<open>
  A left shift of a 32-bit operand. C leaves a count of 32 or more undefined, and \<open>encode_page_entry\<close> has two such
  shifts (by 48 and by 63): the result is left unspecified, except that a zero stays zero. No theorem depends on it, since
  every caller clears the two fields.
\<close>

definition shl32 :: "u32 \<Rightarrow> nat \<Rightarrow> u32" where
  "shl32 v n = (if n < 32 then push_bit n v else if v = 0 then 0 else undefined)"

definition encode_page_entry :: "page_entry \<Rightarrow> u64" where
  "encode_page_entry entry =
     of_bool (pe_p entry)
     OR push_bit 1 (of_bool (pe_rw entry))
     OR push_bit 2 (of_bool (pe_us entry))
     OR push_bit 3 (of_bool (pe_pwt entry))
     OR push_bit 4 (of_bool (pe_pcd entry))
     OR push_bit 5 (of_bool (pe_a entry))
     OR push_bit 6 (of_bool (pe_d entry))
     OR push_bit 7 (of_bool (pe_rsvd entry))
     OR push_bit 8 (ucast (pe_ign1 entry) AND 0xF)
     OR push_bit 12 (pe_address entry AND 0xFFFFFFFFF)
     OR ucast (shl32 (pe_ign2 entry AND 0x7FFF) 48)
     OR scast (shl32 (of_bool (pe_xd entry)) 63)"

definition decode_page_entry :: "u64 \<Rightarrow> page_entry" where
  "decode_page_entry raw =
     \<lparr>pe_p = (raw AND 1 \<noteq> 0),
      pe_rw = (drop_bit 1 raw AND 1 \<noteq> 0),
      pe_us = (drop_bit 2 raw AND 1 \<noteq> 0),
      pe_pwt = (drop_bit 3 raw AND 1 \<noteq> 0),
      pe_pcd = (drop_bit 4 raw AND 1 \<noteq> 0),
      pe_a = (drop_bit 5 raw AND 1 \<noteq> 0),
      pe_d = (drop_bit 6 raw AND 1 \<noteq> 0),
      pe_rsvd = (drop_bit 7 raw AND 1 \<noteq> 0),
      pe_ign1 = ucast (drop_bit 8 raw AND 0xF),
      pe_address = drop_bit 12 raw AND 0xFFFFFFFFF,
      pe_ign2 = ucast (drop_bit 48 raw AND 0x7FFF),
      pe_xd = (drop_bit 63 raw AND 1 \<noteq> 0)\<rparr>"

definition PTE_W :: u32 where
  [simp]: "PTE_W = 0x002"

definition PTE_U :: u32 where
  [simp]: "PTE_U = 0x004"

definition PTE_PWT :: u32 where
  [simp]: "PTE_PWT = 0x008"

definition PTE_PCD :: u32 where
  [simp]: "PTE_PCD = 0x010"

section \<open>Walking and mapping\<close>

record vmstate = kstate +
  cr3 :: u64
  invlpg_log :: "u64 list"

definition init_entry :: "u64 \<Rightarrow> u64 \<Rightarrow> 'a kstate_scheme \<Rightarrow> 'a kstate_scheme" where
  "init_entry raw_entry addr s =
     (let entry = \<lparr>pe_p = True, pe_rw = True, pe_us = False, pe_pwt = False, pe_pcd = False,
                   pe_a = False, pe_d = False, pe_rsvd = False, pe_ign1 = 0,
                   pe_address = drop_bit 12 addr AND 0xFFFFFFFFF, pe_ign2 = 0, pe_xd = False\<rparr>
      in s\<lparr>mem := store64 (mem s) raw_entry (encode_page_entry entry)\<rparr>)"

definition level_index :: "nat \<Rightarrow> u64 \<Rightarrow> nat" where
  "level_index level va = unat (drop_bit (12 + level * 9) va AND 0x1FF)"

text \<open>
  \<open>walk\<close>: the loop over \<open>level = 3, 2, 1\<close>. The result is the address of the leaf entry, or
  0 (NULL); the state changes when missing tables are allocated.
\<close>

primrec walk_loop :: "nat \<Rightarrow> u64 \<Rightarrow> u64 \<Rightarrow> bool \<Rightarrow> 'a kstate_scheme \<Rightarrow> u64 \<times> 'a kstate_scheme" where
  "walk_loop 0 tbl va alloc s = (tbl + 8 * of_nat (level_index 0 va), s)"
| "walk_loop (Suc l) tbl va alloc s =
     (let entry_raw = tbl + 8 * of_nat (level_index (Suc l) va);
          entry = decode_page_entry (load64 (mem s) entry_raw)
      in if pe_p entry then walk_loop l (push_bit 12 (pe_address entry)) va alloc s
         else if \<not> alloc then (0, s)
         else
           let (tbl, s) = kalloc s
           in if tbl = 0 then (0, s)
              else
                let s = s\<lparr>mem := memset (mem s) tbl 0 PGSIZE\<rparr>;
                    s = init_entry entry_raw tbl s
                in walk_loop l tbl va alloc s)"

definition walk :: "u64 \<Rightarrow> u64 \<Rightarrow> bool \<Rightarrow> 'a kstate_scheme \<Rightarrow> u64 \<times> 'a kstate_scheme" where
  "walk tbl va alloc s = walk_loop 3 tbl va alloc s"

definition invlpg :: "u64 \<Rightarrow> 'a vmstate_scheme \<Rightarrow> 'a vmstate_scheme" where
  "invlpg va s = s\<lparr>invlpg_log := va # invlpg_log s\<rparr>"

definition map_page :: "u64 \<Rightarrow> u64 \<Rightarrow> u64 \<Rightarrow> u32 \<Rightarrow> 'a vmstate_scheme \<Rightarrow> int \<times> 'a vmstate_scheme" where
  "map_page tbl va pa flags s =
     (let va = PGROUNDDOWN va;
          pa = PGROUNDDOWN pa;
          (pte, s) = walk tbl va True s
      in if pte = 0 then (-1, s)
         else
           let entry = decode_page_entry (load64 (mem s) pte)
           in if pe_p entry \<and> push_bit 12 (pe_address entry) \<noteq> pa then (-1, s)
              else
                let entry = entry\<lparr>pe_p := True,
                                  pe_rw := (flags AND PTE_W \<noteq> 0),
                                  pe_us := (flags AND PTE_U \<noteq> 0),
                                  pe_pwt := (flags AND PTE_PWT \<noteq> 0),
                                  pe_pcd := (flags AND PTE_PCD \<noteq> 0),
                                  pe_a := False, pe_d := False, pe_rsvd := False, pe_ign1 := 0,
                                  pe_address := drop_bit 12 pa AND 0xFFFFFFFFF,
                                  pe_ign2 := 0, pe_xd := False\<rparr>;
                    s = s\<lparr>mem := store64 (mem s) pte (encode_page_entry entry)\<rparr>
                in (0, invlpg va s))"

definition unmap_page :: "u64 \<Rightarrow> u64 \<Rightarrow> 'a vmstate_scheme \<Rightarrow> 'a vmstate_scheme" where
  "unmap_page tbl va s =
     (let va = PGROUNDDOWN va;
          (pte, s) = walk tbl va False s
      in if pte = 0 then s
         else
           let entry = decode_page_entry (load64 (mem s) pte)
           in if \<not> pe_p entry then s
              else invlpg va (s\<lparr>mem := store64 (mem s) pte 0\<rparr>))"

definition va_to_pa :: "u64 \<Rightarrow> u64 \<Rightarrow> 'a kstate_scheme \<Rightarrow> u64" where
  "va_to_pa tbl va s =
     (let (pte, s) = walk tbl va False s
      in if pte = 0 then 0
         else
           let entry = decode_page_entry (load64 (mem s) pte)
           in if \<not> pe_p entry then 0
              else push_bit 12 (pe_address entry) OR (va AND (PGSIZE - 1)))"

text \<open>
  The loops over address ranges. Their counters are 64-bit addresses that may wrap, so a
  loop need not end; \<open>None\<close> is a loop that does not return.
\<close>

partial_function (option) unmap_loop ::
  "u64 \<Rightarrow> u64 \<Rightarrow> u64 \<Rightarrow> 'a vmstate_scheme \<Rightarrow> 'a vmstate_scheme option" where
  "unmap_loop tbl addr stop s =
     (if addr < stop then unmap_loop tbl (addr + PGSIZE) stop (unmap_page tbl addr s)
      else Some s)"

partial_function (option) map_pages_loop ::
  "u64 \<Rightarrow> u64 \<Rightarrow> u64 \<Rightarrow> u64 \<Rightarrow> u64 \<Rightarrow> u32 \<Rightarrow> 'a vmstate_scheme \<Rightarrow> (int \<times> 'a vmstate_scheme) option" where
  "map_pages_loop tbl va_start addr va_end pa_cur flags s =
     (if addr < va_end
      then (case map_page tbl addr pa_cur flags s of (r, s) \<Rightarrow>
              if r \<noteq> 0
              then (case unmap_loop tbl va_start addr s of None \<Rightarrow> None | Some s \<Rightarrow> Some (-1, s))
              else map_pages_loop tbl va_start (addr + PGSIZE) va_end (pa_cur + PGSIZE) flags s)
      else Some (0, s))"

definition map_pages ::
  "u64 \<Rightarrow> u64 \<Rightarrow> u64 \<Rightarrow> u64 \<Rightarrow> u32 \<Rightarrow> 'a vmstate_scheme \<Rightarrow> (int \<times> 'a vmstate_scheme) option" where
  "map_pages tbl va pa sz flags s =
     (let va_start = PGROUNDDOWN va;
          va_end = PGROUNDUP (va + sz);
          pa_cur = PGROUNDDOWN pa
      in map_pages_loop tbl va_start va_start va_end pa_cur flags s)"

definition unmap_pages :: "u64 \<Rightarrow> u64 \<Rightarrow> u64 \<Rightarrow> 'a vmstate_scheme \<Rightarrow> 'a vmstate_scheme option" where
  "unmap_pages tbl va sz s =
     (let va_start = PGROUNDDOWN va;
          va_end = PGROUNDUP (va + sz)
      in unmap_loop tbl va_start va_end s)"

definition map_mmio :: "u64 \<Rightarrow> u64 \<Rightarrow> 'a vmstate_scheme \<Rightarrow> (u64 \<times> 'a vmstate_scheme) option" where
  "map_mmio pa sz s =
     (let tbl = cr3 s;
          pa_aligned = PGROUNDDOWN pa;
          offset = pa - pa_aligned;
          map_size = sz + offset
      in case map_pages tbl pa_aligned pa_aligned map_size (PTE_W OR PTE_PCD) s of
           None \<Rightarrow> None
         | Some (r, s) \<Rightarrow> Some (if r \<noteq> 0 then 0 else pa, s))"

text \<open>
  \<open>map_apic_region\<close> and \<open>map_low_memory\<close> are the same two loops with a different entry.
\<close>

definition apic_entry :: "u64 \<Rightarrow> page_entry" where
  "apic_entry addr =
     \<lparr>pe_p = True, pe_rw = True, pe_us = False, pe_pwt = False, pe_pcd = True,
      pe_a = False, pe_d = False, pe_rsvd = False, pe_ign1 = 0,
      pe_address = drop_bit 12 addr AND 0xFFFFFFFFF, pe_ign2 = 0, pe_xd = False\<rparr>"

definition low_entry :: "u64 \<Rightarrow> page_entry" where
  "low_entry addr =
     \<lparr>pe_p = True, pe_rw = True, pe_us = False, pe_pwt = False, pe_pcd = False,
      pe_a = False, pe_d = False, pe_rsvd = False, pe_ign1 = 0,
      pe_address = drop_bit 12 addr AND 0xFFFFFFFFF, pe_ign2 = 0, pe_xd = False\<rparr>"

partial_function (option) region_loop ::
  "(u64 \<Rightarrow> page_entry) \<Rightarrow> u64 \<Rightarrow> u64 \<Rightarrow> u64 \<Rightarrow> 'a vmstate_scheme \<Rightarrow> 'a vmstate_scheme option" where
  "region_loop mk tbl addr stop s =
     (if addr < stop
      then (case walk tbl addr True s of (entry_raw, s) \<Rightarrow>
              region_loop mk tbl (addr + PGSIZE) stop
                (if entry_raw = 0 then s
                 else s\<lparr>mem := store64 (mem s) entry_raw (encode_page_entry (mk addr))\<rparr>))
      else Some s)"

partial_function (option) invlpg_loop ::
  "u64 \<Rightarrow> u64 \<Rightarrow> 'a vmstate_scheme \<Rightarrow> 'a vmstate_scheme option" where
  "invlpg_loop addr stop s =
     (if addr < stop then invlpg_loop (addr + PGSIZE) stop (invlpg addr s) else Some s)"

definition map_apic_region :: "u64 \<Rightarrow> u64 \<Rightarrow> u32 \<Rightarrow> 'a vmstate_scheme \<Rightarrow> 'a vmstate_scheme option" where
  "map_apic_region tbl apic_base sz s =
     (case region_loop apic_entry tbl apic_base (apic_base + ucast sz) s of
        None \<Rightarrow> None
      | Some s \<Rightarrow> invlpg_loop apic_base (apic_base + ucast sz) s)"

definition map_low_memory :: "u64 \<Rightarrow> u64 \<Rightarrow> u64 \<Rightarrow> 'a vmstate_scheme \<Rightarrow> 'a vmstate_scheme option" where
  "map_low_memory tbl start sz s =
     (case region_loop low_entry tbl start (start + sz) s of
        None \<Rightarrow> None
      | Some s \<Rightarrow> invlpg_loop start (start + sz) s)"

text \<open>\<open>kvminit\<close>: a failed walk busy-waits forever, which is \<open>None\<close> too.\<close>

partial_function (option) kvminit_loop ::
  "u64 \<Rightarrow> u64 \<Rightarrow> u64 \<Rightarrow> 'a vmstate_scheme \<Rightarrow> 'a vmstate_scheme option" where
  "kvminit_loop tbl4 addr stop s =
     (if addr + PGSIZE < stop
      then (case walk tbl4 addr True s of (entry_raw, s) \<Rightarrow>
              if entry_raw = 0 then None
              else kvminit_loop tbl4 (addr + PGSIZE) stop (init_entry entry_raw addr s))
      else Some s)"

definition kvminit :: "u64 \<Rightarrow> u64 \<Rightarrow> 'a vmstate_scheme \<Rightarrow> (u64 \<times> 'a vmstate_scheme) option" where
  "kvminit start stop s =
     (let tbl4 = cr3 s;
          addr = PGROUNDUP start
      in case kvminit_loop tbl4 addr stop s of None \<Rightarrow> None | Some s \<Rightarrow> Some (tbl4, s))"

section \<open>What the hardware sees\<close>

text \<open>
  The table reached from \<open>t\<close> by a list of indices: each entry must have its present bit
  set, and its bits 12 to 47 are the address of the next table (or of the page).
\<close>

primrec follow :: "memory \<Rightarrow> u64 \<Rightarrow> nat list \<Rightarrow> u64 option" where
  "follow m t [] = Some t"
| "follow m t (i # is) =
     (let raw = load64 m (t + 8 * of_nat i)
      in if bit raw 0 then follow m (raw AND 0xFFFFFFFFF000) is else None)"

primrec path_from :: "nat \<Rightarrow> u64 \<Rightarrow> nat list" where
  "path_from 0 va = []"
| "path_from (Suc l) va = level_index (Suc l) va # path_from l va"

definition va_path :: "u64 \<Rightarrow> nat list" where
  "va_path va = path_from 3 va @ [level_index 0 va]"

text \<open>
  The present entry at the end of a path (\<open>entry_at\<close>), and for an address: its leaf entry
  (\<open>leaf_of\<close>) and its page (\<open>page_of\<close>).
\<close>

definition entry_at :: "memory \<Rightarrow> u64 \<Rightarrow> nat list \<Rightarrow> u64 option" where
  "entry_at m root path =
     (case follow m root (butlast path) of None \<Rightarrow> None
      | Some t \<Rightarrow> let raw = load64 m (t + 8 * of_nat (last path)) in if bit raw 0 then Some raw else None)"

definition leaf_of :: "memory \<Rightarrow> u64 \<Rightarrow> u64 \<Rightarrow> page_entry option" where
  "leaf_of m root va = map_option decode_page_entry (entry_at m root (va_path va))"

definition page_of :: "memory \<Rightarrow> u64 \<Rightarrow> u64 \<Rightarrow> u64 option" where
  "page_of m root va = follow m root (va_path va)"

definition translate :: "memory \<Rightarrow> u64 \<Rightarrow> u64 \<Rightarrow> u64 option" where
  "translate m root va = map_option (\<lambda>page. page OR (va AND 0xFFF)) (page_of m root va)"

definition good_path :: "nat list \<Rightarrow> bool" where
  "good_path path \<longleftrightarrow> (\<forall>i \<in> set path. i < 512)"

definition wf_tables :: "memory \<Rightarrow> u64 \<Rightarrow> u64 list \<Rightarrow> bool" where
  "wf_tables m root free \<longleftrightarrow>
     (\<forall>path t. length path \<le> 3 \<longrightarrow> good_path path \<longrightarrow> follow m root path = Some t \<longrightarrow>
        page_aligned t \<and> t \<noteq> 0 \<and> t \<notin> set free \<and>
        (\<forall>path'. length path' \<le> 3 \<longrightarrow> good_path path' \<longrightarrow> follow m root path' = Some t \<longrightarrow> path' = path))"

text \<open>
  \<open>vm_inv\<close> is the invariant of the address space: the free list is intact, and the
  tables reached from the root form a tree of pages that are not free. \<open>page_of\<close> is the
  mapping the tables denote. \<open>grows\<close> relates two states of which the second has more
  tables and fewer free pages, but denotes the same mapping.
\<close>

definition same_page :: "u64 \<Rightarrow> u64 \<Rightarrow> bool" where
  "same_page va va' \<longleftrightarrow> va AND 0xFFFFFFFFF000 = va' AND 0xFFFFFFFFF000"

definition same_slots :: "memory \<Rightarrow> memory \<Rightarrow> u64 \<Rightarrow> nat list \<Rightarrow> bool" where
  "same_slots m m' root q \<longleftrightarrow>
     (\<forall>pre i t. prefix (pre @ [i]) q \<longrightarrow> follow m root pre = Some t \<longrightarrow>
        load64 m' (t + 8 * of_nat i) = load64 m (t + 8 * of_nat i))"

definition vm_inv :: "u64 \<Rightarrow> u64 \<Rightarrow> 'a kstate_scheme \<Rightarrow> u64 list \<Rightarrow> bool" where
  "vm_inv kend root s ps \<longleftrightarrow> kmem_inv kend s ps \<and> wf_tables (mem s) root ps"

definition in_tables :: "memory \<Rightarrow> u64 \<Rightarrow> u64 \<Rightarrow> bool" where
  "in_tables m root x \<longleftrightarrow>
     (\<exists>path t. length path \<le> 3 \<and> good_path path \<and> follow m root path = Some t \<and> in_page t x)"

definition grows ::
  "u64 \<Rightarrow> u64 \<Rightarrow> 'a kstate_scheme \<Rightarrow> u64 list \<Rightarrow> 'a kstate_scheme \<Rightarrow> u64 list \<Rightarrow> bool" where
  "grows kend root s ps s' ps' \<longleftrightarrow>
     vm_inv kend root s' ps' \<and> suffix ps' ps \<and> kstate.more s' = kstate.more s \<and>
     (\<forall>q. good_path q \<longrightarrow> length q = 4 \<longrightarrow> entry_at (mem s') root q = entry_at (mem s) root q) \<and>
     (\<forall>x. in_tables (mem s') root x \<longrightarrow> in_tables (mem s) root x \<or> (\<exists>p \<in> set ps. in_page p x)) \<and>
     (\<forall>x. \<not> in_tables (mem s) root x \<longrightarrow> \<not> (\<exists>p \<in> set ps. in_page p x) \<longrightarrow> mem s' x = mem s x)"

text \<open>The leaf entry \<open>map_page\<close> writes.\<close>

definition mapped_entry :: "u64 \<Rightarrow> u32 \<Rightarrow> page_entry" where
  "mapped_entry pa flags =
     \<lparr>pe_p = True, pe_rw = (flags AND PTE_W \<noteq> 0), pe_us = (flags AND PTE_U \<noteq> 0),
      pe_pwt = (flags AND PTE_PWT \<noteq> 0), pe_pcd = (flags AND PTE_PCD \<noteq> 0),
      pe_a = False, pe_d = False, pe_rsvd = False, pe_ign1 = 0,
      pe_address = drop_bit 12 pa AND 0xFFFFFFFFF, pe_ign2 = 0, pe_xd = False\<rparr>"

text \<open>
  What a walk that may allocate leaves behind: the tables only grow, by at most \<open>n\<close> pages, and
  the result is the slot of the leaf entry, or 0 when the free pages ran out.
\<close>

definition walk_post ::
  "u64 \<Rightarrow> u64 \<Rightarrow> 'a kstate_scheme \<Rightarrow> u64 list \<Rightarrow> nat \<Rightarrow> nat list \<Rightarrow> u64 \<Rightarrow> u64 \<Rightarrow> 'a kstate_scheme \<Rightarrow> bool" where
  "walk_post kend root s ps n path va r s' \<longleftrightarrow>
     (\<exists>ps'. grows kend root s ps s' ps' \<and> length ps \<le> length ps' + n \<and>
        (if r = 0 then length ps < n \<and> follow (mem s) root path = None
         else \<exists>t'. follow (mem s') root path = Some t' \<and> r = t' + 8 * of_nat (level_index 0 va)))"

text \<open>
  What \<open>map_page\<close> leaves behind. With result 0 exactly the page of \<open>va\<close> is mapped, its leaf is
  the new entry and the translation is flushed; otherwise no translation changes, and the
  pages ran out or another page was mapped there.
\<close>

definition map_post ::
  "u64 \<Rightarrow> u64 \<Rightarrow> 'a vmstate_scheme \<Rightarrow> u64 list \<Rightarrow> u64 \<Rightarrow> u64 \<Rightarrow> u32 \<Rightarrow> int \<Rightarrow> 'a vmstate_scheme \<Rightarrow> u64 list \<Rightarrow> bool" where
  "map_post kend root s ps va pa flags r s' ps' \<longleftrightarrow>
     vm_inv kend root s' ps' \<and> suffix ps' ps \<and> length ps \<le> length ps' + 3 \<and> cr3 s' = cr3 s \<and>
     (\<forall>va'. leaf_of (mem s') root va' =
        (if r = 0 \<and> same_page va va' then Some (mapped_entry (PGROUNDDOWN pa) flags) else leaf_of (mem s) root va')) \<and>
     (\<forall>x. \<not> in_tables (mem s) root x \<longrightarrow> \<not> (\<exists>p \<in> set ps. in_page p x) \<longrightarrow> mem s' x = mem s x) \<and>
     (if r = 0 then page_of (mem s) root va \<in> {None, Some (PGROUNDDOWN pa)} \<and>
           invlpg_log s' = PGROUNDDOWN va # invlpg_log s
      else r = -1 \<and> invlpg_log s' = invlpg_log s \<and>
           (length ps < 3 \<and> page_of (mem s) root va = None \<or>
            (\<exists>a. page_of (mem s) root va = Some a \<and> a \<noteq> PGROUNDDOWN pa)))"

text \<open>
  \<open>nth_page a k\<close> is the \<open>k\<close>-th page from \<open>a\<close> on, \<open>in_pages\<close> membership in a range of pages.
  \<open>map_pages_post\<close> says what the loop of \<open>map_pages\<close> leaves behind when it maps the \<open>n\<close> pages
  from \<open>a = nth_page start j\<close> on to those from \<open>pa\<close> on: all of them mapped, or a rollback that
  unmaps every page from \<open>start\<close> up to the one that failed.
\<close>

definition nth_page :: "u64 \<Rightarrow> nat \<Rightarrow> u64" where
  "nth_page a k = a + 4096 * of_nat k"

definition page_count :: "u64 \<Rightarrow> u64 \<Rightarrow> nat" where
  "page_count va sz = (unat va + unat sz + 4095) div 4096 - unat va div 4096"

definition in_pages :: "u64 \<Rightarrow> nat \<Rightarrow> u64 \<Rightarrow> bool" where
  "in_pages a n va \<longleftrightarrow> (\<exists>k < n. same_page (nth_page a k) va)"

definition map_pages_post ::
  "u64 \<Rightarrow> u64 \<Rightarrow> u64 \<Rightarrow> nat \<Rightarrow> 'a vmstate_scheme \<Rightarrow> u64 list \<Rightarrow> u64 \<Rightarrow> nat \<Rightarrow> u32 \<Rightarrow> int \<Rightarrow> 'a vmstate_scheme \<Rightarrow> bool" where
  "map_pages_post kend root start j s ps pa n flags r s' \<longleftrightarrow>
     (\<exists>ps'. vm_inv kend root s' ps' \<and> suffix ps' ps) \<and> cr3 s' = cr3 s \<and>
     (if r = 0
      then (\<forall>va. (\<forall>k < n. same_page (nth_page start (j + k)) va \<longrightarrow>
                     leaf_of (mem s') root va = Some (mapped_entry (nth_page pa k) flags)) \<and>
                 (\<not> in_pages (nth_page start j) n va \<longrightarrow> leaf_of (mem s') root va = leaf_of (mem s) root va))
      else r = -1 \<and>
           (\<exists>f < n. \<forall>va. leaf_of (mem s') root va =
              (if in_pages start (j + f) va then None else leaf_of (mem s) root va)) \<and>
           ((\<exists>k < n. \<exists>b. page_of (mem s) root (nth_page start (j + k)) = Some b \<and> b \<noteq> nth_page pa k) \<or>
            length ps < 3 * n))"

section \<open>The entry codec\<close>

lemma mask_literals:
  "(0xF :: u64) = mask 4" "(0x1FF :: u64) = mask 9" "(0xFFF :: u64) = mask 12"
  "(0x7FFF :: u64) = mask 15" "(0x7FFF :: u32) = mask 15" "(0xFFFFFFFFF :: u64) = mask 36"
  "(0xFFFFFFFFF000 :: u64) = push_bit 12 (mask 36)"
  by (simp_all add: mask_eq_exp_minus_1 push_bit_eq_mult)

lemma and_one_bit: "drop_bit k raw AND 1 \<noteq> 0 \<longleftrightarrow> bit raw k" for raw :: "'a::len word"
  by (simp add: and_one_eq bit_iff_odd_drop_bit odd_iff_mod_2_eq_one)

lemma and_one_bit0: "raw AND 1 \<noteq> 0 \<longleftrightarrow> bit raw 0" for raw :: "'a::len word"
  using and_one_bit [of 0 raw] by simp

lemma decode_p [simp]: "pe_p (decode_page_entry raw) \<longleftrightarrow> bit raw 0"
  unfolding decode_page_entry_def page_entry.select_convs and_one_bit0 ..

lemma decode_address:
  "push_bit 12 (pe_address (decode_page_entry raw)) = raw AND 0xFFFFFFFFF000"
  unfolding decode_page_entry_def page_entry.select_convs mask_literals
  by (rule bit_word_eqI) (auto simp: bit_simps)

lemma encode_clean:
  assumes "pe_ign2 e = 0" "\<not> pe_xd e"
  shows "encode_page_entry e =
     of_bool (pe_p e) OR push_bit 1 (of_bool (pe_rw e)) OR push_bit 2 (of_bool (pe_us e))
     OR push_bit 3 (of_bool (pe_pwt e)) OR push_bit 4 (of_bool (pe_pcd e))
     OR push_bit 5 (of_bool (pe_a e)) OR push_bit 6 (of_bool (pe_d e))
     OR push_bit 7 (of_bool (pe_rsvd e)) OR push_bit 8 (ucast (pe_ign1 e) AND mask 4)
     OR push_bit 12 (pe_address e AND mask 36)"
  using assms by (simp add: encode_page_entry_def shl32_def mask_literals [symmetric])

lemma bit_of_bool: "bit (of_bool b :: 'a::len word) n \<longleftrightarrow> n = 0 \<and> b"
  by (auto simp: bit_simps)

lemma bit_push_of_bool: "bit (push_bit k (of_bool b) :: u64) n \<longleftrightarrow> n = k \<and> k < 64 \<and> b"
  by (auto simp: bit_push_bit_iff bit_of_bool)

lemma bit_push_mask:
  "k + w \<le> 64 \<Longrightarrow> bit (push_bit k (x AND mask w) :: u64) n \<longleftrightarrow> k \<le> n \<and> n < k + w \<and> bit x (n - k)"
  by (auto simp: bit_push_bit_iff bit_and_iff bit_mask_iff)

lemma bit_encode:
  assumes "pe_ign2 e = 0" "\<not> pe_xd e"
  shows "bit (encode_page_entry e) n \<longleftrightarrow>
     n = 0 \<and> pe_p e \<or> n = 1 \<and> pe_rw e \<or> n = 2 \<and> pe_us e \<or> n = 3 \<and> pe_pwt e
     \<or> n = 4 \<and> pe_pcd e \<or> n = 5 \<and> pe_a e \<or> n = 6 \<and> pe_d e \<or> n = 7 \<and> pe_rsvd e
     \<or> 8 \<le> n \<and> n < 12 \<and> bit (pe_ign1 e) (n - 8)
     \<or> 12 \<le> n \<and> n < 48 \<and> bit (pe_address e) (n - 12)"
proof -
  have ign1: "bit (push_bit 8 (ucast (pe_ign1 e) AND mask 4) :: u64) n \<longleftrightarrow>
      8 \<le> n \<and> n < 12 \<and> bit (pe_ign1 e) (n - 8)"
    using bit_push_mask [of 8 4 "ucast (pe_ign1 e)" n] by (auto simp: bit_unsigned_iff)
  have addr: "bit (push_bit 12 (pe_address e AND mask 36) :: u64) n \<longleftrightarrow>
      12 \<le> n \<and> n < 48 \<and> bit (pe_address e) (n - 12)"
    using bit_push_mask [of 12 36 "pe_address e" n] by simp
  show ?thesis
    unfolding encode_clean [OF assms] bit_or_iff bit_push_of_bool bit_of_bool ign1 addr
    by (simp add: disj_assoc)
qed

lemma bit_encode_fields:
  assumes "pe_ign2 e = 0" "\<not> pe_xd e"
  shows "k < 4 \<Longrightarrow> bit (encode_page_entry e) (8 + k) = bit (pe_ign1 e) k"
    and "bit (encode_page_entry e) (12 + k) \<longleftrightarrow> k < 36 \<and> bit (pe_address e) k"
  by (simp_all add: bit_encode [OF assms])

lemma encode_address:
  assumes "pe_ign2 e = 0" "\<not> pe_xd e"
  shows "encode_page_entry e AND 0xFFFFFFFFF000 = push_bit 12 (pe_address e AND mask 36)"
  unfolding mask_literals
proof (rule bit_word_eqI)
  fix n assume n: "n < LENGTH(64)"
  show "bit (encode_page_entry e AND push_bit 12 (mask 36)) n = bit (push_bit 12 (pe_address e AND mask 36)) n"
  proof (cases "12 \<le> n")
    case True
    then obtain k where "n = 12 + k" using le_Suc_ex by blast
    with n show ?thesis
      by (auto simp: bit_and_iff bit_push_bit_iff bit_mask_iff bit_encode_fields [OF assms])
  qed (simp add: bit_and_iff bit_push_bit_iff)
qed

lemma decode_encode:
  assumes "pe_ign2 e = 0" "\<not> pe_xd e" "unat (pe_ign1 e) < 16" "unat (pe_address e) < 2 ^ 36"
  shows "decode_page_entry (encode_page_entry e) = e"
proof -
  have lim: "pe_ign1 e AND mask 4 = pe_ign1 e" "pe_address e AND mask 36 = pe_address e"
    using assms(3,4) by (simp_all add: take_bit_eq_mask [symmetric] word_unat_eq_iff unsigned_take_bit_eq take_bit_nat_eq_self)
  have ign1: "ucast (drop_bit 8 (encode_page_entry e) AND mask 4) = pe_ign1 e AND mask 4"
    by (rule bit_word_eqI)
      (auto simp: bit_and_iff bit_mask_iff bit_unsigned_iff bit_drop_bit_eq bit_encode_fields [OF assms(1,2)])
  have addr: "drop_bit 12 (encode_page_entry e) AND mask 36 = pe_address e AND mask 36"
    by (rule bit_word_eqI)
      (auto simp: bit_and_iff bit_mask_iff bit_drop_bit_eq bit_encode_fields [OF assms(1,2)])
  have ign2: "drop_bit 48 (encode_page_entry e) AND mask 15 = 0"
    by (rule bit_word_eqI) (simp add: bit_and_iff bit_drop_bit_eq bit_encode [OF assms(1,2)])
  show ?thesis
    unfolding decode_page_entry_def mask_literals and_one_bit0 ign1 addr ign2 lim
    using assms by (intro page_entry.equality) (simp_all add: bit_drop_bit_eq bit_encode [OF assms(1,2)])
qed

lemma encode_decode:
  assumes "drop_bit 48 raw = 0"
  shows "encode_page_entry (decode_page_entry raw) = raw"
proof -
  have hi: "\<not> bit raw n" if "48 \<le> n" for n
    using arg_cong [OF assms, of "\<lambda>w. bit w (n - 48)"] that by (simp add: bit_drop_bit_eq)
  have 1: "pe_ign2 (decode_page_entry raw) = 0" "\<not> pe_xd (decode_page_entry raw)"
    unfolding decode_page_entry_def page_entry.select_convs and_one_bit0
    using hi by (simp_all add: assms bit_drop_bit_eq)
  have sel: "pe_p (decode_page_entry raw) = bit raw 0" "pe_rw (decode_page_entry raw) = bit raw 1"
    "pe_us (decode_page_entry raw) = bit raw 2" "pe_pwt (decode_page_entry raw) = bit raw 3"
    "pe_pcd (decode_page_entry raw) = bit raw 4" "pe_a (decode_page_entry raw) = bit raw 5"
    "pe_d (decode_page_entry raw) = bit raw 6" "pe_rsvd (decode_page_entry raw) = bit raw 7"
    unfolding decode_page_entry_def page_entry.select_convs and_one_bit0
    by (simp_all add: bit_drop_bit_eq)
  have sel2: "bit (pe_ign1 (decode_page_entry raw)) k \<longleftrightarrow> k < 4 \<and> bit raw (8 + k)"
    "bit (pe_address (decode_page_entry raw)) k \<longleftrightarrow> k < 36 \<and> bit raw (12 + k)" for k
    unfolding decode_page_entry_def page_entry.select_convs mask_literals
    by (auto simp: bit_simps)
  show ?thesis
  proof (rule bit_word_eqI)
    fix n assume "n < LENGTH(64)"
    have "n = 0 \<or> n = 1 \<or> n = 2 \<or> n = 3 \<or> n = 4 \<or> n = 5 \<or> n = 6 \<or> n = 7 \<or> 8 \<le> n \<and> n < 12 \<or> 12 \<le> n \<and> n < 48 \<or> 48 \<le> n" by linarith
    then show "bit (encode_page_entry (decode_page_entry raw)) n = bit raw n"
      unfolding bit_encode [OF 1] sel sel2 using hi [of n]
      by (elim disjE) (simp_all add: less_diff_conv2)
  qed
qed

section \<open>Following paths\<close>

lemma follow_append:
  "follow m t (p @ q) = (case follow m t p of None \<Rightarrow> None | Some t' \<Rightarrow> follow m t' q)"
  by (induction p arbitrary: t) (auto simp: Let_def)

lemma follow_snoc:
  "follow m t (p @ [i]) = (case follow m t p of None \<Rightarrow> None
     | Some t' \<Rightarrow> let raw = load64 m (t' + 8 * of_nat i)
                  in if bit raw 0 then Some (raw AND 0xFFFFFFFFF000) else None)"
  by (simp add: follow_append Let_def split: option.split)

lemma good_path_append [simp]: "good_path (p @ q) \<longleftrightarrow> good_path p \<and> good_path q"
  by (auto simp: good_path_def)

lemma good_path_Cons [simp]: "good_path (i # q) \<longleftrightarrow> i < 512 \<and> good_path q"
  by (auto simp: good_path_def)

lemma good_path_Nil [simp]: "good_path []"
  by (simp add: good_path_def)

lemma level_index_less [simp]: "level_index l va < 512"
proof -
  have "level_index l va = unat (take_bit 9 (drop_bit (12 + l * 9) va))"
    unfolding level_index_def mask_literals by (simp add: take_bit_eq_mask)
  also have "\<dots> < 2 ^ 9" unfolding unsigned_take_bit_eq by (rule take_bit_nat_less_exp)
  finally show ?thesis by simp
qed

lemma good_path_from [simp]: "good_path (path_from l va)"
  by (induction l) simp_all

lemma length_path_from [simp]: "length (path_from l va) = l"
  by (induction l) simp_all

lemma va_path_good [simp]: "good_path (va_path va)" "length (va_path va) = 4"
  by (simp_all add: va_path_def)

lemma follow_entry_at:
  "q \<noteq> [] \<Longrightarrow> follow m root q = map_option (\<lambda>raw. raw AND 0xFFFFFFFFF000) (entry_at m root q)"
  by (cases q rule: rev_cases) (auto simp: follow_snoc entry_at_def Let_def split: option.split)

text \<open>Two memories with the same entries along a path.\<close>

lemma same_slots_follow:
  "same_slots m m' root q \<Longrightarrow> follow m' root q = follow m root q"
proof (induction q rule: rev_induct)
  case (snoc i q)
  then have "same_slots m m' root q"
    unfolding same_slots_def by (auto intro: prefix_order.trans)
  then have "follow m' root q = follow m root q" by (rule snoc.IH)
  moreover have "load64 m' (t + 8 * of_nat i) = load64 m (t + 8 * of_nat i)"
    if "follow m root q = Some t" for t
    using snoc.prems that unfolding same_slots_def by simp
  ultimately show ?case by (simp add: follow_snoc Let_def split: option.split)
qed simp

lemma same_slots_entry_at:
  assumes "same_slots m m' root q" "q \<noteq> []"
  shows "entry_at m' root q = entry_at m root q"
proof -
  obtain p i where q: "q = p @ [i]" using assms(2) by (cases q rule: rev_cases) auto
  have "same_slots m m' root p"
    using assms(1) q unfolding same_slots_def by (auto intro: prefix_order.trans)
  then have "follow m' root p = follow m root p" by (rule same_slots_follow)
  moreover have "load64 m' (t + 8 * of_nat i) = load64 m (t + 8 * of_nat i)"
    if "follow m root p = Some t" for t
    using assms(1) q that unfolding same_slots_def by simp
  ultimately show ?thesis by (simp add: q entry_at_def Let_def split: option.split)
qed

lemma prefix_snocD:
  assumes "prefix (pre @ [i]) q" "good_path q" "length q \<le> 4"
  shows "good_path pre \<and> i < 512 \<and> length pre \<le> 3"
  using assms by (auto simp: prefix_def)

lemma wf_tablesD:
  assumes "wf_tables m root free" "follow m root p = Some t" "good_path p" "length p \<le> 3"
  shows "page_aligned t" "t \<noteq> 0" "t \<notin> set free"
  using assms(1) [unfolded wf_tables_def, rule_format, OF assms(4,3,2)] by simp_all

lemma wf_tables_inj:
  assumes "wf_tables m root free" "follow m root p = Some t" "good_path p" "length p \<le> 3"
    "follow m root q = Some t" "good_path q" "length q \<le> 3"
  shows "p = q"
  using assms(1) [unfolded wf_tables_def, rule_format, OF assms(4,3,2)] assms(5-7) by simp

lemma wf_tables_cong:
  assumes "wf_tables m root free" "set free' \<subseteq> set free"
    "\<And>q. \<lbrakk>good_path q; length q \<le> 3\<rbrakk> \<Longrightarrow> follow m' root q = follow m root q"
  shows "wf_tables m' root free'"
  unfolding wf_tables_def
proof (intro allI impI)
  fix q t assume q: "length q \<le> 3" "good_path q" "follow m' root q = Some t"
  then have t: "follow m root q = Some t" using assms(3) by simp
  have "q' = q" if "length q' \<le> 3" "good_path q'" "follow m' root q' = Some t" for q'
    using wf_tables_inj [OF assms(1) _ that(2,1) t q(2,1)] assms(3) [OF that(2,1)] that(3) by simp
  then show "page_aligned t \<and> t \<noteq> 0 \<and> t \<notin> set free' \<and>
      (\<forall>q'. length q' \<le> 3 \<longrightarrow> good_path q' \<longrightarrow> follow m' root q' = Some t \<longrightarrow> q' = q)"
    using wf_tablesD [OF assms(1) t q(2,1)] assms(2) by auto
qed

text \<open>A store into slot \<open>i\<close> of the table at \<open>pre\<close> affects the paths through that slot only.\<close>

lemma store_other_slots:
  assumes wf: "wf_tables m root free" and t: "follow m root pre = Some t"
    and pre: "good_path pre" "length pre \<le> 3" "i < 512"
    and q: "good_path q" "length q \<le> 4" "\<not> prefix (pre @ [i]) q"
  shows "same_slots m (store64 m (t + 8 * of_nat i) v) root q"
  unfolding same_slots_def
proof (intro allI impI)
  fix pre' i' t'
  assume p: "prefix (pre' @ [i']) q" and t': "follow m root pre' = Some t'"
  have g: "good_path pre'" "i' < 512" "length pre' \<le> 3" using prefix_snocD [OF p q(1,2)] by auto
  have al: "page_aligned t" "page_aligned t'" using wf_tablesD wf t t' pre g by blast+
  have "t + 8 * of_nat i \<noteq> t' + 8 * of_nat i'"
  proof
    assume "t + 8 * of_nat i = t' + 8 * of_nat i'"
    then have "t = t'" "i = i'" using slot_eq_iff al pre(3) g(2) by blast+
    moreover from this have "pre = pre'" using wf_tables_inj wf t t' pre g by blast
    ultimately show False using p q(3) by simp
  qed
  then show "load64 (store64 m (t + 8 * of_nat i) v) (t' + 8 * of_nat i') = load64 m (t' + 8 * of_nat i')"
    using al pre(3) g(2) by (simp add: load64_store64 aligned8_slot)
qed

lemmas follow_store_other = store_other_slots [THEN same_slots_follow]

lemma follow_store_through:
  assumes "wf_tables m root free" "follow m root pre = Some t"
    and "good_path pre" "length pre \<le> 3" "i < 512"
  shows "follow (store64 m (t + 8 * of_nat i) v) root (pre @ i # r) =
     (if bit v 0 then follow (store64 m (t + 8 * of_nat i) v) (v AND 0xFFFFFFFFF000) r else None)"
proof -
  have "follow (store64 m (t + 8 * of_nat i) v) root pre = Some t"
    using follow_store_other [OF assms, of pre v] assms by simp
  then show ?thesis by (simp add: follow_append load64_store64_same Let_def)
qed

lemma entry_at_store_leaf:
  assumes "wf_tables m root free" "follow m root pre = Some t" "good_path pre" "length pre = 3" "i < 512"
    and q: "good_path q" "length q = 4"
  shows "entry_at (store64 m (t + 8 * of_nat i) v) root q =
     (if q = pre @ [i] then (if bit v 0 then Some v else None) else entry_at m root q)"
proof (cases "q = pre @ [i]")
  case True
  have "follow (store64 m (t + 8 * of_nat i) v) root pre = Some t"
    using follow_store_other [OF assms(1-3) _ assms(5), of pre v] assms by simp
  then show ?thesis using True by (simp add: entry_at_def load64_store64_same)
next
  case False
  have "\<not> prefix (pre @ [i]) q" using False q(2) assms(4) by (auto simp: prefix_def)
  then have "same_slots m (store64 m (t + 8 * of_nat i) v) root q"
    using store_other_slots [OF assms(1-3) _ assms(5) q(1)] q(2) assms(4) by simp
  from same_slots_entry_at [OF this] show ?thesis using False q(2) by (cases "q = []") auto
qed

lemma follow_store_leaf:
  assumes "wf_tables m root free" "follow m root pre = Some t" "good_path pre" "length pre = 3" "i < 512"
    and q: "good_path q" "length q \<le> 3"
  shows "follow (store64 m (t + 8 * of_nat i) v) root q = follow m root q"
proof -
  have "\<not> prefix (pre @ [i]) q" using q assms(4) by (auto simp: prefix_def)
  then show ?thesis using follow_store_other [OF assms(1-3) _ assms(5)] q assms(4) by simp
qed

lemma wf_store_leaf:
  assumes "wf_tables m root free" "follow m root pre = Some t" "good_path pre" "length pre = 3" "i < 512"
  shows "wf_tables (store64 m (t + 8 * of_nat i) v) root free"
  using follow_store_leaf [OF assms] by (intro wf_tables_cong [OF assms(1) subset_refl])

text \<open>Bytes outside the tables do not matter.\<close>

lemma outside_tables_slots:
  assumes wf: "wf_tables m root free" and "page_aligned p" "p \<in> set free"
    and frame: "\<And>x. \<not> in_page p x \<Longrightarrow> m' x = m x"
    and q: "good_path q" "length q \<le> 4"
  shows "same_slots m m' root q"
  unfolding same_slots_def
proof (intro allI impI)
  fix pre i t
  assume p: "prefix (pre @ [i]) q" and t: "follow m root pre = Some t"
  have g: "good_path pre" "i < 512" "length pre \<le> 3" using prefix_snocD [OF p q] by auto
  then have "page_aligned t" "t \<noteq> p" using wf_tablesD [OF wf t] assms(3) by auto
  then have "\<not> in_page p x" if "in_page t x" for x
    using pages_disjoint that assms(2) by blast
  then show "load64 m' (t + 8 * of_nat i) = load64 m (t + 8 * of_nat i)"
    using frame g(2) by (intro load64_other_page) auto
qed

lemmas follow_outside_tables = outside_tables_slots [THEN same_slots_follow]

section \<open>Adding a table\<close>

lemma table_entry_value:
  fixes addr :: u64
  assumes "pe_ign2 e = 0" "\<not> pe_xd e" "pe_p e" "pe_address e = drop_bit 12 addr AND 0xFFFFFFFFF"
  shows "bit (encode_page_entry e) 0" "encode_page_entry e AND 0xFFFFFFFFF000 = addr AND 0xFFFFFFFFF000"
proof -
  show "bit (encode_page_entry e) 0" using assms(3) by (simp add: bit_encode [OF assms(1,2)])
  have "push_bit 12 ((drop_bit 12 addr AND mask 36) AND mask 36) = addr AND push_bit 12 (mask 36)"
    by (rule bit_word_eqI) (auto simp: bit_simps)
  then show "encode_page_entry e AND 0xFFFFFFFFF000 = addr AND 0xFFFFFFFFF000"
    unfolding encode_address [OF assms(1,2)] assms(4) unfolding mask_literals .
qed

lemma frame_address:
  assumes "page_aligned p" "unat p < 2 ^ 48"
  shows "p AND 0xFFFFFFFFF000 = p"
proof -
  have "p AND NOT (mask 12) = p" using assms(1) PGROUNDDOWN_id PGROUNDDOWN_mask by metis
  moreover have "p AND mask 48 = p"
    using assms(2) by (simp add: take_bit_eq_mask [symmetric] word_unat_eq_iff unsigned_take_bit_eq take_bit_nat_eq_self)
  moreover have "(push_bit 12 (mask 36) :: u64) = mask 48 AND NOT (mask 12)"
    by (rule bit_word_eqI) (auto simp: bit_simps)
  ultimately show ?thesis unfolding mask_literals by (metis and.assoc)
qed

lemma follow_zero_page:
  assumes "\<And>x. in_page p x \<Longrightarrow> m x = 0" "i < 512"
  shows "follow m p (i # r) = None"
proof -
  have "load64 m (p + 8 * of_nat i) = load64 (\<lambda>_. 0) (p + 8 * of_nat i)"
    using assms by (intro load64_other_page) auto
  then show ?thesis by simp
qed

lemma prefix_snoc_cases:
  assumes "prefix (pre @ [i]) q"
  obtains r where "q = pre @ i # r"
  using assms by (auto simp: prefix_def)


lemma add_table_follow:
  assumes wf: "wf_tables m root (p # ps)" and t: "follow m root pre = Some t"
    and pre: "good_path pre" "length pre \<le> 2" "i < 512"
    and free: "\<not> bit (load64 m (t + 8 * of_nat i)) 0"
    and p: "page_aligned p"
    and m1: "\<And>x. \<not> in_page p x \<Longrightarrow> m1 x = m x" "\<And>x. in_page p x \<Longrightarrow> m1 x = 0"
    and v: "bit v 0" "v AND 0xFFFFFFFFF000 = p"
    and q: "good_path q" "length q \<le> 4"
  shows "follow (store64 m1 (t + 8 * of_nat i) v) root q =
     (if q = pre @ [i] then Some p else follow m root q)"
    and "length q = 4 \<Longrightarrow> entry_at (store64 m1 (t + 8 * of_nat i) v) root q = entry_at m root q"
proof -
  let ?m2 = "store64 m1 (t + 8 * of_nat i) v"
  have len: "length pre \<le> 3" using pre(2) by simp
  have m1_follow: "follow m1 root q = follow m root q" if "good_path q" "length q \<le> 4" for q
    using follow_outside_tables [OF wf p _ m1(1)] that by simp
  have wf1: "wf_tables m1 root (p # ps)" by (rule wf_tables_cong [OF wf]) (simp_all add: m1_follow)
  have t1: "follow m1 root pre = Some t" using m1_follow [of pre] t pre by simp
  have tp: "page_aligned t" "t \<noteq> p" using wf_tablesD [OF wf t pre(1) len] by auto
  have zero: "?m2 x = 0" if "in_page p x" for x
  proof -
    have "\<not> in_page t x" using pages_disjoint [OF p tp(1) that] tp(2) by blast
    then show ?thesis using store64_outside_page [OF tp(1) pre(3)] m1(2) [OF that] by simp
  qed
  have "follow ?m2 root q = (if q = pre @ [i] then Some p else follow m root q) \<and>
      (length q = 4 \<longrightarrow> entry_at ?m2 root q = entry_at m root q)"
  proof (cases "prefix (pre @ [i]) q")
    case False
    have slots: "same_slots m1 ?m2 root q" "same_slots m m1 root q"
      using store_other_slots [OF wf1 t1 pre(1) len pre(3) q False]
        outside_tables_slots [OF wf p _ m1(1) q] by simp_all
    from slots [THEN same_slots_follow] slots [THEN same_slots_entry_at] False show ?thesis
      by (cases "q = []") auto
  next
    case True
    then obtain r where r: "q = pre @ i # r" by (rule prefix_snoc_cases)
    have "follow ?m2 root q = follow ?m2 p r"
      using follow_store_through [OF wf1 t1 pre(1) len pre(3), of v r] v r by simp
    moreover have "follow m root q = None" using t free r by (simp add: follow_append)
    moreover have "follow ?m2 p r = None" if "r \<noteq> []"
      using follow_zero_page [of p ?m2, OF zero] q(1) r that by (cases r) auto
    ultimately have *: "follow ?m2 root q = (if q = pre @ [i] then Some p else follow m root q)"
      "follow m root q = None" using r by auto
    then show ?thesis using follow_entry_at [of q m root] follow_entry_at [of q ?m2 root] pre(2) r
      by (cases "r = []") auto
  qed
  then show "follow ?m2 root q = (if q = pre @ [i] then Some p else follow m root q)"
    "length q = 4 \<Longrightarrow> entry_at ?m2 root q = entry_at m root q" by blast+
qed

lemma add_table_wf:
  assumes wf: "wf_tables m root (p # ps)" and p: "page_aligned p" "p \<noteq> 0" "p \<notin> set ps"
    and new: "\<And>q. \<lbrakk>good_path q; length q \<le> 4\<rbrakk> \<Longrightarrow>
        follow m2 root q = (if q = new then Some p else follow m root q)"
  shows "wf_tables m2 root ps"
  unfolding wf_tables_def
proof (intro allI impI)
  fix q t assume q: "length q \<le> 3" "good_path q" "follow m2 root q = Some t"
  have old: "r \<noteq> new \<and> follow m root r = Some t" if "t \<noteq> p" "good_path r" "length r \<le> 3" "follow m2 root r = Some t" for r
    using new [of r] that by (auto split: if_splits)
  have fresh: "r = new" if "good_path r" "length r \<le> 3" "follow m2 root r = Some p" for r
    using new [of r] that wf_tablesD(3) [OF wf, of r p] by (auto split: if_splits)
  show "page_aligned t \<and> t \<noteq> 0 \<and> t \<notin> set ps \<and>
      (\<forall>q'. length q' \<le> 3 \<longrightarrow> good_path q' \<longrightarrow> follow m2 root q' = Some t \<longrightarrow> q' = q)"
  proof (cases "t = p")
    case True
    then show ?thesis using p fresh q by auto
  next
    case False
    then have t: "follow m root q = Some t" using old q by simp
    have "q' = q" if "length q' \<le> 3" "good_path q'" "follow m2 root q' = Some t" for q'
      using wf_tables_inj [OF wf _ that(2,1) t q(2,1)] old [OF False that(2,1,3)] by simp
    then show ?thesis using wf_tablesD [OF wf t q(2,1)] by auto
  qed
qed

section \<open>Walking\<close>

lemma walk_loop_follow:
  "walk_loop l t va False s =
     (case follow (mem s) t (path_from l va) of None \<Rightarrow> 0
      | Some t' \<Rightarrow> t' + 8 * of_nat (level_index 0 va), s)"
  by (induction l arbitrary: t) (simp_all add: Let_def decode_address)

lemma grows_refl: "vm_inv kend root s ps \<Longrightarrow> grows kend root s ps s ps"
  by (simp add: grows_def)

lemma growsD:
  assumes "grows kend root s ps s' ps'"
  shows "vm_inv kend root s' ps'" "suffix ps' ps" "kstate.more s' = kstate.more s"
    and "\<lbrakk>good_path q; length q = 4\<rbrakk> \<Longrightarrow> entry_at (mem s') root q = entry_at (mem s) root q"
    and "leaf_of (mem s') root va = leaf_of (mem s) root va"
    and "in_tables (mem s') root x \<Longrightarrow> in_tables (mem s) root x \<or> (\<exists>p \<in> set ps. in_page p x)"
    and "\<lbrakk>\<not> in_tables (mem s) root x; \<not> (\<exists>p \<in> set ps. in_page p x)\<rbrakk> \<Longrightarrow> mem s' x = mem s x"
  using assms by (simp_all add: grows_def leaf_of_def)

lemma grows_trans:
  assumes "grows kend root s ps s1 ps1" "grows kend root s1 ps1 s2 ps2"
  shows "grows kend root s ps s2 ps2"
  unfolding grows_def
proof (intro conjI allI impI)
  show "vm_inv kend root s2 ps2" using growsD(1) [OF assms(2)] .
  show "suffix ps2 ps" using growsD(2) assms by (blast intro: suffix_order.trans)
  show "kstate.more s2 = kstate.more s" using growsD(3) [OF assms(1)] growsD(3) [OF assms(2)] by simp
  show "entry_at (mem s2) root q = entry_at (mem s) root q" if "good_path q" "length q = 4" for q
    using growsD(4) [OF assms(1) that] growsD(4) [OF assms(2) that] by simp
next
  have sub: "set ps1 \<subseteq> set ps" using growsD(2) [OF assms(1)] by (rule set_mono_suffix)
  fix x
  have t1: "in_tables (mem s) root x \<or> (\<exists>p \<in> set ps. in_page p x)"
    if "in_tables (mem s1) root x \<or> (\<exists>p \<in> set ps1. in_page p x)"
    using that assms(1) sub unfolding grows_def by blast
  show "in_tables (mem s) root x \<or> (\<exists>p \<in> set ps. in_page p x)" if "in_tables (mem s2) root x"
    using that assms(2) t1 unfolding grows_def by blast
  assume "\<not> in_tables (mem s) root x" "\<not> (\<exists>p \<in> set ps. in_page p x)"
  then have "mem s1 x = mem s x" "mem s2 x = mem s1 x"
    using assms t1 unfolding grows_def by blast+
  then show "mem s2 x = mem s x" by simp
qed

lemma kmem_inv_outside:
  assumes "kmem_inv kend s ps" "page_aligned q" "q \<notin> set ps"
    and "\<And>x. \<not> in_page q x \<Longrightarrow> m' x = mem s x"
  shows "kmem_inv kend (s\<lparr>mem := m'\<rparr>) ps"
proof -
  have "chain (mem s) (freelist s) ps" "\<forall>p \<in> set ps. page_aligned p"
    using assms(1) by (simp_all add: kmem_inv_def valid_page_def)
  then have "chain m' (freelist s) ps" using assms(2-4) by (blast intro: chain_frame)
  then show ?thesis using assms(1) by (simp add: kmem_inv_def)
qed

lemma kalloc_more: "kalloc s = (p, s') \<Longrightarrow> kstate.more s' = kstate.more s"
  by (auto simp: kalloc_def Let_def split: if_splits)

lemma init_entry_eq:
  "init_entry raw_entry addr s = s\<lparr>mem := store64 (mem s) raw_entry (encode_page_entry (low_entry addr))\<rparr>"
  by (simp add: init_entry_def low_entry_def)

lemma low_entry_value:
  "bit (encode_page_entry (low_entry addr)) 0"
  "encode_page_entry (low_entry addr) AND 0xFFFFFFFFF000 = addr AND 0xFFFFFFFFF000"
  by (rule table_entry_value; simp add: low_entry_def)+

lemma apic_entry_value:
  "bit (encode_page_entry (apic_entry addr)) 0"
  "encode_page_entry (apic_entry addr) AND 0xFFFFFFFFF000 = addr AND 0xFFFFFFFFF000"
  by (rule table_entry_value; simp add: apic_entry_def)+

lemma alloc_table:
  fixes s :: "'a kstate_scheme"
  assumes inv: "vm_inv kend root s (p # ps)" and t: "follow (mem s) root pre = Some t"
    and pre: "good_path pre" "length pre \<le> 2" "i < 512"
    and free: "\<not> bit (load64 (mem s) (t + 8 * of_nat i)) 0"
    and k: "kalloc s = (tbl, s1)"
    and s2: "s2 = init_entry (t + 8 * of_nat i) tbl (s1\<lparr>mem := memset (mem s1) tbl 0 PGSIZE\<rparr>)"
  shows "tbl = p \<and> p \<noteq> 0 \<and> follow (mem s2) root (pre @ [i]) = Some p \<and> grows kend root s (p # ps) s2 ps"
proof -
  have kinv: "kmem_inv kend s (p # ps)" and wf: "wf_tables (mem s) root (p # ps)"
    using inv by (simp_all add: vm_inv_def)
  have p: "page_aligned p" "p \<noteq> 0" "p \<notin> set ps" "unat p < 2 ^ 48" "tbl = p" and s1: "kmem_inv kend s1 ps"
    using kinv kalloc_cons [OF kinv] k by (auto simp: kmem_inv_def valid_page_def word_less_nat_alt)
  have len: "length pre \<le> 3" using pre(2) by simp
  have tp: "page_aligned t" "t \<noteq> p" "t \<notin> set ps" using wf_tablesD [OF wf t pre(1) len] by auto
  let ?m1 = "memset (mem s1) p 0 4096"
  define v where "v = encode_page_entry (low_entry p)"
  have v: "bit v 0" "v AND 0xFFFFFFFFF000 = p"
    unfolding v_def low_entry_value(2) by (rule low_entry_value) (rule frame_address [OF p(1,4)])
  have s2_eq: "s2 = s1\<lparr>mem := store64 ?m1 (t + 8 * of_nat i) v\<rparr>"
    unfolding s2 p(5) init_entry_eq v_def by simp
  then have m2: "mem s2 = store64 ?m1 (t + 8 * of_nat i) v" by simp
  have m1: "?m1 x = mem s x" if "\<not> in_page p x" for x
    using kalloc_frame [OF k] that p(5) by (simp add: memset_page)
  have new: "follow (mem s2) root q = (if q = pre @ [i] then Some p else follow (mem s) root q)"
    if "good_path q" "length q \<le> 4" for q
    unfolding m2
    by (rule add_table_follow(1) [OF wf t pre free p(1) m1 _ v that]) (simp_all add: memset_page)
  have wf2: "wf_tables (mem s2) root ps" by (rule add_table_wf [OF wf p(1-3)]) (rule new)
  have "kmem_inv kend (s1\<lparr>mem := ?m1\<rparr>) ps"
    by (rule kmem_inv_outside [OF s1 p(1,3)]) (simp add: memset_page)
  from kmem_inv_outside [OF this tp(1,3), of "mem s2"] have "kmem_inv kend s2 ps"
    using store64_outside_page [OF tp(1) pre(3)] by (simp add: s2_eq)
  with wf2 have inv2: "vm_inv kend root s2 ps" by (simp add: vm_inv_def)
  have tab: "in_tables (mem s) root x" if "in_page t x" for x
    using that t pre(1) len unfolding in_tables_def by blast
  have "grows kend root s (p # ps) s2 ps"
    unfolding grows_def
  proof (intro conjI allI impI)
    show "kstate.more s2 = kstate.more s" using kalloc_more [OF k] by (simp add: s2_eq)
    show "entry_at (mem s2) root q = entry_at (mem s) root q" if "good_path q" "length q = 4" for q
      unfolding m2
      by (rule add_table_follow(2) [OF wf t pre free p(1) m1 _ v that(1)]) (simp_all add: memset_page that)
    fix x
    show "in_tables (mem s) root x \<or> (\<exists>p \<in> set (p # ps). in_page p x)" if "in_tables (mem s2) root x"
      using that new unfolding in_tables_def by (auto split: if_splits)
    show "mem s2 x = mem s x" if "\<not> in_tables (mem s) root x" "\<not> (\<exists>p \<in> set (p # ps). in_page p x)"
    proof -
      have "\<not> in_page t x" using that(1) tab by blast
      then show ?thesis using store64_outside_page [OF tp(1) pre(3)] m1 [of x] m2 that(2) by simp
    qed
  qed (simp_all add: inv2 suffix_ConsI)
  then show ?thesis using p new [of "pre @ [i]"] pre by simp
qed


lemma walk_post_here:
  assumes "vm_inv kend root s ps" "follow (mem s) root path = Some t" "good_path path" "length path = 3"
  shows "walk_post kend root s ps 0 path va (t + 8 * of_nat (level_index 0 va)) s"
proof -
  have wf: "wf_tables (mem s) root ps" using assms(1) by (simp add: vm_inv_def)
  have "t \<noteq> 0" "page_aligned t" using wf_tablesD [OF wf assms(2,3)] assms(4) by simp_all
  then have "t + 8 * of_nat (level_index 0 va) \<noteq> 0"
    using slot_eq_iff [of t 0 "level_index 0 va" 0] by (simp add: page_aligned_def)
  then show ?thesis
    unfolding walk_post_def using assms(2) grows_refl [OF assms(1)] by (intro exI [of _ ps]) simp
qed

lemma walk_post_deeper:
  "walk_post kend root s ps n path va r s' \<Longrightarrow> walk_post kend root s ps (Suc n) path va r s'"
  unfolding walk_post_def by (fastforce split: if_splits)

lemma walk_post_new:
  assumes "grows kend root s (p # ps) s2 ps" "follow (mem s) root path = None"
    "walk_post kend root s2 ps n path va r s'"
  shows "walk_post kend root s (p # ps) (Suc n) path va r s'"
  using assms(2,3) grows_trans [OF assms(1)] unfolding walk_post_def by (auto split: if_splits)

lemma walk_loop_alloc:
  fixes s :: "'a kstate_scheme"
  assumes "vm_inv kend root s ps" "follow (mem s) root pre = Some t" "good_path pre" "length pre + l = 3"
    "walk_loop l t va True s = (r, s')"
  shows "walk_post kend root s ps l (pre @ path_from l va) va r s'"
  using assms
proof (induction l arbitrary: s ps pre t)
  case 0
  then show ?case using walk_post_here [OF 0(1-3), of va] by auto
next
  case (Suc l)
  let ?i = "level_index (Suc l) va"
  let ?raw = "load64 (mem s) (t + 8 * of_nat ?i)"
  have path: "(pre @ [?i]) @ path_from l va = pre @ path_from (Suc l) va" by simp
  show ?case
  proof (cases "bit ?raw 0")
    case True
    have "follow (mem s) root (pre @ [?i]) = Some (?raw AND 0xFFFFFFFFF000)"
      using Suc.prems(2) True by (simp add: follow_snoc)
    then have "walk_post kend root s ps l ((pre @ [?i]) @ path_from l va) va r s'"
      using Suc.prems True by (intro Suc.IH) (simp_all add: Let_def decode_address)
    then show ?thesis unfolding path by (rule walk_post_deeper)
  next
    case False
    then have none: "follow (mem s) root (pre @ path_from (Suc l) va) = None"
      using Suc.prems(2) by (simp add: follow_append)
    show ?thesis
    proof (cases ps)
      case Nil
      then have "kalloc s = (0, s)" using Suc.prems(1) by (auto simp: vm_inv_def intro: kalloc_nil)
      then have "r = 0" "s' = s" using Suc.prems(5) False by (simp_all add: Let_def)
      then show ?thesis using Nil none grows_refl [OF Suc.prems(1)] by (auto simp: walk_post_def)
    next
      case (Cons p qs)
      obtain tbl s1 where k: "kalloc s = (tbl, s1)" by (cases "kalloc s")
      define s2 where "s2 = init_entry (t + 8 * of_nat ?i) tbl (s1\<lparr>mem := memset (mem s1) tbl 0 PGSIZE\<rparr>)"
      have new: "tbl = p" "p \<noteq> 0" "follow (mem s2) root (pre @ [?i]) = Some p" "grows kend root s (p # qs) s2 qs"
        using alloc_table [OF Suc.prems(1) [unfolded Cons] Suc.prems(2,3) _ _ False k s2_def] Suc.prems(4) by simp_all
      have "walk_loop l p va True s2 = (r, s')"
        using Suc.prems(5) False k new(1,2) by (simp add: Let_def s2_def)
      then have "walk_post kend root s2 qs l ((pre @ [?i]) @ path_from l va) va r s'"
        using Suc.prems(3,4) by (intro Suc.IH [OF growsD(1) [OF new(4)] new(3)]) simp_all
      then show ?thesis unfolding Cons path by (rule walk_post_new [OF new(4) none])
    qed
  qed
qed

section \<open>Properties of the codec\<close>

text \<open>
  An entry whose reserved fields \<open>ign2\<close> and \<open>xd\<close> are clear and whose other fields fit
  their widths is unchanged by encoding and decoding.
\<close>

theorem entry_decode_encode:
  assumes "pe_ign2 e = 0" "\<not> pe_xd e" "unat (pe_ign1 e) < 16" "unat (pe_address e) < 2 ^ 36"
  shows "decode_page_entry (encode_page_entry e) = e"
  by (rule decode_encode [OF assms])

theorem entry_decode_encode_witness:
  "decode_page_entry (encode_page_entry (low_entry 0x12345000)) = low_entry 0x12345000"
  by (rule entry_decode_encode) (simp_all add: low_entry_def)

text \<open>A raw entry whose bits 48 to 63 are clear is unchanged by decoding and encoding.\<close>

theorem entry_encode_decode:
  assumes "drop_bit 48 raw = 0"
  shows "encode_page_entry (decode_page_entry raw) = raw"
  by (rule encode_decode [OF assms])

theorem entry_encode_decode_witness: "encode_page_entry (decode_page_entry 0x12345003) = 0x12345003"
  by (rule entry_encode_decode) simp

end
