(* ===== verification/PageMaps.thy ===== *)
theory PageMaps
  imports Paging
begin

text \<open>
  What the mapping operations of \<^verbatim>\<open>kernel/paging/paging.c\<close> do to the translations the tables
  denote: \<open>map_page\<close>, \<open>unmap_page\<close> and \<open>va_to_pa\<close> on one page, \<open>map_pages\<close>, \<open>unmap_pages\<close>
  and \<open>map_mmio\<close> on ranges with their rollback, and the identity mappings of
  \<open>map_low_memory\<close> and \<open>map_apic_region\<close>, with the step that \<open>kvminit\<close> shares with them. The definitions are in \<open>Paging\<close>.
\<close>

unbundle bit_operations_syntax

section \<open>Addresses and paths\<close>

lemma word_eq_iff_field:
  fixes x y :: "'a::len word"
  assumes "\<And>n. bit x n \<longleftrightarrow> P n \<and> f n" "\<And>n. bit y n \<longleftrightarrow> P n \<and> g n"
  shows "x = y \<longleftrightarrow> (\<forall>n. P n \<longrightarrow> f n = g n)"
proof
  assume "x = y"
  then have "f n = g n" if "P n" for n using assms [of n] that by simp
  then show "\<forall>n. P n \<longrightarrow> f n = g n" by simp
next
  assume "\<forall>n. P n \<longrightarrow> f n = g n"
  then show "x = y" by (intro bit_word_eqI) (auto simp: assms)
qed

lemma level_index_eq_iff:
  "level_index l va = level_index l va' \<longleftrightarrow>
     (\<forall>k < 9. bit va (12 + l * 9 + k) = bit va' (12 + l * 9 + k))"
proof -
  have b: "bit (drop_bit (12 + l * 9) x AND mask 9) k \<longleftrightarrow> k < 9 \<and> bit x (12 + l * 9 + k)" for x :: u64 and k
    by (auto simp: bit_and_iff bit_mask_iff bit_drop_bit_eq)
  have "level_index l va = level_index l va' \<longleftrightarrow>
      drop_bit (12 + l * 9) va AND mask 9 = drop_bit (12 + l * 9) va' AND mask 9"
    unfolding level_index_def mask_literals by (simp add: word_unat_eq_iff)
  then show ?thesis unfolding word_eq_iff_field [OF b b] .
qed

lemma same_page_bits: "same_page va va' \<longleftrightarrow> (\<forall>n. 12 \<le> n \<and> n < 48 \<longrightarrow> bit va n = bit va' n)"
proof -
  have b: "bit (x AND push_bit 12 (mask 36)) n \<longleftrightarrow> (12 \<le> n \<and> n < 48) \<and> bit x n" for x :: u64 and n
    by (auto simp: bit_and_iff bit_push_bit_iff bit_mask_iff)
  show ?thesis
    unfolding same_page_def mask_literals word_eq_iff_field [OF b b] ..
qed

lemma va_path_eq_iff [simp]: "va_path va = va_path va' \<longleftrightarrow> same_page va va'"
proof -
  have "va_path va = va_path va' \<longleftrightarrow> (\<forall>l < 4. level_index l va = level_index l va')"
    by (auto simp: va_path_def numeral_eq_Suc less_Suc_eq)
  also have "\<dots> \<longleftrightarrow> (\<forall>l < 4. \<forall>k < 9. bit va (12 + l * 9 + k) = bit va' (12 + l * 9 + k))"
    by (simp only: level_index_eq_iff)
  also have "\<dots> \<longleftrightarrow> same_page va va'"
    unfolding same_page_bits
  proof (rule iffI, rule allI, rule impI)
    fix n :: nat assume a: "\<forall>l < 4. \<forall>k < 9. bit va (12 + l * 9 + k) = bit va' (12 + l * 9 + k)" "12 \<le> n \<and> n < 48"
    have eq: "12 + (n - 12) div 9 * 9 + (n - 12) mod 9 = n" using a(2) by presburger
    have "(n - 12) div 9 < 4" "(n - 12) mod 9 < 9" using a(2) by auto
    from a(1) [rule_format, OF this] show "bit va n = bit va' n" unfolding eq .
  qed simp
  finally show ?thesis .
qed

lemma va_path_not_Nil [simp]: "va_path va \<noteq> []"
  by (simp add: va_path_def)

lemma same_page_PGROUNDDOWN [simp]: "same_page (PGROUNDDOWN va) va' \<longleftrightarrow> same_page va va'"
  by (simp add: same_page_bits PGROUNDDOWN_mask bit_and_iff bit_not_iff bit_mask_iff)

lemma same_page_refl [simp]: "same_page va va"
  by (simp add: same_page_def)

lemma va_path_PGROUNDDOWN [simp]: "va_path (PGROUNDDOWN va) = va_path va"
  by simp

lemma leaf_of_same_page: "same_page va va' \<Longrightarrow> leaf_of m root va = leaf_of m root va'"
  using va_path_eq_iff [of va va'] by (simp add: leaf_of_def del: va_path_eq_iff)

lemma path_from_PGROUNDDOWN [simp]:
  "path_from 3 (PGROUNDDOWN va) = path_from 3 va" "level_index 0 (PGROUNDDOWN va) = level_index 0 va"
  using va_path_PGROUNDDOWN [of va] unfolding va_path_def by blast+

lemma page_of_leaf: "page_of m root va = map_option (\<lambda>e. push_bit 12 (pe_address e)) (leaf_of m root va)"
  unfolding page_of_def leaf_of_def
  by (subst follow_entry_at) (auto simp: option.map_comp comp_def decode_address)

lemma leaf_present: "leaf_of m root va = Some e \<Longrightarrow> pe_p e"
  by (auto simp: leaf_of_def entry_at_def Let_def split: option.splits if_splits)

lemma entry_at_va_path:
  "entry_at m root (va_path va) =
     (case follow m root (path_from 3 va) of None \<Rightarrow> None
      | Some t \<Rightarrow> let raw = load64 m (t + 8 * of_nat (level_index 0 va)) in if bit raw 0 then Some raw else None)"
  unfolding entry_at_def va_path_def butlast_snoc last_snoc ..

section \<open>Leaf stores\<close>

lemma store_leaf:
  assumes inv: "vm_inv kend root s ps" and t: "follow (mem s) root (path_from 3 va) = Some t"
    and s': "s' = s\<lparr>mem := store64 (mem s) (t + 8 * of_nat (level_index 0 va)) v\<rparr>"
  shows "vm_inv kend root s' ps"
    and "leaf_of (mem s') root va' =
      (if same_page va va' then (if bit v 0 then Some (decode_page_entry v) else None) else leaf_of (mem s) root va')"
    and "in_tables (mem s') root x = in_tables (mem s) root x"
proof -
  have wf: "wf_tables (mem s) root ps" and k: "kmem_inv kend s ps" using inv by (simp_all add: vm_inv_def)
  have tp: "page_aligned t" "t \<notin> set ps" using wf_tablesD [OF wf t] by simp_all
  have "kmem_inv kend s' ps"
    unfolding s' using k tp by (rule kmem_inv_outside) (simp add: store64_outside_page [OF tp(1)])
  then show "vm_inv kend root s' ps" using wf_store_leaf [OF wf t] by (simp add: vm_inv_def s')
  have "va_path va' = path_from 3 va @ [level_index 0 va] \<longleftrightarrow> same_page va va'"
    using va_path_eq_iff [of va va'] unfolding va_path_def [of va] by auto
  then show "leaf_of (mem s') root va' =
      (if same_page va va' then (if bit v 0 then Some (decode_page_entry v) else None) else leaf_of (mem s) root va')"
    using entry_at_store_leaf [OF wf t, of "level_index 0 va" "va_path va'" v]
    by (simp add: leaf_of_def s' del: va_path_eq_iff)
  have "follow (mem s') root q = follow (mem s) root q" if "good_path q" "length q \<le> 3" for q
    using follow_store_leaf [OF wf t _ _ _ that] by (simp add: s')
  then show "in_tables (mem s') root x = in_tables (mem s) root x" unfolding in_tables_def by metis
qed

lemma store_leaf_frame:
  assumes "vm_inv kend root s ps" "follow (mem s) root (path_from 3 va) = Some t"
    "s' = s\<lparr>mem := store64 (mem s) (t + 8 * of_nat (level_index 0 va)) v\<rparr>" "\<not> in_tables (mem s) root x"
  shows "mem s' x = mem s x"
proof -
  have "page_aligned t" using assms(1,2) wf_tablesD [of "mem s" root ps "path_from 3 va" t] by (simp add: vm_inv_def)
  moreover have "\<not> in_page t x"
    using assms(2,4) unfolding in_tables_def by (metis good_path_from length_path_from order_refl)
  ultimately show ?thesis by (simp add: assms(3) store64_outside_page)
qed

section \<open>Mapping and unmapping one page\<close>

lemma vm_more:
  fixes s s' :: "'a vmstate_scheme"
  assumes "kstate.more s' = kstate.more s"
  shows "cr3 s' = cr3 s" "invlpg_log s' = invlpg_log s"
  using assms by (cases s; cases s'; simp)+

lemma page_of_step:
  "page_of m root va = (case follow m root (path_from 3 va) of None \<Rightarrow> None
     | Some t \<Rightarrow> let e = decode_page_entry (load64 m (t + 8 * of_nat (level_index 0 va)))
                 in if pe_p e then Some (push_bit 12 (pe_address e)) else None)"
  by (simp add: page_of_def va_path_def follow_append decode_address Let_def split: option.split)

lemma walk_post_walk:
  assumes "vm_inv kend root s ps" "walk root va True s = (r, s')"
  shows "walk_post kend root s ps 3 (path_from 3 va) va r s'"
  using walk_loop_alloc [OF assms(1), of "[]" root 3 va r s'] assms(2) by (simp add: walk_def)

lemma address_field_bound: "unat (x AND 0xFFFFFFFFF :: u64) < 2 ^ 36"
  unfolding mask_literals
  by (simp add: take_bit_eq_mask [symmetric] unsigned_take_bit_eq take_bit_nat_less_exp [of 36, simplified])

lemma decode_encode_clean:
  assumes "pe_ign1 e = 0" "pe_ign2 e = 0" "\<not> pe_xd e" "pe_address e = x AND 0xFFFFFFFFF"
  shows "decode_page_entry (encode_page_entry e) = e"
  using assms address_field_bound [of x] by (intro decode_encode) simp_all

lemma decode_mapped_entry: "decode_page_entry (encode_page_entry (mapped_entry pa flags)) = mapped_entry pa flags"
  by (rule decode_encode_clean) (simp_all add: mapped_entry_def)

lemma mapped_entry_bit [simp]: "bit (encode_page_entry (mapped_entry pa flags)) 0"
  by (rule table_entry_value) (simp_all add: mapped_entry_def)

lemma map_post_failed:
  fixes s :: "'a vmstate_scheme"
  assumes "grows kend root s ps s' ps'" "length ps \<le> length ps' + 3"
    "length ps < 3 \<and> page_of (mem s) root va = None \<or> (\<exists>a. page_of (mem s) root va = Some a \<and> a \<noteq> PGROUNDDOWN pa)"
  shows "map_post kend root s ps va pa flags (-1) s' ps'"
  using assms(2,3) growsD(1,2,5,7) [OF assms(1)] vm_more [OF growsD(3) [OF assms(1)]] by (simp add: map_post_def)

lemma map_post_stored:
  fixes s :: "'a vmstate_scheme"
  assumes g: "grows kend root s ps s1 ps'" "length ps \<le> length ps' + 3"
    and t: "follow (mem s1) root (path_from 3 va) = Some t"
    and old: "page_of (mem s) root va \<in> {None, Some (PGROUNDDOWN pa)}"
    and s2: "s2 = s1\<lparr>mem := store64 (mem s1) (t + 8 * of_nat (level_index 0 va))
                          (encode_page_entry (mapped_entry (PGROUNDDOWN pa) flags))\<rparr>"
  shows "map_post kend root s ps va pa flags 0 (invlpg (PGROUNDDOWN va) s2) ps'"
proof -
  note more = vm_more [OF growsD(3) [OF g(1)]] and g' = growsD(1,2,5) [OF g(1)]
  have "cr3 s2 = cr3 s" "invlpg_log s2 = invlpg_log s" using more by (simp_all add: s2)
  moreover have "vm_inv kend root s2 ps'"
    and "leaf_of (mem s2) root va' = (if same_page va va' then Some (mapped_entry (PGROUNDDOWN pa) flags) else leaf_of (mem s) root va')" for va'
    using store_leaf [OF g'(1) t s2] by (simp_all add: decode_mapped_entry g'(3))
  moreover from this(1) have "vm_inv kend root (invlpg (PGROUNDDOWN va) s2) ps'"
    by (simp add: invlpg_def vm_inv_def kmem_inv_def)
  moreover have "mem s2 x = mem s x" if "\<not> in_tables (mem s) root x" "\<not> (\<exists>p \<in> set ps. in_page p x)" for x
    using store_leaf_frame [OF g'(1) t s2, of x] growsD(6,7) [OF g(1), of x] that by auto
  ultimately show ?thesis using g(2) g'(2) old by (simp add: map_post_def) (simp add: invlpg_def)
qed

lemma mapped_entry_update:
  "e\<lparr>pe_p := True, pe_rw := (flags AND PTE_W \<noteq> 0), pe_us := (flags AND PTE_U \<noteq> 0),
     pe_pwt := (flags AND PTE_PWT \<noteq> 0), pe_pcd := (flags AND PTE_PCD \<noteq> 0),
     pe_a := False, pe_d := False, pe_rsvd := False, pe_ign1 := 0,
     pe_address := drop_bit 12 pa AND 0xFFFFFFFFF, pe_ign2 := 0, pe_xd := False\<rparr> = mapped_entry pa flags"
  by (cases e) (simp add: mapped_entry_def)

lemma map_page_post:
  fixes s :: "'a vmstate_scheme"
  assumes inv: "vm_inv kend root s ps" and map: "map_page root va pa flags s = (r, s')"
  shows "\<exists>ps'. map_post kend root s ps va pa flags r s' ps'"
proof -
  obtain pte s1 where w: "walk root (PGROUNDDOWN va) True s = (pte, s1)" by (cases "walk root (PGROUNDDOWN va) True s")
  obtain ps' where g: "grows kend root s ps s1 ps'" "length ps \<le> length ps' + 3"
    and r: "if pte = 0 then length ps < 3 \<and> follow (mem s) root (path_from 3 va) = None
      else \<exists>t. follow (mem s1) root (path_from 3 va) = Some t \<and> pte = t + 8 * of_nat (level_index 0 va)"
    using walk_post_walk [OF inv w] unfolding walk_post_def path_from_PGROUNDDOWN by blast
  have page: "page_of (mem s1) root va = page_of (mem s) root va" by (simp add: page_of_leaf growsD(5) [OF g(1)])
  show ?thesis
  proof (cases "pte = 0")
    case True
    with map w have "r = -1" "s' = s1" by (simp_all add: map_page_def Let_def)
    moreover have "map_post kend root s ps va pa flags (-1) s1 ps'"
      using r True by (intro map_post_failed [OF g]) (simp add: page_of_step)
    ultimately show ?thesis by blast
  next
    case False
    then obtain t where t: "follow (mem s1) root (path_from 3 va) = Some t" "pte = t + 8 * of_nat (level_index 0 va)"
      using r by auto
    define e where "e = decode_page_entry (load64 (mem s1) pte)"
    have pg: "page_of (mem s) root va = (if pe_p e then Some (push_bit 12 (pe_address e)) else None)"
      unfolding page [symmetric] unfolding page_of_step t(1) by (simp add: e_def t(2))
    show ?thesis
    proof (cases "pe_p e \<and> push_bit 12 (pe_address e) \<noteq> PGROUNDDOWN pa")
      case True
      with map w False have "r = -1" "s' = s1" by (simp_all add: map_page_def Let_def e_def)
      moreover have "map_post kend root s ps va pa flags (-1) s1 ps'"
        using pg True by (intro map_post_failed [OF g]) simp
      ultimately show ?thesis by blast
    next
      case no: False
      define s2 where "s2 = s1\<lparr>mem := store64 (mem s1) pte (encode_page_entry (mapped_entry (PGROUNDDOWN pa) flags))\<rparr>"
      have "r = 0" and s': "s' = invlpg (PGROUNDDOWN va) s2"
        using map w False no unfolding map_page_def mapped_entry_update by (auto simp: Let_def e_def s2_def)
      moreover have "map_post kend root s ps va pa flags 0 (invlpg (PGROUNDDOWN va) s2) ps'"
        using no pg by (intro map_post_stored [OF g t(1) _ s2_def [unfolded t(2)]]) auto
      ultimately show ?thesis by blast
    qed
  qed
qed


lemma unmap_page_spec:
  fixes s :: "'a vmstate_scheme"
  assumes inv: "vm_inv kend root s ps"
  shows "vm_inv kend root (unmap_page root va s) ps" "cr3 (unmap_page root va s) = cr3 s"
    and "leaf_of (mem (unmap_page root va s)) root va' = (if same_page va va' then None else leaf_of (mem s) root va')"
    and "invlpg_log (unmap_page root va s) =
       (if leaf_of (mem s) root va = None then [] else [PGROUNDDOWN va]) @ invlpg_log s"
proof -
  let ?u = "unmap_page root va s"
  have w: "walk root (PGROUNDDOWN va) False s =
      (case follow (mem s) root (path_from 3 va) of None \<Rightarrow> 0 | Some t \<Rightarrow> t + 8 * of_nat (level_index 0 va), s)"
    unfolding walk_def walk_loop_follow path_from_PGROUNDDOWN ..
  have "vm_inv kend root ?u ps \<and> cr3 ?u = cr3 s \<and>
      (\<forall>va'. leaf_of (mem ?u) root va' = (if same_page va va' then None else leaf_of (mem s) root va')) \<and>
      invlpg_log ?u = (if leaf_of (mem s) root va = None then [] else [PGROUNDDOWN va]) @ invlpg_log s"
  proof (cases "leaf_of (mem s) root va")
    case None
    then have "?u = s"
      using w by (auto simp: unmap_page_def leaf_of_def entry_at_va_path Let_def split: option.splits if_splits)
    moreover have "leaf_of (mem s) root va' = None" if "same_page va va'" for va'
      using leaf_of_same_page [OF that, of "mem s" root] None by simp
    ultimately show ?thesis using inv None by simp
  next
    case (Some e)
    then obtain t where t: "follow (mem s) root (path_from 3 va) = Some t"
      "bit (load64 (mem s) (t + 8 * of_nat (level_index 0 va))) 0"
      by (auto simp: leaf_of_def entry_at_va_path Let_def split: option.splits if_splits)
    define s1 where "s1 = s\<lparr>mem := store64 (mem s) (t + 8 * of_nat (level_index 0 va)) 0\<rparr>"
    have "t + 8 * of_nat (level_index 0 va) \<noteq> 0"
      using inv t(1) wf_tablesD [of "mem s" root ps "path_from 3 va" t] slot_eq_iff [of t 0 "level_index 0 va" 0]
      by (auto simp: vm_inv_def page_aligned_def)
    then have "?u = invlpg (PGROUNDDOWN va) s1"
      using w t by (simp add: unmap_page_def s1_def)
    moreover have "vm_inv kend root (invlpg (PGROUNDDOWN va) s1) ps"
      using store_leaf(1) [OF inv t(1) s1_def] by (simp add: invlpg_def vm_inv_def kmem_inv_def)
    ultimately show ?thesis
      using store_leaf(2) [OF inv t(1) s1_def] Some by (simp add: invlpg_def) (simp add: s1_def)
  qed
  then show "vm_inv kend root ?u ps" "cr3 ?u = cr3 s"
    "leaf_of (mem ?u) root va' = (if same_page va va' then None else leaf_of (mem s) root va')"
    "invlpg_log ?u = (if leaf_of (mem s) root va = None then [] else [PGROUNDDOWN va]) @ invlpg_log s"
    by blast+
qed

lemma va_to_pa_page:
  assumes "vm_inv kend root s ps"
  shows "va_to_pa root va s = (case page_of (mem s) root va of None \<Rightarrow> 0 | Some page \<Rightarrow> page OR (va AND 0xFFF))"
proof -
  have "t + 8 * of_nat (level_index 0 va) \<noteq> 0" if "follow (mem s) root (path_from 3 va) = Some t" for t
    using assms that wf_tablesD [of "mem s" root ps "path_from 3 va" t] slot_eq_iff [of t 0 "level_index 0 va" 0]
    by (auto simp: vm_inv_def page_aligned_def)
  then show ?thesis
    by (auto simp: va_to_pa_def walk_def walk_loop_follow page_of_step Let_def split: option.split)
qed

section \<open>Ranges of pages\<close>

lemma nth_page_0 [simp]: "nth_page a 0 = a"
  by (simp add: nth_page_def)

lemma nth_page_Suc: "nth_page a k + 4096 = nth_page a (Suc k)"
  by (simp add: nth_page_def algebra_simps)

lemma nth_page_shift: "nth_page (a + 4096) k = nth_page a (Suc k)"
  by (simp add: nth_page_def algebra_simps)

lemma unat_nth_page: "unat a + 4096 * k < 2 ^ 64 \<Longrightarrow> unat (nth_page a k) = unat a + 4096 * k"
  using unat_add_small [of a "4096 * k"] by (simp add: nth_page_def)

lemma nth_page_less: "\<lbrakk>unat a + 4096 * n < 2 ^ 64; k < n\<rbrakk> \<Longrightarrow> nth_page a k < nth_page a n"
  by (simp add: word_less_nat_alt unat_nth_page)

lemma page_aligned_nth [simp]:
  assumes "page_aligned a"
  shows "page_aligned (nth_page a k)"
proof -
  have "unat (nth_page a k) = (unat a + 4096 * k) mod 2 ^ 64"
    by (simp add: nth_page_def unat_word_ariths unat_of_nat mod_simps)
  moreover have "(unat a + 4096 * k) mod 2 ^ 64 mod 4096 = (unat a + 4096 * k) mod 4096"
    by (rule mod_mod_cancel) simp
  moreover have "4096 dvd unat a + 4096 * k"
    using assms by (auto simp: page_aligned_def mod_eq_0_iff_dvd intro: dvd_add)
  ultimately show ?thesis unfolding page_aligned_def by (simp only: dvd_imp_mod_0)
qed

lemma same_page_nth:
  assumes "page_aligned a" "unat a + 4096 * n \<le> 2 ^ 48" "j < n" "k < n"
  shows "same_page (nth_page a j) (nth_page a k) \<longleftrightarrow> j = k"
proof -
  have u: "unat (nth_page a i) = unat a + 4096 * i" "unat (nth_page a i) < 2 ^ 48" if "i < n" for i
    using unat_nth_page [of a i] assms(2) that by simp_all
  have "same_page (nth_page a j) (nth_page a k) \<longleftrightarrow> nth_page a j = nth_page a k"
    unfolding same_page_def using frame_address [OF page_aligned_nth] assms u(2) by simp
  then show ?thesis using u(1) assms(3,4) by (auto simp: word_unat_eq_iff)
qed

lemma in_pages_0 [simp]: "\<not> in_pages a 0 va"
  by (simp add: in_pages_def)

lemma in_pages_Suc: "in_pages a (Suc n) va \<longleftrightarrow> same_page a va \<or> in_pages (a + 4096) n va"
  by (simp add: in_pages_def Ex_less_Suc2 nth_page_shift)

lemma unmap_loop_spec:
  fixes s :: "'a vmstate_scheme"
  assumes "vm_inv kend root s ps" "unat a + 4096 * n < 2 ^ 64"
  shows "\<exists>s'. unmap_loop root a (nth_page a n) s = Some s' \<and> vm_inv kend root s' ps \<and> cr3 s' = cr3 s \<and>
     (\<forall>va. leaf_of (mem s') root va = (if in_pages a n va then None else leaf_of (mem s) root va))"
  using assms
proof (induction n arbitrary: a s)
  case 0
  then show ?case by (subst unmap_loop.simps) simp
next
  case (Suc n)
  let ?u = "unmap_page root a s"
  have up: "unat (a + 4096) = unat a + 4096" using unat_nth_page [of a 1] Suc.prems(2) by (simp add: nth_page_def)
  have "unmap_loop root a (nth_page a (Suc n)) s = unmap_loop root (a + 4096) (nth_page (a + 4096) n) ?u"
    using nth_page_less [of a "Suc n" 0] Suc.prems(2)
    by (subst unmap_loop.simps) (simp add: nth_page_shift)
  then show ?case
    using Suc.IH [of ?u "a + 4096"] unmap_page_spec [OF Suc.prems(1), of a] Suc.prems(2) up
    by (auto simp: in_pages_Suc)
qed

lemma same_page_sym: "same_page a b \<Longrightarrow> same_page b a"
  by (simp add: same_page_def)

lemma same_page_trans: "same_page a b \<Longrightarrow> same_page b c \<Longrightarrow> same_page a c"
  by (simp add: same_page_def)

lemma page_of_same_page: "same_page va va' \<Longrightarrow> page_of m root va = page_of m root va'"
  by (simp add: page_of_leaf leaf_of_same_page)

lemma in_pages_nth: "\<lbrakk>same_page (nth_page a k) va; k < n\<rbrakk> \<Longrightarrow> in_pages a n va"
  by (auto simp: in_pages_def)

lemma map_post_0:
  assumes "map_post kend root s ps va pa flags 0 s1 ps1" "page_aligned pa"
  shows "suffix ps1 ps" "length ps \<le> length ps1 + 3" "cr3 s1 = cr3 s"
    and "leaf_of (mem s1) root va' = (if same_page va va' then Some (mapped_entry pa flags) else leaf_of (mem s) root va')"
  using assms by (simp_all add: map_post_def)

lemma same_page_later:
  assumes "page_aligned start" "unat start + 4096 * (j + Suc n) \<le> 2 ^ 48" "k < n"
    "same_page (nth_page start (Suc j + k)) va"
  shows "\<not> same_page (nth_page start j) va"
proof
  assume "same_page (nth_page start j) va"
  from same_page_trans [OF this same_page_sym [OF assms(4)]] show False
    using same_page_nth [OF assms(1,2), of j "Suc j + k"] assms(3) by simp
qed

lemma map_pages_post_chain:
  assumes "map_pages_post kend root start j s1 ps1 pa n flags r s'" "suffix ps1 ps" "cr3 s1 = cr3 s"
  shows "(\<exists>ps'. vm_inv kend root s' ps' \<and> suffix ps' ps) \<and> cr3 s' = cr3 s"
proof -
  obtain ps' where "vm_inv kend root s' ps'" "suffix ps' ps1" "cr3 s' = cr3 s1"
    using assms(1) unfolding map_pages_post_def by blast
  then show ?thesis using assms(2,3) suffix_order.trans by auto
qed

lemma map_pages_post_mapped:
  fixes s :: "'a vmstate_scheme"
  assumes m: "map_post kend root s ps (nth_page start j) pa flags 0 s1 ps1" "page_aligned pa"
    and al: "page_aligned start" "unat start + 4096 * (j + Suc n) \<le> 2 ^ 48"
    and rest: "map_pages_post kend root start (Suc j) s1 ps1 (pa + 4096) n flags 0 s'"
  shows "map_pages_post kend root start j s ps pa (Suc n) flags 0 s'"
proof -
  let ?a = "nth_page start j"
  note s1 = map_post_0 [OF m]
  have new: "leaf_of (mem s') root va = Some (mapped_entry (nth_page pa (Suc k)) flags)"
    if "same_page (nth_page start (Suc j + k)) va" "k < n" for k va
    using rest that by (auto simp: map_pages_post_def nth_page_shift)
  have old: "leaf_of (mem s') root va = leaf_of (mem s1) root va" if "\<not> in_pages (nth_page start (Suc j)) n va" for va
    using rest that by (auto simp: map_pages_post_def)
  have first: "leaf_of (mem s') root va = Some (mapped_entry pa flags)" if "same_page ?a va" for va
  proof -
    have "\<not> in_pages (nth_page start (Suc j)) n va"
      using same_page_later [OF al] that by (auto simp: in_pages_def nth_page_def algebra_simps)
    then show ?thesis using old s1(4) that by simp
  qed
  have "leaf_of (mem s') root va = Some (mapped_entry (nth_page pa k) flags)"
    if "k < Suc n" "same_page (nth_page start (j + k)) va" for k va
  proof (cases k)
    case (Suc i)
    then show ?thesis using that new [of i va] by simp
  qed (use that first in simp)
  moreover have "leaf_of (mem s') root va = leaf_of (mem s) root va" if "\<not> in_pages ?a (Suc n) va" for va
    using that old [of va] s1(4) by (simp add: in_pages_Suc nth_page_Suc)
  moreover have "(\<exists>ps'. vm_inv kend root s' ps' \<and> suffix ps' ps) \<and> cr3 s' = cr3 s"
    by (rule map_pages_post_chain [OF rest(1) s1(1,3)])
  ultimately show ?thesis unfolding map_pages_post_def by simp
qed

lemma map_pages_post_rolled_back:
  fixes s :: "'a vmstate_scheme"
  assumes m: "map_post kend root s ps (nth_page start j) pa flags 0 s1 ps1" "page_aligned pa"
    and al: "page_aligned start" "unat start + 4096 * (j + Suc n) \<le> 2 ^ 48"
    and rest: "map_pages_post kend root start (Suc j) s1 ps1 (pa + 4096) n flags r s'" "r \<noteq> 0"
  shows "map_pages_post kend root start j s ps pa (Suc n) flags r s'"
proof -
  note s1 = map_post_0 [OF m]
  obtain f where f: "f < n" "\<And>va. leaf_of (mem s') root va = (if in_pages start (Suc j + f) va then None else leaf_of (mem s1) root va)"
    and r: "r = -1" "(\<exists>k < n. \<exists>b. page_of (mem s1) root (nth_page start (Suc j + k)) = Some b \<and> b \<noteq> nth_page (pa + 4096) k) \<or>
          length ps1 < 3 * n"
    using rest(1) unfolding map_pages_post_def if_not_P [OF rest(2)] by blast
  have "leaf_of (mem s') root va = (if in_pages start (j + Suc f) va then None else leaf_of (mem s) root va)" for va
    using f(2) [of va] s1(4) [of va] in_pages_nth [of start j va "j + Suc f"] by simp
  then have "\<exists>f < Suc n. \<forall>va. leaf_of (mem s') root va = (if in_pages start (j + f) va then None else leaf_of (mem s) root va)"
    using f(1) by blast
  moreover have "page_of (mem s1) root (nth_page start (Suc j + k)) = page_of (mem s) root (nth_page start (Suc j + k))" if "k < n" for k
    using s1(4) [of "nth_page start (Suc j + k)"] same_page_later [OF al that same_page_refl] by (simp add: page_of_leaf)
  then have "(\<exists>k < Suc n. \<exists>b. page_of (mem s) root (nth_page start (j + k)) = Some b \<and> b \<noteq> nth_page pa k) \<or> length ps < 3 * Suc n"
    using r(2) s1(2) by (auto simp: nth_page_shift Ex_less_Suc2)
  moreover have "(\<exists>ps'. vm_inv kend root s' ps' \<and> suffix ps' ps) \<and> cr3 s' = cr3 s"
    by (rule map_pages_post_chain [OF rest(1) s1(1,3)])
  ultimately show ?thesis unfolding map_pages_post_def if_not_P [OF rest(2)] using r(1) by blast
qed

lemma map_pages_post_failed:
  fixes s :: "'a vmstate_scheme"
  assumes m: "map_post kend root s ps (nth_page start j) pa flags r s1 ps1" "page_aligned pa" "r \<noteq> 0"
    and al: "page_aligned start" "unat start + 4096 * (j + Suc n) \<le> 2 ^ 48"
  shows "\<exists>s'. unmap_loop root start (nth_page start j) s1 = Some s' \<and>
     map_pages_post kend root start j s ps pa (Suc n) flags (-1) s'"
proof -
  have s1: "vm_inv kend root s1 ps1" "suffix ps1 ps" "cr3 s1 = cr3 s" "leaf_of (mem s1) root va = leaf_of (mem s) root va"
    and why: "length ps < 3 \<and> page_of (mem s) root (nth_page start j) = None \<or>
            (\<exists>a. page_of (mem s) root (nth_page start j) = Some a \<and> a \<noteq> pa)" for va
    using m by (simp_all add: map_post_def)
  obtain s' where s': "unmap_loop root start (nth_page start j) s1 = Some s'" "vm_inv kend root s' ps1" "cr3 s' = cr3 s1"
    "\<And>va. leaf_of (mem s') root va = (if in_pages start j va then None else leaf_of (mem s1) root va)"
    using unmap_loop_spec [OF s1(1), of start j] al(2) by auto
  have "\<exists>f < Suc n. \<forall>va. leaf_of (mem s') root va = (if in_pages start (j + f) va then None else leaf_of (mem s) root va)"
    using s'(4) s1(4) by (intro exI [of _ 0]) simp
  moreover have "(\<exists>k < Suc n. \<exists>b. page_of (mem s) root (nth_page start (j + k)) = Some b \<and> b \<noteq> nth_page pa k) \<or> length ps < 3 * Suc n"
    using why by (auto simp: Ex_less_Suc2)
  ultimately have "map_pages_post kend root start j s ps pa (Suc n) flags (-1) s'"
    unfolding map_pages_post_def using s'(2,3) s1(2,3) by auto
  then show ?thesis using s'(1) by blast
qed

lemma map_pages_loop_post:
  fixes s :: "'a vmstate_scheme"
  assumes "vm_inv kend root s ps" "page_aligned start" "page_aligned pa" "unat start + 4096 * (j + n) \<le> 2 ^ 48"
  shows "\<exists>r s'. map_pages_loop root start (nth_page start j) (nth_page start (j + n)) pa flags s = Some (r, s') \<and>
     map_pages_post kend root start j s ps pa n flags r s'"
  using assms
proof (induction n arbitrary: j s ps pa)
  case 0
  then have "map_pages_post kend root start j s ps pa 0 flags 0 s" by (auto simp: map_pages_post_def)
  then show ?case by (subst map_pages_loop.simps) simp
next
  case (Suc n)
  let ?a = "nth_page start j" and ?stop = "nth_page start (j + Suc n)"
  obtain r1 s1 where m: "map_page root ?a pa flags s = (r1, s1)" by (cases "map_page root ?a pa flags s")
  obtain ps1 where p: "map_post kend root s ps ?a pa flags r1 s1 ps1"
    using map_page_post [OF Suc.prems(1) m] by blast
  have less: "?a < ?stop" using nth_page_less [of start "j + Suc n" j] Suc.prems(4) by simp
  show ?case
  proof (cases "r1 = 0")
    case False
    obtain s' where "unmap_loop root start ?a s1 = Some s'" "map_pages_post kend root start j s ps pa (Suc n) flags (-1) s'"
      using map_pages_post_failed [OF p Suc.prems(3) False Suc.prems(2,4)] by blast
    then show ?thesis using m less False by (subst map_pages_loop.simps) auto
  next
    case True
    have "page_aligned (pa + 4096)" using page_aligned_nth [OF Suc.prems(3), of 1] by (simp add: nth_page_def)
    moreover have "vm_inv kend root s1 ps1" using p by (simp add: map_post_def)
    ultimately obtain r s' where
      loop: "map_pages_loop root start (nth_page start (Suc j)) (nth_page start (Suc j + n)) (pa + 4096) flags s1 = Some (r, s')"
      and post: "map_pages_post kend root start (Suc j) s1 ps1 (pa + 4096) n flags r s'"
      using Suc.IH [of s1 ps1 "pa + 4096" "Suc j"] Suc.prems(2,4) by auto
    have "map_pages_post kend root start j s ps pa (Suc n) flags r s'"
      using map_pages_post_mapped [OF p [unfolded True] Suc.prems(3,2,4)] post
        map_pages_post_rolled_back [OF p [unfolded True] Suc.prems(3,2,4) post] by blast
    then show ?thesis using m less True loop by (subst map_pages_loop.simps) (simp add: nth_page_Suc)
  qed
qed

section \<open>Byte ranges\<close>

lemma range_geometry:
  assumes "unat va + unat sz + 4095 < 2 ^ 48"
  shows "PGROUNDUP (va + sz) = nth_page (PGROUNDDOWN va) (page_count va sz)"
    and "unat (PGROUNDDOWN va) + 4096 * page_count va sz \<le> 2 ^ 48"
proof -
  have sum: "unat (va + sz) = unat va + unat sz" using unat_add_small [of va "unat sz"] assms by simp
  have le: "unat va div 4096 \<le> (unat va + unat sz + 4095) div 4096" by (rule div_le_mono) simp
  have total: "unat (PGROUNDDOWN va) + 4096 * page_count va sz = 4096 * ((unat va + unat sz + 4095) div 4096)"
    unfolding unat_PGROUNDDOWN page_count_def using le by (simp add: right_diff_distrib')
  also have "\<dots> \<le> 2 ^ 48" using assms by simp
  finally show *: "unat (PGROUNDDOWN va) + 4096 * page_count va sz \<le> 2 ^ 48" .
  have "unat (PGROUNDUP (va + sz)) = 4096 * ((unat va + unat sz + 4095) div 4096)"
    using unat_PGROUNDUP [of "va + sz"] assms sum by simp
  moreover have "unat (nth_page (PGROUNDDOWN va) (page_count va sz)) = unat (PGROUNDDOWN va) + 4096 * page_count va sz"
    using * by (intro unat_nth_page) simp
  ultimately show "PGROUNDUP (va + sz) = nth_page (PGROUNDDOWN va) (page_count va sz)"
    using total by (simp add: word_unat_eq_iff)
qed

lemma page_offset_split: "PGROUNDDOWN x + (x AND 0xFFF) = x"
  unfolding PGROUNDDOWN_mask mask_literals
  by (subst disjunctive_add) (auto simp: bit_simps intro!: bit_word_eqI)

lemma page_or_offset:
  assumes "page_aligned p"
  shows "p OR (x AND 0xFFF) = p + (x AND 0xFFF)"
proof -
  have p: "p = p AND NOT (mask 12)" using assms PGROUNDDOWN_id PGROUNDDOWN_mask by metis
  show ?thesis
    unfolding mask_literals by (subst p, subst (2) p, subst disjunctive_add) (auto simp: bit_simps)
qed

lemma same_page_low:
  assumes "page_aligned a" "unat a < 2 ^ 48" "unat x < 2 ^ 48"
  shows "same_page a x \<longleftrightarrow> a = PGROUNDDOWN x"
proof -
  have "unat (PGROUNDDOWN x) < 2 ^ 48" using assms(3) by (simp add: unat_PGROUNDDOWN)
  then have "PGROUNDDOWN x AND 0xFFFFFFFFF000 = PGROUNDDOWN x" by (intro frame_address) simp_all
  moreover have "a AND 0xFFFFFFFFF000 = a" using assms by (intro frame_address)
  moreover have "same_page a x \<longleftrightarrow> same_page a (PGROUNDDOWN x)"
    using same_page_PGROUNDDOWN [of x a] same_page_sym by blast
  ultimately show ?thesis by (simp add: same_page_def)
qed

lemma ex_shift: "(\<exists>k < E - A. A + k = B) \<longleftrightarrow> A \<le> B \<and> B < E" for A B E :: nat
  by presburger

lemma in_pages_range:
  assumes "unat va + unat sz + 4095 < 2 ^ 48" "unat x < 2 ^ 48"
  shows "in_pages (PGROUNDDOWN va) (page_count va sz) x \<longleftrightarrow> PGROUNDDOWN va \<le> x \<and> x < PGROUNDUP (va + sz)"
proof -
  let ?E = "(unat va + unat sz + 4095) div 4096"
  have sum: "unat (va + sz) = unat va + unat sz" using unat_add_small [of va "unat sz"] assms by simp
  have up: "unat (PGROUNDUP (va + sz)) = 4096 * ?E" using unat_PGROUNDUP [of "va + sz"] assms sum by simp
  have nth: "unat (nth_page (PGROUNDDOWN va) k) = 4096 * (unat va div 4096 + k)" if "k < page_count va sz" for k
    using unat_nth_page [of "PGROUNDDOWN va" k] range_geometry(2) [OF assms(1)] that
    by (simp add: unat_PGROUNDDOWN)
  have "same_page (nth_page (PGROUNDDOWN va) k) x \<longleftrightarrow> unat va div 4096 + k = unat x div 4096" if "k < page_count va sz" for k
    using same_page_low [of "nth_page (PGROUNDDOWN va) k" x] nth [OF that] range_geometry(2) [OF assms(1)] that assms(2)
    by (simp add: word_unat_eq_iff unat_PGROUNDDOWN) arith
  then have "in_pages (PGROUNDDOWN va) (page_count va sz) x \<longleftrightarrow> (\<exists>k < page_count va sz. unat va div 4096 + k = unat x div 4096)"
    unfolding in_pages_def by blast
  also have "\<dots> \<longleftrightarrow> unat va div 4096 \<le> unat x div 4096 \<and> unat x div 4096 < ?E"
    unfolding page_count_def by (rule ex_shift)
  also have "\<dots> \<longleftrightarrow> PGROUNDDOWN va \<le> x \<and> x < PGROUNDUP (va + sz)"
    unfolding word_le_nat_alt word_less_nat_alt up unat_PGROUNDDOWN
    by (simp add: less_eq_div_iff_mult_less_eq div_less_iff_less_mult mult.commute)
  finally show ?thesis .
qed

lemma mapped_entry_page:
  "push_bit 12 (pe_address (mapped_entry pa flags)) = pa AND 0xFFFFFFFFF000"
  using decode_address [of "encode_page_entry (mapped_entry pa flags)"] table_entry_value(2) [of "mapped_entry pa flags" pa]
  by (simp add: decode_mapped_entry) (simp add: mapped_entry_def)

lemma translate_leaf:
  assumes "leaf_of m root x = Some (mapped_entry p flags)" "page_aligned p" "unat p < 2 ^ 48"
  shows "translate m root x = Some (p + (x AND 0xFFF))"
  using assms by (simp add: translate_def page_of_leaf mapped_entry_page frame_address page_or_offset)

lemma translate_cong: "leaf_of m root x = leaf_of m' root x \<Longrightarrow> translate m root x = translate m' root x"
  by (simp add: translate_def page_of_leaf)

lemma in_pages_index:
  assumes "unat va + unat sz + 4095 < 2 ^ 48" "va \<le> x" "unat x < unat va + unat sz"
  obtains k where "k < page_count va sz" "PGROUNDDOWN x = nth_page (PGROUNDDOWN va) k"
    "same_page (nth_page (PGROUNDDOWN va) k) x"
proof -
  have x: "unat x < 2 ^ 48" using assms by simp
  have sum: "unat (va + sz) = unat va + unat sz" using unat_add_small [of va "unat sz"] assms by simp
  have "unat x < unat (PGROUNDUP (va + sz))" using unat_PGROUNDUP [of "va + sz"] assms sum by simp
  moreover have "unat (PGROUNDDOWN va) \<le> unat x" using assms(2) by (simp add: unat_PGROUNDDOWN word_le_nat_alt)
  ultimately have "in_pages (PGROUNDDOWN va) (page_count va sz) x"
    using in_pages_range [OF assms(1) x] by (simp add: word_le_nat_alt word_less_nat_alt)
  then obtain k where k: "k < page_count va sz" "same_page (nth_page (PGROUNDDOWN va) k) x"
    by (auto simp: in_pages_def)
  moreover have "unat (nth_page (PGROUNDDOWN va) k) < 2 ^ 48"
    using unat_nth_page [of "PGROUNDDOWN va" k] range_geometry(2) [OF assms(1)] k(1) by simp
  ultimately show thesis using that same_page_low [of "nth_page (PGROUNDDOWN va) k" x] x by simp
qed

section \<open>Identity mappings\<close>

text \<open>
  \<open>kvminit\<close>, \<open>map_low_memory\<close> and \<open>map_apic_region\<close> map each page of a range to itself; they
  differ in the entry they write. The locale says what such an entry is, and holds the
  proofs about the loops.
\<close>

locale identity_entry =
  fixes mk :: "u64 \<Rightarrow> page_entry"
  assumes mk_page: "same_page a b \<Longrightarrow> mk a = mk b"
    and mk_roundtrip: "decode_page_entry (encode_page_entry (mk a)) = mk a"
    and mk_present: "bit (encode_page_entry (mk a)) 0"
    and mk_address: "push_bit 12 (pe_address (mk a)) = a AND 0xFFFFFFFFF000"
begin

lemma walk_store_identity:
  fixes s :: "'a vmstate_scheme"
  assumes w: "walk_post kend root s ps n (path_from 3 a) a r s1" and r: "r \<noteq> 0"
    and s2: "s2 = s1\<lparr>mem := store64 (mem s1) r (encode_page_entry (mk a))\<rparr>"
  shows "\<exists>ps'. vm_inv kend root s2 ps' \<and> suffix ps' ps \<and> length ps \<le> length ps' + n \<and> cr3 s2 = cr3 s \<and> invlpg_log s2 = invlpg_log s \<and>
     (\<forall>va. leaf_of (mem s2) root va = (if same_page a va then Some (mk va) else leaf_of (mem s) root va)) \<and>
     (\<forall>x. in_tables (mem s2) root x \<longrightarrow> in_tables (mem s) root x \<or> (\<exists>p \<in> set ps. in_page p x))"
proof -
  obtain ps' t where g: "grows kend root s ps s1 ps'" "length ps \<le> length ps' + n"
    and t: "follow (mem s1) root (path_from 3 a) = Some t" "r = t + 8 * of_nat (level_index 0 a)"
    using w r by (auto simp: walk_post_def)
  note more = vm_more [OF growsD(3) [OF g(1)]] and g' = growsD(1,2,5,6) [OF g(1)]
  note st = store_leaf [OF g'(1) t(1) s2 [unfolded t(2)]]
  have "leaf_of (mem s2) root va = (if same_page a va then Some (mk va) else leaf_of (mem s) root va)" for va
    using st(2) [of va] g'(3) by (simp add: mk_present mk_roundtrip mk_page)
  moreover have "cr3 s2 = cr3 s" "invlpg_log s2 = invlpg_log s" using more by (simp_all add: s2)
  ultimately show ?thesis using st(1,3) g(2) g'(2,4) by blast
qed

lemma walk_enough:
  assumes "vm_inv kend root s ps" "walk root a True s = (r, s1)" "3 \<le> length ps"
  shows "r \<noteq> 0"
  using walk_post_walk [OF assms(1,2)] assms(3) by (auto simp: walk_post_def split: if_splits)

lemma region_loop_identity:
  fixes s :: "'a vmstate_scheme"
  assumes "vm_inv kend root s ps" "unat a + 4096 * n < 2 ^ 48" "3 * n \<le> length ps"
    "unat a + 4096 * n < unat stop + 4096" "unat stop \<le> unat a + 4096 * n"
  shows "\<exists>s' ps'. region_loop mk root a stop s = Some s' \<and> vm_inv kend root s' ps' \<and>
     cr3 s' = cr3 s \<and> invlpg_log s' = invlpg_log s \<and> length ps \<le> length ps' + 3 * n \<and>
     (\<forall>va. leaf_of (mem s') root va = (if in_pages a n va then Some (mk va) else leaf_of (mem s) root va))"
  using assms
proof (induction n arbitrary: a s ps)
  case 0
  then show ?case by (subst region_loop.simps) (auto simp: word_less_nat_alt)
next
  case (Suc n)
  obtain r s1 where w: "walk root a True s = (r, s1)" by (cases "walk root a True s")
  have r: "r \<noteq> 0" using walk_enough [OF Suc.prems(1) w] Suc.prems(3) by simp
  define s2 where "s2 = s1\<lparr>mem := store64 (mem s1) r (encode_page_entry (mk a))\<rparr>"
  obtain ps' where s2: "vm_inv kend root s2 ps'" "length ps \<le> length ps' + 3" "cr3 s2 = cr3 s" "invlpg_log s2 = invlpg_log s"
    "\<And>va. leaf_of (mem s2) root va = (if same_page a va then Some (mk va) else leaf_of (mem s) root va)"
    using walk_store_identity [OF walk_post_walk [OF Suc.prems(1) w] r s2_def] by blast
  have up: "unat (a + 4096) = unat a + 4096" using unat_nth_page [of a 1] Suc.prems(2) by (simp add: nth_page_def)
  have "a < stop" using Suc.prems(4) by (simp add: word_less_nat_alt)
  then have "region_loop mk root a stop s = region_loop mk root (a + 4096) stop s2"
    using w r by (subst region_loop.simps) (simp add: s2_def)
  moreover obtain s' ps'' where "region_loop mk root (a + 4096) stop s2 = Some s'" "vm_inv kend root s' ps''"
     "cr3 s' = cr3 s2" "invlpg_log s' = invlpg_log s2" "length ps' \<le> length ps'' + 3 * n"
     "\<And>va. leaf_of (mem s') root va = (if in_pages (a + 4096) n va then Some (mk va) else leaf_of (mem s2) root va)"
    using Suc.IH [OF s2(1), of "a + 4096"] Suc.prems(2-5) up s2(2) by auto
  ultimately show ?case using s2 by (auto simp: in_pages_Suc)
qed

end

lemma same_page_field: "same_page a b \<Longrightarrow> drop_bit 12 a AND 0xFFFFFFFFF = drop_bit 12 b AND 0xFFFFFFFFF"
  unfolding mask_literals
  by (rule bit_word_eqI) (auto simp: same_page_bits bit_and_iff bit_mask_iff bit_drop_bit_eq)

lemma address_field: "push_bit 12 (drop_bit 12 addr AND 0xFFFFFFFFF) = (addr AND 0xFFFFFFFFF000 :: u64)"
  unfolding mask_literals by (rule bit_word_eqI) (auto simp: bit_simps)

interpretation low: identity_entry low_entry
proof (unfold_locales, goal_cases)
  case (1 a b) then show ?case by (simp add: low_entry_def same_page_field)
next
  case (2 a) show ?case by (rule decode_encode_clean) (simp_all add: low_entry_def)
next
  case (3 a) show ?case by (rule low_entry_value)
next
  case (4 a) show ?case by (simp only: low_entry_def page_entry.select_convs address_field)
qed

interpretation apic: identity_entry apic_entry
proof (unfold_locales, goal_cases)
  case (1 a b) then show ?case by (simp add: apic_entry_def same_page_field)
next
  case (2 a) show ?case by (rule decode_encode_clean) (simp_all add: apic_entry_def)
next
  case (3 a) show ?case by (rule apic_entry_value)
next
  case (4 a) show ?case by (simp only: apic_entry_def page_entry.select_convs address_field)
qed

section \<open>Reading off the results\<close>

lemma leaf_None_iff: "leaf_of m root va = None \<longleftrightarrow> page_of m root va = None"
  by (simp add: page_of_leaf)

lemma map_pages_run:
  fixes s :: "'a vmstate_scheme"
  assumes "vm_inv kend root s ps" "unat va + unat sz + 4095 < 2 ^ 48"
  shows "\<exists>r s'. map_pages root va pa sz flags s = Some (r, s') \<and>
     map_pages_post kend root (PGROUNDDOWN va) 0 s ps (PGROUNDDOWN pa) (page_count va sz) flags r s'"
  using map_pages_loop_post [OF assms(1) PGROUNDDOWN_aligned PGROUNDDOWN_aligned, of va 0 "page_count va sz" pa flags]
    range_geometry [OF assms(2)]
  by (simp add: map_pages_def Let_def)

lemma map_pages_0:
  fixes s :: "'a vmstate_scheme"
  assumes post: "map_pages_post kend root (PGROUNDDOWN va) 0 s ps (PGROUNDDOWN pa) (page_count va sz) flags 0 s'"
    and bounds: "unat va + unat sz + 4095 < 2 ^ 48"
  shows "\<lbrakk>va \<le> x; unat x < unat va + unat sz\<rbrakk> \<Longrightarrow>
      leaf_of (mem s') root x = Some (mapped_entry (PGROUNDDOWN pa + (PGROUNDDOWN x - PGROUNDDOWN va)) flags)"
    and "\<lbrakk>unat x < 2 ^ 48; x < PGROUNDDOWN va \<or> PGROUNDUP (va + sz) \<le> x\<rbrakk> \<Longrightarrow>
      leaf_of (mem s') root x = leaf_of (mem s) root x"
proof -
  assume x: "va \<le> x" "unat x < unat va + unat sz"
  obtain k where k: "k < page_count va sz" "PGROUNDDOWN x = nth_page (PGROUNDDOWN va) k" "same_page (nth_page (PGROUNDDOWN va) k) x"
    using in_pages_index [OF bounds x] .
  then have "leaf_of (mem s') root x = Some (mapped_entry (nth_page (PGROUNDDOWN pa) k) flags)"
    using post by (simp add: map_pages_post_def)
  moreover have "nth_page (PGROUNDDOWN pa) k = PGROUNDDOWN pa + (PGROUNDDOWN x - PGROUNDDOWN va)"
    unfolding k(2) by (simp add: nth_page_def)
  ultimately show "leaf_of (mem s') root x = Some (mapped_entry (PGROUNDDOWN pa + (PGROUNDDOWN x - PGROUNDDOWN va)) flags)"
    by simp
next
  assume "unat x < 2 ^ 48" "x < PGROUNDDOWN va \<or> PGROUNDUP (va + sz) \<le> x"
  then have "\<not> in_pages (PGROUNDDOWN va) (page_count va sz) x"
    using in_pages_range [OF bounds] by auto
  then show "leaf_of (mem s') root x = leaf_of (mem s) root x" using post by (simp add: map_pages_post_def)
qed

lemma map_pages_succeeds:
  assumes "map_pages_post kend root start 0 s ps pa n flags r s'"
    "\<And>k. k < n \<Longrightarrow> page_of (mem s) root (nth_page start k) \<in> {None, Some (nth_page pa k)}" "3 * n \<le> length ps"
  shows "r = 0"
proof (rule ccontr)
  assume r: "r \<noteq> 0"
  have "\<exists>k < n. \<exists>b. page_of (mem s) root (nth_page start k) = Some b \<and> b \<noteq> nth_page pa k"
    using assms(1,3) unfolding map_pages_post_def if_not_P [OF r] by auto
  then show False using assms(2) by fastforce
qed

lemma map_pages_undone:
  assumes "map_pages_post kend root start 0 s ps pa n flags r s'"
    "\<And>k. k < n \<Longrightarrow> page_of (mem s) root (nth_page start k) = None" "r \<noteq> 0"
  shows "r = -1" "leaf_of (mem s') root va = leaf_of (mem s) root va"
proof -
  obtain f where f: "f < n" "leaf_of (mem s') root va = (if in_pages start f va then None else leaf_of (mem s) root va)" and r: "r = -1"
    using assms(1) unfolding map_pages_post_def if_not_P [OF assms(3)] by auto
  show "r = -1" by (rule r)
  have "leaf_of (mem s) root va = None" if range: "in_pages start f va"
  proof -
    obtain k where "k < f" "same_page (nth_page start k) va" using range unfolding in_pages_def by blast
    then show ?thesis using assms(2) [of k] f(1) page_of_same_page by (simp add: leaf_None_iff)
  qed
  then show "leaf_of (mem s') root va = leaf_of (mem s) root va" using f(2) by auto
qed

lemma translate_mapped:
  fixes va pa sz x :: u64
  assumes "leaf_of m root x = Some (mapped_entry (PGROUNDDOWN pa + (PGROUNDDOWN x - PGROUNDDOWN va)) flags)"
    and "unat va + unat sz + 4095 < 2 ^ 48" "unat pa + unat sz + 4095 < 2 ^ 48" "va \<le> x" "unat x < unat va + unat sz"
  shows "translate m root x = Some (PGROUNDDOWN pa + (x - PGROUNDDOWN va))"
proof -
  obtain k where k: "k < page_count va sz" "PGROUNDDOWN x = nth_page (PGROUNDDOWN va) k"
    using in_pages_index [OF assms(2,4,5)] .
  have p: "PGROUNDDOWN pa + (PGROUNDDOWN x - PGROUNDDOWN va) = nth_page (PGROUNDDOWN pa) k"
    unfolding k(2) by (simp add: nth_page_def)
  have "4096 * k \<le> unat x - unat (PGROUNDDOWN va)"
    using unat_nth_page [of "PGROUNDDOWN va" k] range_geometry(2) [OF assms(2)] k unat_PGROUNDDOWN [of x] by simp
  also have "\<dots> \<le> unat sz + 4095" using assms(5) unat_PGROUNDDOWN [of va] by simp
  finally have "unat (PGROUNDDOWN pa) + 4096 * k < 2 ^ 48" using assms(3) unat_PGROUNDDOWN [of pa] by simp
  then have "unat (nth_page (PGROUNDDOWN pa) k) < 2 ^ 48" using unat_nth_page [of "PGROUNDDOWN pa" k] by simp
  then have "translate m root x = Some (nth_page (PGROUNDDOWN pa) k + (x AND 0xFFF))"
    using assms(1) unfolding p by (intro translate_leaf) simp_all
  moreover have "x - PGROUNDDOWN va = 4096 * of_nat k + (x AND 0xFFF)"
    unfolding diff_eq_eq using page_offset_split [of x] unfolding k(2) nth_page_def
    by (simp only: add.commute add.left_commute)
  ultimately show ?thesis by (simp add: nth_page_def add.assoc)
qed

lemma unat_ucast_u32: "unat (ucast (x :: u32) :: u64) = unat x"
proof -
  have "unat x < 2 ^ LENGTH(32)" by (rule unsigned_less)
  then have "unat x < 2 ^ 64" by simp
  then show ?thesis by (simp add: unsigned_ucast_eq take_bit_nat_eq_self)
qed

context identity_entry
begin

lemma identity_translate:
  assumes "leaf_of m root x = Some (mk x)" "unat x < 2 ^ 48"
  shows "translate m root x = Some x"
proof -
  have "x AND mask 48 = x"
    using assms(2) by (simp add: take_bit_eq_mask [symmetric] word_unat_eq_iff unsigned_take_bit_eq take_bit_nat_eq_self)
  moreover have "(x AND push_bit 12 (mask 36)) OR (x AND mask 12) = x AND mask 48"
    by (rule bit_word_eqI) (auto simp: bit_simps)
  ultimately show ?thesis
    unfolding translate_def page_of_leaf assms(1) by (simp add: mk_address mask_literals)
qed

end

lemma invlpg_loop_spec:
  fixes s :: "'a vmstate_scheme"
  assumes "unat a + 4096 * n < 2 ^ 64" "unat a + 4096 * n < unat stop + 4096" "unat stop \<le> unat a + 4096 * n"
  shows "\<exists>log. invlpg_loop a stop s = Some (s\<lparr>invlpg_log := log\<rparr>) \<and> set log = nth_page a ` {..<n} \<union> set (invlpg_log s)"
  using assms
proof (induction n arbitrary: a s)
  case 0
  then show ?case by (subst invlpg_loop.simps) (auto simp: word_less_nat_alt intro!: exI [of _ "invlpg_log s"])
next
  case (Suc n)
  have up: "unat (a + 4096) = unat a + 4096" using unat_nth_page [of a 1] Suc.prems(1) by (simp add: nth_page_def)
  have "a < stop" using Suc.prems(2) by (simp add: word_less_nat_alt)
  then have eq: "invlpg_loop a stop s = invlpg_loop (a + 4096) stop (invlpg a s)"
    by (subst invlpg_loop.simps) simp
  obtain log where log: "invlpg_loop (a + 4096) stop (invlpg a s) = Some ((invlpg a s)\<lparr>invlpg_log := log\<rparr>)"
    "set log = nth_page (a + 4096) ` {..<n} \<union> set (invlpg_log (invlpg a s))"
    using Suc.IH [of "a + 4096" "invlpg a s"] Suc.prems up by auto
  have "nth_page a ` {..<Suc n} = insert a (nth_page (a + 4096) ` {..<n})"
    by (simp add: lessThan_Suc_eq_insert_0 image_image nth_page_shift)
  then show ?case using eq log by (auto simp: invlpg_def)
qed

lemma in_pages_low:
  assumes "page_aligned a" "unat a + 4096 * n \<le> 2 ^ 48" "unat x < 2 ^ 48"
  shows "in_pages a n x \<longleftrightarrow> unat a \<le> unat x \<and> unat x < unat a + 4096 * n"
proof -
  obtain A where A: "unat a = 4096 * A" using assms(1) by (auto simp: page_aligned_def mod_eq_0_iff_dvd elim: dvdE)
  have "same_page (nth_page a k) x \<longleftrightarrow> A + k = unat x div 4096" if "k < n" for k
  proof -
    have u: "unat (nth_page a k) = 4096 * (A + k)" using unat_nth_page [of a k] assms(2) that A by simp
    then have "unat (nth_page a k) < 2 ^ 48" using assms(2) that A by simp
    then show ?thesis
      using same_page_low [of "nth_page a k" x] u assms by (simp add: word_unat_eq_iff unat_PGROUNDDOWN) arith
  qed
  then have "in_pages a n x \<longleftrightarrow> (\<exists>k < A + n - A. A + k = unat x div 4096)"
    unfolding in_pages_def by auto
  also have "\<dots> \<longleftrightarrow> A \<le> unat x div 4096 \<and> unat x div 4096 < A + n" by (rule ex_shift)
  also have "\<dots> \<longleftrightarrow> unat a \<le> unat x \<and> unat x < unat a + 4096 * n"
    unfolding A by (simp add: less_eq_div_iff_mult_less_eq div_less_iff_less_mult algebra_simps)
  finally show ?thesis .
qed

lemma map_apic_region_run:
  fixes s :: "'a vmstate_scheme"
  assumes inv: "vm_inv kend root s ps" and al: "page_aligned base" and b: "unat base + unat sz + 4096 < 2 ^ 48"
    and enough: "3 * ((unat sz + 4095) div 4096) \<le> length ps"
  shows "\<exists>s' ps'. map_apic_region root base sz s = Some s' \<and> vm_inv kend root s' ps' \<and> cr3 s' = cr3 s \<and>
     (\<forall>x. leaf_of (mem s') root x =
        (if in_pages base ((unat sz + 4095) div 4096) x then Some (apic_entry x) else leaf_of (mem s) root x))"
proof -
  let ?n = "(unat sz + 4095) div 4096" and ?stop = "base + ucast sz"
  have stop: "unat ?stop = unat base + unat sz"
    using b by (simp add: unat_word_ariths unat_ucast_u32)
  have n: "4096 * ?n < unat sz + 4096" "unat sz \<le> 4096 * ?n" by simp_all
  obtain s1 ps1 where s1: "region_loop apic_entry root base ?stop s = Some s1" "vm_inv kend root s1 ps1" "cr3 s1 = cr3 s"
    "\<And>x. leaf_of (mem s1) root x = (if in_pages base ?n x then Some (apic_entry x) else leaf_of (mem s) root x)"
    using apic.region_loop_identity [OF inv, of base ?n ?stop] b enough n stop by auto
  obtain log where "invlpg_loop base ?stop s1 = Some (s1\<lparr>invlpg_log := log\<rparr>)"
    using invlpg_loop_spec [of base ?n ?stop s1] b n stop by auto
  moreover have "vm_inv kend root (s1\<lparr>invlpg_log := log\<rparr>) ps1" using s1(2) by (simp add: vm_inv_def kmem_inv_def)
  ultimately show ?thesis using s1 by (simp add: map_apic_region_def) auto
qed

section \<open>An example state\<close>

text \<open>An empty root table at \<open>0x1000\<close> and three free pages, on which the theorems are instantiated.\<close>

definition demo_pages :: "u64 list" where
  "demo_pages = [0x150000, 0x151000, 0x152000]"

definition demo_vm :: vmstate where
  "demo_vm = \<lparr>mem = store64 (store64 (\<lambda>_. 0) 0x151000 0x152000) 0x150000 0x151000,
             freelist = 0x150000, cr3 = 0x1000, invlpg_log = []\<rparr>"

lemma wf_tables_empty_root:
  assumes "page_aligned root" "root \<noteq> 0" "root \<notin> set ps" "\<And>x. in_page root x \<Longrightarrow> m x = 0"
  shows "wf_tables m root ps"
proof -
  have "path = [] \<and> t = root" if "good_path path" "follow m root path = Some t" for path t
  proof (cases path)
    case (Cons i r)
    then show ?thesis using that follow_zero_page [of root m i r] assms(4) by auto
  qed (use that in simp)
  then show ?thesis unfolding wf_tables_def using assms(1-3) by blast
qed

lemma page_of_empty_root:
  assumes "\<And>x. in_page root x \<Longrightarrow> m x = 0"
  shows "page_of m root va = None"
  unfolding page_of_def va_path_def using follow_zero_page [OF assms] by (simp add: numeral_3_eq_3)

lemma demo_root_zero: "in_page 0x1000 x \<Longrightarrow> mem demo_vm x = 0"
proof -
  assume "in_page 0x1000 x"
  then have "\<not> in_page 0x151000 x" "\<not> in_page 0x150000 x"
    using pages_disjoint [of "0x1000" "0x151000" x] pages_disjoint [of "0x1000" "0x150000" x]
    by (auto simp: page_aligned_def)
  then show ?thesis
    using store64_outside_page [of "0x151000" 0 x] store64_outside_page [of "0x150000" 0 x]
    by (simp add: demo_vm_def page_aligned_def)
qed

lemma demo_inv: "vm_inv 0x150000 0x1000 demo_vm demo_pages"
proof -
  have "kmem_inv 0x150000 demo_vm demo_pages"
    by (simp add: kmem_inv_def demo_vm_def demo_pages_def valid_page_def page_aligned_def load64_store64 aligned8_def)
  moreover have "wf_tables (mem demo_vm) 0x1000 demo_pages"
    using demo_root_zero by (intro wf_tables_empty_root) (simp_all add: demo_pages_def page_aligned_def)
  ultimately show ?thesis by (simp add: vm_inv_def)
qed

lemma demo_cr3 [simp]: "cr3 demo_vm = 0x1000"
  by (simp add: demo_vm_def)

lemma demo_unmapped [simp]: "page_of (mem demo_vm) 0x1000 va = None"
  by (rule page_of_empty_root) (rule demo_root_zero)

section \<open>Properties\<close>

text \<open>
  C7. The invariant of the address space together with three free pages makes \<open>map_page\<close>
  total and exact: it returns 0 if the page of \<open>va\<close> is unmapped or already mapped to \<open>pa\<close>, and
  then exactly that page gets the entry built from \<open>pa\<close> and the flags and is flushed; it returns
  -1 if another page is mapped there, and then no leaf entry changes. The invariant is kept.
\<close>

theorem map_page_exact:
  fixes s :: "'a vmstate_scheme"
  assumes "vm_inv kend root s ps" "3 \<le> length ps"
  shows "\<exists>r s' ps'. map_page root va pa flags s = (r, s') \<and> vm_inv kend root s' ps' \<and>
     r = (if page_of (mem s) root va \<in> {None, Some (PGROUNDDOWN pa)} then 0 else -1) \<and>
     (\<forall>va'. leaf_of (mem s') root va' =
        (if r = 0 \<and> same_page va va' then Some (mapped_entry (PGROUNDDOWN pa) flags) else leaf_of (mem s) root va')) \<and>
     invlpg_log s' = (if r = 0 then [PGROUNDDOWN va] else []) @ invlpg_log s"
proof -
  obtain r s' where m: "map_page root va pa flags s = (r, s')" by (cases "map_page root va pa flags s")
  obtain ps' where p: "map_post kend root s ps va pa flags r s' ps'" using map_page_post [OF assms(1) m] by blast
  show ?thesis
    using p assms(2) by (intro exI [of _ r] exI [of _ s'] exI [of _ ps']) (auto simp: m map_post_def split: if_splits)
qed

theorem map_page_exact_witness:
  "\<exists>r s' ps'. map_page 0x1000 0x400123 0x2000 PTE_W demo_vm = (r, s') \<and> vm_inv 0x150000 0x1000 s' ps' \<and>
     r = (if page_of (mem demo_vm) 0x1000 0x400123 \<in> {None, Some (PGROUNDDOWN 0x2000)} then 0 else -1) \<and>
     (\<forall>va'. leaf_of (mem s') 0x1000 va' =
        (if r = 0 \<and> same_page 0x400123 va' then Some (mapped_entry (PGROUNDDOWN 0x2000) PTE_W) else leaf_of (mem demo_vm) 0x1000 va')) \<and>
     invlpg_log s' = (if r = 0 then [PGROUNDDOWN 0x400123] else []) @ invlpg_log demo_vm"
  by (rule map_page_exact [OF demo_inv]) (simp add: demo_pages_def)

text \<open>
  C8. Whatever the state of the free list, \<open>map_page\<close> writes only to bytes of page tables
  and of pages it takes from the free list, keeps the invariant, takes at most three pages, and if it
  fails every translation is as before.
\<close>

theorem map_page_safe:
  fixes s :: "'a vmstate_scheme"
  assumes "vm_inv kend root s ps" "map_page root va pa flags s = (r, s')"
  shows "\<exists>ps'. vm_inv kend root s' ps' \<and> suffix ps' ps \<and> length ps \<le> length ps' + 3 \<and>
     (\<forall>x. \<not> in_tables (mem s) root x \<and> \<not> (\<exists>p \<in> set ps. in_page p x) \<longrightarrow> mem s' x = mem s x) \<and>
     (r \<noteq> 0 \<longrightarrow> r = -1 \<and> (\<forall>va'. translate (mem s') root va' = translate (mem s) root va'))"
proof -
  obtain ps' where p: "map_post kend root s ps va pa flags r s' ps'" using map_page_post [OF assms] by blast
  then have "translate (mem s') root va' = translate (mem s) root va'" if "r \<noteq> 0" for va'
    using that by (intro translate_cong) (simp add: map_post_def)
  then show ?thesis using p by (intro exI [of _ ps']) (auto simp: map_post_def)
qed

theorem map_page_safe_witness:
  "\<exists>ps'. vm_inv 0x150000 0x1000 (snd (map_page 0x1000 0x400123 0x2000 PTE_W demo_vm)) ps' \<and>
     suffix ps' demo_pages \<and> length demo_pages \<le> length ps' + 3"
  using map_page_safe [OF demo_inv, of "0x400123" "0x2000" PTE_W] by (metis prod.collapse)

text \<open>
  C9. \<open>unmap_page\<close> removes the mapping of exactly one page, flushes it if it was
  mapped, keeps the invariant and frees no table.
\<close>

theorem unmap_page_exact:
  fixes s :: "'a vmstate_scheme"
  assumes "vm_inv kend root s ps"
  shows "vm_inv kend root (unmap_page root va s) ps \<and>
     (\<forall>va'. translate (mem (unmap_page root va s)) root va' =
        (if same_page va va' then None else translate (mem s) root va')) \<and>
     invlpg_log (unmap_page root va s) =
       (if translate (mem s) root va = None then [] else [PGROUNDDOWN va]) @ invlpg_log s"
  using unmap_page_spec [OF assms, of va] by (simp add: translate_def page_of_leaf)

theorem unmap_page_exact_witness:
  "vm_inv 0x150000 0x1000 (unmap_page 0x1000 0x400123 demo_vm) demo_pages \<and>
     (\<forall>va'. translate (mem (unmap_page 0x1000 0x400123 demo_vm)) 0x1000 va' =
        (if same_page 0x400123 va' then None else translate (mem demo_vm) 0x1000 va')) \<and>
     invlpg_log (unmap_page 0x1000 0x400123 demo_vm) =
       (if translate (mem demo_vm) 0x1000 0x400123 = None then [] else [PGROUNDDOWN 0x400123]) @ invlpg_log demo_vm"
  by (rule unmap_page_exact [OF demo_inv])

text \<open>C10. \<open>va_to_pa\<close> computes the translation the tables denote, and 0 for an unmapped address.\<close>

theorem va_to_pa_translate:
  assumes "vm_inv kend root s ps"
  shows "va_to_pa root va s = (case translate (mem s) root va of None \<Rightarrow> 0 | Some pa \<Rightarrow> pa)"
  using va_to_pa_page [OF assms] by (simp add: translate_def split: option.split)

theorem va_to_pa_translate_witness: "va_to_pa 0x1000 0x400123 demo_vm = 0"
  using va_to_pa_translate [OF demo_inv, of "0x400123"] by (simp add: translate_def)

lemma mmio_geometry:
  fixes pa sz base len :: u64
  assumes "unat pa + unat sz + 2 * 4095 < 2 ^ 48" "base = PGROUNDDOWN pa" "len = sz + (pa - base)"
  shows "PGROUNDDOWN base = base" "unat base \<le> unat pa \<and> unat base + unat len = unat pa + unat sz"
    and "unat base + unat len + 4095 < 2 ^ 48" "page_count base len = page_count pa sz"
    and "k < page_count base len \<Longrightarrow> base \<le> nth_page base k \<and> unat (nth_page base k) < unat pa + unat sz"
proof -
  obtain B where B: "unat base = 4096 * B" "B = unat pa div 4096" by (simp add: assms(2) unat_PGROUNDDOWN)
  show down: "PGROUNDDOWN base = base" by (simp add: assms(2))
  have le: "unat base \<le> unat pa" "unat pa - unat base \<le> 4095" by (simp_all add: assms(2) unat_PGROUNDDOWN)
  have "unat (pa - base) = unat pa - unat base" using le(1) by (simp add: unat_sub word_le_nat_alt)
  then have "unat len = unat sz + (unat pa - unat base)"
    unfolding assms(3) using assms(1) le by (simp add: unat_word_ariths)
  with le show total: "unat base \<le> unat pa \<and> unat base + unat len = unat pa + unat sz" by simp
  then show b: "unat base + unat len + 4095 < 2 ^ 48" using assms(1) by simp
  have pc: "page_count base len = (unat len + 4095) div 4096"
    unfolding page_count_def B(1) by (simp add: add.assoc)
  show "page_count base len = page_count pa sz"
    unfolding page_count_def using total B by simp
  assume k: "k < page_count base len"
  then have "4096 * k < unat len" unfolding pc by simp
  moreover have "unat (nth_page base k) = unat base + 4096 * k"
    using calculation b by (intro unat_nth_page) simp
  ultimately show "base \<le> nth_page base k \<and> unat (nth_page base k) < unat pa + unat sz"
    using total by (simp add: word_le_nat_alt)
qed

text \<open>
  C11. \<open>map_pages\<close> on a range below 2^48 whose pages are unmapped or already mapped as
  requested, with three free pages for each page of the range: it returns 0, every address of the range
  translates to the address at the same distance from the start of the physical range, and every
  other address translates as before.
\<close>

theorem map_pages_maps:
  fixes s :: "'a vmstate_scheme"
  assumes inv: "vm_inv kend root s ps" and bounds: "unat va + unat sz + 4095 < 2 ^ 48" "unat pa + unat sz + 4095 < 2 ^ 48"
    and free: "\<And>k. k < page_count va sz \<Longrightarrow>
       page_of (mem s) root (nth_page (PGROUNDDOWN va) k) \<in> {None, Some (nth_page (PGROUNDDOWN pa) k)}"
    and enough: "3 * page_count va sz \<le> length ps"
  shows "\<exists>s' ps'. map_pages root va pa sz flags s = Some (0, s') \<and> vm_inv kend root s' ps' \<and>
     (\<forall>x. va \<le> x \<longrightarrow> unat x < unat va + unat sz \<longrightarrow>
        translate (mem s') root x = Some (PGROUNDDOWN pa + (x - PGROUNDDOWN va))) \<and>
     (\<forall>x. unat x < 2 ^ 48 \<longrightarrow> x < PGROUNDDOWN va \<or> PGROUNDUP (va + sz) \<le> x \<longrightarrow>
        translate (mem s') root x = translate (mem s) root x)"
proof -
  obtain r s' where run: "map_pages root va pa sz flags s = Some (r, s')"
    and post: "map_pages_post kend root (PGROUNDDOWN va) 0 s ps (PGROUNDDOWN pa) (page_count va sz) flags r s'"
    using map_pages_run [OF inv bounds(1)] by blast
  have r: "r = 0" using map_pages_succeeds [OF post free enough] .
  note post0 = post [unfolded r]
  have "translate (mem s') root x = Some (PGROUNDDOWN pa + (x - PGROUNDDOWN va))"
    if "va \<le> x" "unat x < unat va + unat sz" for x
    using translate_mapped [OF map_pages_0(1) [OF post0 bounds(1) that] bounds that] .
  moreover have "translate (mem s') root x = translate (mem s) root x"
    if "unat x < 2 ^ 48" "x < PGROUNDDOWN va \<or> PGROUNDUP (va + sz) \<le> x" for x
    using map_pages_0(2) [OF post0 bounds(1) that] by (rule translate_cong)
  moreover obtain ps' where "vm_inv kend root s' ps'" using post by (auto simp: map_pages_post_def)
  ultimately show ?thesis using run r by blast
qed

theorem map_pages_maps_witness:
  "\<exists>s' ps'. map_pages 0x1000 0x400100 0x900100 0x200 PTE_W demo_vm = Some (0, s') \<and> vm_inv 0x150000 0x1000 s' ps' \<and>
     (\<forall>x. 0x400100 \<le> x \<longrightarrow> unat x < unat (0x400100 :: u64) + unat (0x200 :: u64) \<longrightarrow>
        translate (mem s') 0x1000 x = Some (PGROUNDDOWN 0x900100 + (x - PGROUNDDOWN 0x400100))) \<and>
     (\<forall>x. unat x < 2 ^ 48 \<longrightarrow> x < PGROUNDDOWN 0x400100 \<or> PGROUNDUP (0x400100 + 0x200) \<le> x \<longrightarrow>
        translate (mem s') 0x1000 x = translate (mem demo_vm) 0x1000 x)"
  by (rule map_pages_maps [OF demo_inv]) (simp_all add: page_count_def demo_pages_def)

text \<open>
  C12. \<open>map_pages\<close> on unmapped pages is atomic: it always returns, and if it returns
  -1, because the free pages ran out half-way, the rollback has restored every leaf entry.
\<close>

theorem map_pages_rollback:
  fixes s :: "'a vmstate_scheme"
  assumes inv: "vm_inv kend root s ps" and bounds: "unat va + unat sz + 4095 < 2 ^ 48"
    and free: "\<And>k. k < page_count va sz \<Longrightarrow> page_of (mem s) root (nth_page (PGROUNDDOWN va) k) = None"
  shows "\<exists>r s' ps'. map_pages root va pa sz flags s = Some (r, s') \<and> vm_inv kend root s' ps' \<and> (r = 0 \<or> r = -1) \<and>
     (r = -1 \<longrightarrow> (\<forall>x. leaf_of (mem s') root x = leaf_of (mem s) root x))"
proof -
  obtain r s' where run: "map_pages root va pa sz flags s = Some (r, s')"
    and post: "map_pages_post kend root (PGROUNDDOWN va) 0 s ps (PGROUNDDOWN pa) (page_count va sz) flags r s'"
    using map_pages_run [OF inv bounds] by blast
  moreover obtain ps' where "vm_inv kend root s' ps'" using post by (auto simp: map_pages_post_def)
  moreover have "r = -1 \<and> (\<forall>x. leaf_of (mem s') root x = leaf_of (mem s) root x)" if "r \<noteq> 0"
    using map_pages_undone [OF post free that] by blast
  ultimately show ?thesis by (cases "r = 0") auto
qed

theorem map_pages_rollback_witness:
  "\<exists>r s' ps'. map_pages 0x1000 0x400100 0x900100 0x40000000 PTE_W demo_vm = Some (r, s') \<and> vm_inv 0x150000 0x1000 s' ps' \<and>
     (r = 0 \<or> r = -1) \<and> (r = -1 \<longrightarrow> (\<forall>x. leaf_of (mem s') 0x1000 x = leaf_of (mem demo_vm) 0x1000 x))"
  by (rule map_pages_rollback [OF demo_inv]) simp_all

text \<open>
  \<open>map_mmio\<close> returns the physical address it was given after mapping the device
  range onto itself, writable and with caching disabled.
\<close>

theorem map_mmio_identity:
  fixes s :: "'a vmstate_scheme"
  assumes inv: "vm_inv kend (cr3 s) s ps" and bounds: "unat pa + unat sz + 2 * 4095 < 2 ^ 48"
    and free: "\<And>x. \<lbrakk>PGROUNDDOWN pa \<le> x; unat x < unat pa + unat sz\<rbrakk> \<Longrightarrow>
       page_of (mem s) (cr3 s) x \<in> {None, Some (PGROUNDDOWN x)}"
    and enough: "3 * page_count pa sz \<le> length ps"
  shows "\<exists>s' ps'. map_mmio pa sz s = Some (pa, s') \<and> vm_inv kend (cr3 s) s' ps' \<and>
     (\<forall>x. pa \<le> x \<longrightarrow> unat x < unat pa + unat sz \<longrightarrow>
        translate (mem s') (cr3 s) x = Some x \<and>
        (\<exists>e. leaf_of (mem s') (cr3 s) x = Some e \<and> pe_rw e \<and> pe_pcd e \<and> \<not> pe_us e))"
proof -
  define base len where "base = PGROUNDDOWN pa" and "len = sz + (pa - base)"
  note geo = mmio_geometry [OF bounds base_def len_def]
  obtain r s' where run: "map_pages (cr3 s) base base len (PTE_W OR PTE_PCD) s = Some (r, s')"
    and post: "map_pages_post kend (cr3 s) (PGROUNDDOWN base) 0 s ps (PGROUNDDOWN base) (page_count base len) (PTE_W OR PTE_PCD) r s'"
    using map_pages_run [OF inv geo(3)] by blast
  have "r = 0"
  proof (rule map_pages_succeeds [OF post])
    fix k assume k: "k < page_count base len"
    show "page_of (mem s) (cr3 s) (nth_page (PGROUNDDOWN base) k) \<in> {None, Some (nth_page (PGROUNDDOWN base) k)}"
      using free [of "nth_page base k"] geo(1) geo(5) [OF k] base_def by auto
  qed (use geo(4) enough in simp)
  note post0 = post [unfolded \<open>r = 0\<close>]
  have "translate (mem s') (cr3 s) x = Some x \<and>
      (\<exists>e. leaf_of (mem s') (cr3 s) x = Some e \<and> pe_rw e \<and> pe_pcd e \<and> \<not> pe_us e)"
    if "pa \<le> x" "unat x < unat pa + unat sz" for x
  proof -
    have x: "base \<le> x" "unat x < unat base + unat len" using geo(2) that by (simp_all add: word_le_nat_alt)
    note leaf = map_pages_0(1) [OF post0 geo(3) x]
    show ?thesis using translate_mapped [OF leaf geo(3,3) x] leaf geo(1) by (simp add: mapped_entry_def)
  qed
  moreover obtain ps' where "vm_inv kend (cr3 s) s' ps'" using post by (auto simp: map_pages_post_def)
  moreover have "map_mmio pa sz s = Some (pa, s')"
    using run \<open>r = 0\<close> by (simp add: map_mmio_def base_def len_def Let_def)
  ultimately show ?thesis by blast
qed

theorem map_mmio_identity_witness:
  "\<exists>s' ps'. map_mmio 0x900100 0x10 demo_vm = Some (0x900100, s') \<and> vm_inv 0x150000 (cr3 demo_vm) s' ps' \<and>
     (\<forall>x. 0x900100 \<le> x \<longrightarrow> unat x < unat (0x900100 :: u64) + unat (0x10 :: u64) \<longrightarrow>
        translate (mem s') (cr3 demo_vm) x = Some x \<and>
        (\<exists>e. leaf_of (mem s') (cr3 demo_vm) x = Some e \<and> pe_rw e \<and> pe_pcd e \<and> \<not> pe_us e))"
  by (rule map_mmio_identity [where ps = demo_pages]) (simp_all add: demo_inv page_count_def, simp add: demo_pages_def)

text \<open>
  \<open>map_apic_region\<close> with enough free pages maps the pages of the region onto themselves,
  with caching disabled and for the supervisor only, and no others.
\<close>

theorem map_apic_region_identity:
  fixes s :: "'a vmstate_scheme"
  assumes "vm_inv kend root s ps" "page_aligned base" "unat base + unat sz + 4096 < 2 ^ 48"
    and "3 * ((unat sz + 4095) div 4096) \<le> length ps"
  shows "\<exists>s' ps'. map_apic_region root base sz s = Some s' \<and> vm_inv kend root s' ps' \<and>
     (\<forall>x. unat x < 2 ^ 48 \<longrightarrow>
        (if unat base \<le> unat x \<and> unat x < unat base + 4096 * ((unat sz + 4095) div 4096)
         then translate (mem s') root x = Some x \<and>
              (\<exists>e. leaf_of (mem s') root x = Some e \<and> pe_rw e \<and> pe_pcd e \<and> \<not> pe_us e)
         else leaf_of (mem s') root x = leaf_of (mem s) root x))"
proof -
  let ?n = "(unat sz + 4095) div 4096"
  obtain s' ps' where s': "map_apic_region root base sz s = Some s'" "vm_inv kend root s' ps'"
    "\<And>x. leaf_of (mem s') root x = (if in_pages base ?n x then Some (apic_entry x) else leaf_of (mem s) root x)"
    using map_apic_region_run [OF assms] by blast
  have "unat base + 4096 * ?n \<le> 2 ^ 48" using assms(3) by simp
  note range = in_pages_low [OF assms(2) this]
  show ?thesis
    using s' range apic.identity_translate [of "mem s'" root]
    by (intro exI [of _ s'] exI [of _ ps']) (auto simp: apic_entry_def)
qed

theorem map_apic_region_identity_witness:
  "\<exists>s' ps'. map_apic_region 0x1000 0xFEE00000 0x1000 demo_vm = Some s' \<and> vm_inv 0x150000 0x1000 s' ps' \<and>
     (\<forall>x. unat x < 2 ^ 48 \<longrightarrow>
        (if unat (0xFEE00000 :: u64) \<le> unat x \<and> unat x < unat (0xFEE00000 :: u64) + 4096 * ((unat (0x1000 :: u32) + 4095) div 4096)
         then translate (mem s') 0x1000 x = Some x \<and>
              (\<exists>e. leaf_of (mem s') 0x1000 x = Some e \<and> pe_rw e \<and> pe_pcd e \<and> \<not> pe_us e)
         else leaf_of (mem s') 0x1000 x = leaf_of (mem demo_vm) 0x1000 x))"
  by (rule map_apic_region_identity [OF demo_inv]) (simp_all add: page_aligned_def demo_pages_def)

text \<open>A range that wraps past the end of the address space is accepted without mapping anything.\<close>

lemma map_pages_wrapped:
  assumes "PGROUNDUP (va + sz) \<le> PGROUNDDOWN va"
  shows "map_pages root va pa sz flags s = Some (0, s)"
  using assms by (subst map_pages_def, subst map_pages_loop.simps) (simp add: Let_def not_less [symmetric])

end
