(* ===== verification/NodeRings.thy ===== *)
theory NodeRings
  imports Kalloc
begin

text \<open>
  Circular doubly linked lists, as \<^verbatim>\<open>list.c\<close>, \<^verbatim>\<open>threads.c\<close> and \<^verbatim>\<open>proc.c\<close> keep them. The
  first part is pure: a ring over two successor functions, and what updating them at the seams does to it. The
  second part is about memories that differ only inside some pages.
\<close>

section \<open>Definitions\<close>

primrec linked :: "('n \<Rightarrow> 'n) \<Rightarrow> ('n \<Rightarrow> 'n) \<Rightarrow> 'n \<Rightarrow> 'n list \<Rightarrow> bool" where
  "linked nx pv a [] \<longleftrightarrow> True"
| "linked nx pv a (b # xs) \<longleftrightarrow> nx a = b \<and> pv b = a \<and> linked nx pv b xs"

definition ring :: "('n \<Rightarrow> 'n) \<Rightarrow> ('n \<Rightarrow> 'n) \<Rightarrow> 'n list \<Rightarrow> bool" where
  "ring nx pv xs \<longleftrightarrow> distinct xs \<and> (case xs of [] \<Rightarrow> False | a # ys \<Rightarrow> linked nx pv a (ys @ [a]))"

text \<open>The memories agree outside some pages.\<close>

definition only_pages :: "u64 set \<Rightarrow> memory \<Rightarrow> memory \<Rightarrow> bool" where
  "only_pages Q m m' \<longleftrightarrow> (\<forall>q \<in> Q. page_aligned q) \<and> (\<forall>x. (\<forall>q \<in> Q. \<not> in_page q x) \<longrightarrow> m' x = m x)"

section \<open>Rings\<close>

lemma linked_append: "linked nx pv a (xs @ ys) \<longleftrightarrow> linked nx pv a xs \<and> linked nx pv (last (a # xs)) ys"
  by (induction xs arbitrary: a) auto

lemma linked_cong:
  "\<lbrakk>linked nx pv a xs; \<And>x. x \<in> set (butlast (a # xs)) \<Longrightarrow> nx' x = nx x; \<And>x. x \<in> set xs \<Longrightarrow> pv' x = pv x\<rbrakk> \<Longrightarrow> linked nx' pv' a xs"
proof (induction xs arbitrary: a)
  case (Cons b xs)
  have "linked nx' pv' b xs" using Cons.prems by (intro Cons.IH) (auto split: if_splits)
  then show ?case using Cons.prems by (auto split: if_splits)
qed simp

lemma ring_Cons: "ring nx pv (a # xs) \<longleftrightarrow> distinct (a # xs) \<and> linked nx pv a xs \<and> nx (last (a # xs)) = a \<and> pv a = last (a # xs)"
  by (auto simp: ring_def linked_append)

lemma ring_distinct: "ring nx pv xs \<Longrightarrow> distinct xs \<and> xs \<noteq> []"
  by (auto simp: ring_def split: list.splits)

lemma ring_cong:
  assumes "ring nx pv xs" "\<And>x. x \<in> set xs \<Longrightarrow> nx' x = nx x" "\<And>x. x \<in> set xs \<Longrightarrow> pv' x = pv x"
  shows "ring nx' pv' xs"
proof (cases xs)
  case (Cons a ys)
  have r: "distinct (a # ys)" "linked nx pv a ys" "nx (last (a # ys)) = a" "pv a = last (a # ys)"
    using assms(1) by (simp_all add: ring_Cons Cons)
  have "nx' x = nx x" if "x \<in> set (butlast (a # ys))" for x using assms(2) in_set_butlastD [OF that] Cons by blast
  moreover have "pv' x = pv x" if "x \<in> set ys" for x using assms(3) that Cons by simp
  ultimately have "linked nx' pv' a ys" by (rule linked_cong [OF r(2)])
  moreover have "nx' (last (a # ys)) = a" "pv' a = last (a # ys)" using assms(2) [of "last (a # ys)"] assms(3) [of a] r Cons by simp_all
  ultimately show ?thesis using r(1) Cons by (simp add: ring_Cons)
qed (use assms(1) in \<open>simp add: ring_def\<close>)

lemma ring_rotate1: "ring nx pv xs \<Longrightarrow> ring nx pv (rotate1 xs)"
proof (cases xs)
  case (Cons a ys)
  assume "ring nx pv xs"
  then show ?thesis using Cons by (cases ys) (auto simp: ring_Cons linked_append)
qed (simp add: ring_def)

lemma ring_append_commute: "ring nx pv (xs @ ys) \<Longrightarrow> ring nx pv (ys @ xs)"
proof (induction xs arbitrary: ys)
  case (Cons a xs)
  then have "ring nx pv (rotate1 (a # xs @ ys))" using ring_rotate1 [of nx pv "a # xs @ ys"] by simp
  then have "ring nx pv (xs @ ys @ [a])" by simp
  from Cons.IH [OF this] show ?case by simp
qed simp

lemma ring_next_hd: "ring nx pv (a # xs) \<Longrightarrow> nx a = hd (xs @ [a])"
  by (cases xs) (auto simp: ring_Cons)

lemma ring_prev_hd: "ring nx pv (a # xs) \<Longrightarrow> pv a = last (a # xs)"
  by (simp add: ring_Cons)

lemma ring_single: "ring nx pv [a] \<longleftrightarrow> nx a = a \<and> pv a = a"
  by (auto simp: ring_Cons)

text \<open>A new node between the last and the first.\<close>

lemma ring_insert:
  assumes "ring nx pv (a # xs)" "n \<notin> set (a # xs)"
  shows "ring (nx(n := a, last (a # xs) := n)) (pv(n := last (a # xs), a := n)) ((a # xs) @ [n])"
proof -
  let ?l = "last (a # xs)"
  have d: "distinct (a # xs)" and l: "linked nx pv a xs" using assms(1) by (simp_all add: ring_Cons)
  have "linked (nx(n := a, ?l := n)) (pv(n := ?l, a := n)) a xs"
  proof (rule linked_cong [OF l])
    fix x assume x: "x \<in> set (butlast (a # xs))"
    then have "x \<noteq> ?l" using d by (metis append_butlast_last_id distinct_append disjoint_iff list.distinct(1) list.set_intros(1))
    moreover have "x \<noteq> n" using x assms(2) in_set_butlastD by fastforce
    ultimately show "(nx(n := a, ?l := n)) x = nx x" by simp
  qed (use d assms(2) in auto)
  moreover have "?l \<in> set (a # xs)" by (rule last_in_set) simp
  ultimately show ?thesis using d assms(2) by (auto simp: ring_Cons linked_append)
qed

text \<open>Unlinking the first of at least two nodes, and any node.\<close>

lemma ring_remove_hd:
  assumes "ring nx pv (a # xs)" "xs \<noteq> []"
  shows "ring (nx(pv a := nx a)) (pv(nx a := pv a)) xs"
proof (cases xs)
  case (Cons b ys)
  have d: "distinct (a # b # ys)" and l: "linked nx pv b ys" and nx: "nx a = b" and pv: "pv a = last (b # ys)"
    using assms(1) Cons by (auto simp: ring_Cons)
  have "linked (nx(pv a := nx a)) (pv(nx a := pv a)) b ys"
  proof (rule linked_cong [OF l])
    fix x assume "x \<in> set (butlast (b # ys))"
    then have "x \<noteq> last (b # ys)" using d
      by (metis append_butlast_last_id distinct.simps(2) distinct_append disjoint_iff list.distinct(1) list.set_intros(1))
    then show "(nx(pv a := nx a)) x = nx x" using pv by simp
  qed (use d nx in auto)
  then show ?thesis using d nx pv Cons by (auto simp: ring_Cons)
qed (use assms in simp)

lemma ring_remove:
  assumes "ring nx pv (us @ x # vs)" "us @ vs \<noteq> []"
  shows "ring (nx(pv x := nx x)) (pv(nx x := pv x)) (us @ vs)"
proof -
  have "ring nx pv (x # vs @ us)" using ring_append_commute [OF assms(1)] by simp
  then have "ring (nx(pv x := nx x)) (pv(nx x := pv x)) (vs @ us)" using assms(2) by (intro ring_remove_hd) auto
  then show ?thesis by (rule ring_append_commute)
qed

lemma ring_closed:
  assumes "ring nx pv xs" "x \<in> set xs"
  shows "nx x \<in> set xs" "pv x \<in> set xs"
proof -
  obtain us vs where xs: "xs = us @ x # vs" using assms(2) by (meson split_list)
  then have r: "ring nx pv (x # vs @ us)" using ring_append_commute [of nx pv us "x # vs"] assms(1) by simp
  show "nx x \<in> set xs" unfolding ring_next_hd [OF r] xs by (cases "vs @ us"; cases vs) auto
  show "pv x \<in> set xs" unfolding ring_prev_hd [OF r] using last_in_set [of "x # vs @ us"] xs by auto
qed

lemma ring_self:
  assumes "ring nx pv (a # xs)"
  shows "nx a = a \<longleftrightarrow> xs = []" "pv a = a \<longleftrightarrow> xs = []"
proof -
  have d: "a \<notin> set xs" using assms by (simp add: ring_Cons)
  show "nx a = a \<longleftrightarrow> xs = []" unfolding ring_next_hd [OF assms] using d by (cases xs) auto
  show "pv a = a \<longleftrightarrow> xs = []" unfolding ring_prev_hd [OF assms] using d last_in_set [of xs] by auto
qed

section \<open>Frames\<close>

lemma only_pages_refl: "\<forall>q \<in> Q. page_aligned q \<Longrightarrow> only_pages Q m m"
  by (simp add: only_pages_def)

lemma only_pages_set_fld:
  "\<lbrakk>only_pages Q m m'; q \<in> Q; i < 512\<rbrakk> \<Longrightarrow> only_pages Q m (set_fld m' q i v)"
  unfolding only_pages_def using set_fld_outside by metis

lemma only_pages_trans: "\<lbrakk>only_pages Q m m'; only_pages Q m' m''\<rbrakk> \<Longrightarrow> only_pages Q m m''"
  by (simp add: only_pages_def)

lemma only_pages_mono: "\<lbrakk>only_pages Q m m'; Q \<subseteq> R; \<forall>q \<in> R. page_aligned q\<rbrakk> \<Longrightarrow> only_pages R m m'"
  unfolding only_pages_def by blast

lemma only_pages_page:
  assumes "only_pages Q m m'" "page_aligned p" "p \<notin> Q" "in_page p x"
  shows "m' x = m x"
  using assms pages_disjoint unfolding only_pages_def by metis

lemma only_pages_fld:
  assumes "only_pages Q m m'" "page_aligned p" "p \<notin> Q" "i < 512"
  shows "fld m' p i = fld m p i"
  using only_pages_page [OF assms(1-3)] assms(4) by (rule fld_other_page)

lemma only_pages_kmem_inv:
  assumes "kmem_inv kend s ps" "only_pages Q (mem s) m'" "set ps \<inter> Q = {}"
  shows "kmem_inv kend (s\<lparr>mem := m'\<rparr>) ps"
proof -
  have "load64 m' p = load64 (mem s) p" if "p \<in> set ps" for p
  proof (rule load64_page_head)
    fix x assume "in_page p x"
    then show "m' x = mem s x"
      using only_pages_page [OF assms(2), of p x] assms(1,3) that by (auto simp: kmem_inv_def valid_page_def)
  qed
  then have "chain m' (freelist s) ps" using assms(1) chain_cong [of ps m' "mem s"] by (simp add: kmem_inv_def)
  then show ?thesis using assms(1) by (simp add: kmem_inv_def)
qed

lemma only_pages_kalloc: "\<lbrakk>kalloc s = (p, s'); page_aligned p\<rbrakk> \<Longrightarrow> only_pages {p} (mem s) (mem s')"
  unfolding only_pages_def using kalloc_frame by blast

end
