(* ===== verification/StrUtils.thy ===== *)
theory StrUtils
  imports Prelude "HOL-Library.Monad_Syntax"
begin

text \<open>
  The string and number formatting routines of \<^verbatim>\<open>kernel/lib/src/str_utils.c\<close>. A C character
  buffer is a function from indices to characters: the routines know no buffer length, so neither
  does the model, and the theorems say which indices are written. A C string that a routine only reads is an HOL
  string without its terminator. \<open>int\<close> is the HOL \<open>int\<close>: signed overflow, which C leaves
  undefined, is not modelled. 64-bit numbers are words.
\<close>

section \<open>Definitions\<close>

type_synonym cbuf = "nat \<Rightarrow> char"

abbreviation NUL :: char where
  "NUL \<equiv> CHR 0x00"

definition FMT_FLAG_LEFT :: u32 where
  [simp]: "FMT_FLAG_LEFT = 1"

definition FMT_FLAG_PLUS :: u32 where
  [simp]: "FMT_FLAG_PLUS = 2"

definition FMT_FLAG_SPACE :: u32 where
  [simp]: "FMT_FLAG_SPACE = 4"

definition FMT_FLAG_HASH :: u32 where
  [simp]: "FMT_FLAG_HASH = 8"

definition FMT_FLAG_ZERO :: u32 where
  [simp]: "FMT_FLAG_ZERO = 16"

definition FMT_FLAG_UPPER :: u32 where
  [simp]: "FMT_FLAG_UPPER = 32"

datatype fmt_length =
    FMT_LEN_DEFAULT
  | FMT_LEN_HH
  | FMT_LEN_H
  | FMT_LEN_L
  | FMT_LEN_LL
  | FMT_LEN_Z

record fmt_spec =
  fs_flags :: u32
  fs_width :: int
  fs_precision :: int
  fs_length :: fmt_length

unbundle bit_operations_syntax

definition has_flag :: "fmt_spec \<Rightarrow> u32 \<Rightarrow> bool" where
  "has_flag spec flag \<longleftrightarrow> fs_flags spec AND flag \<noteq> 0"

subsection \<open>Basic string functions\<close>

function reverse_loop :: "cbuf \<Rightarrow> int \<Rightarrow> int \<Rightarrow> cbuf" where
  "reverse_loop str i j =
     (if i < j
      then let tmp = str (nat i);
               str = str(nat i := str (nat j));
               str = str(nat j := tmp)
           in reverse_loop str (i + 1) (j - 1)
      else str)"
  by pat_completeness auto
termination by (relation "measure (\<lambda>(str, i, j). nat (j - i))") auto

declare reverse_loop.simps [simp del]

definition reverse_str :: "cbuf \<Rightarrow> int \<Rightarrow> cbuf" where
  "reverse_str str n = reverse_loop str 0 (n - 1)"

text \<open>\<open>strlen\<close> and \<open>strcpy\<close> run to the terminator; \<open>None\<close> is a run past every index.\<close>

partial_function (option) strlen_loop :: "cbuf \<Rightarrow> nat \<Rightarrow> nat option" where
  "strlen_loop str len = (if str len \<noteq> NUL then strlen_loop str (len + 1) else Some len)"

definition strlen :: "cbuf option \<Rightarrow> nat option" where
  "strlen str = (case str of None \<Rightarrow> Some 0 | Some str \<Rightarrow> strlen_loop str 0)"

partial_function (option) strcpy_loop :: "cbuf \<Rightarrow> cbuf \<Rightarrow> nat \<Rightarrow> cbuf option" where
  "strcpy_loop dest src i =
     (let dest = dest(i := src i)
      in if src i \<noteq> NUL then strcpy_loop dest src (i + 1) else Some dest)"

definition strcpy :: "cbuf \<Rightarrow> cbuf \<Rightarrow> cbuf option" where
  "strcpy dest src = strcpy_loop dest src 0"

subsection \<open>Number to string conversion\<close>

definition digits_lower :: string where
  "digits_lower = ''0123456789abcdef''"

definition digits_upper :: string where
  "digits_upper = ''0123456789ABCDEF''"

partial_function (option) digits_loop :: "string \<Rightarrow> u64 \<Rightarrow> u64 \<Rightarrow> cbuf \<Rightarrow> nat \<Rightarrow> (cbuf \<times> nat) option" where
  "digits_loop digits num radix str i =
     (if num \<noteq> 0
      then digits_loop digits (num div radix) radix (str(i := digits ! unat (num mod radix))) (i + 1)
      else Some (str, i))"

definition clamp_radix :: "int \<Rightarrow> int" where
  "clamp_radix radix = (if radix < 2 \<or> radix > 16 then 10 else radix)"

definition utoa64 :: "u64 \<Rightarrow> cbuf \<Rightarrow> int \<Rightarrow> bool \<Rightarrow> (nat \<times> cbuf) option" where
  "utoa64 num str radix uppercase =
     (let radix = clamp_radix radix;
          digits = (if uppercase then digits_upper else digits_lower)
      in do {
        (str, i) \<leftarrow> (if num = 0 then Some (str(0 := CHR ''0''), 1)
                    else digits_loop digits num (of_int radix) str 0);
        let str = reverse_str str (int i);
        let str = str(i := NUL);
        Some (i, str)
      })"

definition itoa64 :: "u64 \<Rightarrow> cbuf \<Rightarrow> int \<Rightarrow> (nat \<times> cbuf) option" where
  "itoa64 num str radix =
     (let radix = clamp_radix radix;
          is_negative = (num <s 0 \<and> radix = 10);
          n = (if is_negative then - (num + 1) + 1 else num)
      in do {
        (str, i) \<leftarrow> (if n = 0 then Some (str(0 := CHR ''0''), 1)
                    else digits_loop digits_lower n (of_int radix) str 0);
        let (str, i) = (if is_negative then (str(i := CHR ''-''), i + 1) else (str, i));
        let str = reverse_str str (int i);
        let str = str(i := NUL);
        Some (i, str)
      })"

definition ptoa :: "u64 \<Rightarrow> cbuf \<Rightarrow> cbuf option" where
  "ptoa num str = map_option snd (utoa64 num str 16 False)"

definition itoa :: "u32 \<Rightarrow> cbuf \<Rightarrow> int \<Rightarrow> cbuf option" where
  "itoa num str radix =
     map_option snd (if radix = 10 then itoa64 (scast num) str radix
                     else utoa64 (ucast num) str radix False)"

subsection \<open>Formatted output\<close>

text \<open>The output loops: \<open>buf[pos++] = c\<close>, \<open>n\<close> times, and the copy of \<open>n\<close> characters of \<open>src\<close>.\<close>

primrec put_rep :: "nat \<Rightarrow> char \<Rightarrow> cbuf \<times> nat \<Rightarrow> cbuf \<times> nat" where
  "put_rep 0 c bp = bp"
| "put_rep (Suc n) c bp = (let (buf, pos) = bp in put_rep n c (buf(pos := c), pos + 1))"

primrec put_copy :: "nat \<Rightarrow> cbuf \<Rightarrow> nat \<Rightarrow> cbuf \<times> nat \<Rightarrow> cbuf \<times> nat" where
  "put_copy 0 src i bp = bp"
| "put_copy (Suc n) src i bp = (let (buf, pos) = bp in put_copy n src (i + 1) (buf(pos := src i), pos + 1))"

text \<open>The same loops with the bound \<open>pos < limit\<close> of \<open>format_string\<close>.\<close>

primrec put_rep_max :: "nat \<Rightarrow> nat \<Rightarrow> char \<Rightarrow> cbuf \<times> nat \<Rightarrow> cbuf \<times> nat" where
  "put_rep_max limit 0 c bp = bp"
| "put_rep_max limit (Suc n) c bp =
     (let (buf, pos) = bp
      in if pos < limit then put_rep_max limit n c (buf(pos := c), pos + 1) else (buf, pos))"

primrec put_copy_max :: "nat \<Rightarrow> nat \<Rightarrow> cbuf \<Rightarrow> nat \<Rightarrow> cbuf \<times> nat \<Rightarrow> cbuf \<times> nat" where
  "put_copy_max limit 0 src i bp = bp"
| "put_copy_max limit (Suc n) src i bp =
     (let (buf, pos) = bp
      in if pos < limit then put_copy_max limit n src (i + 1) (buf(pos := src i), pos + 1) else (buf, pos))"

definition format_unsigned :: "u64 \<Rightarrow> cbuf \<Rightarrow> int \<Rightarrow> fmt_spec \<Rightarrow> (nat \<times> cbuf) option" where
  "format_unsigned num buf radix spec = do {
     let uppercase = has_flag spec FMT_FLAG_UPPER;
     (numlen, numbuf) \<leftarrow> utoa64 num (\<lambda>_. NUL) radix uppercase;
     let (prefix, prefix_len) =
       (if has_flag spec FMT_FLAG_HASH
        then if radix = 16 \<and> num \<noteq> 0 then (if uppercase then ''0X'' else ''0x'', 2)
             else if radix = 8 \<and> num \<noteq> 0 \<and> numbuf 0 \<noteq> CHR ''0'' then (''0'', 1)
             else if radix = 2 \<and> num \<noteq> 0 then (if uppercase then ''0B'' else ''0b'', 2)
             else ('''', 0)
        else ('''', 0 :: nat));
     let precision = (if fs_precision spec < 0 then 1 else fs_precision spec);
     let num_zeros = (if int numlen < precision then precision - int numlen else 0);
     let total_digits = int numlen + num_zeros;
     let total_len = int prefix_len + total_digits;
     let padding = (if fs_width spec > total_len then fs_width spec - total_len else 0);
     let (zero_pad, padding) =
       (if has_flag spec FMT_FLAG_ZERO \<and> \<not> has_flag spec FMT_FLAG_LEFT \<and> fs_precision spec < 0
        then (padding, 0) else (0, padding));
     let bp = (buf, 0);
     let bp = (if \<not> has_flag spec FMT_FLAG_LEFT then put_rep (nat padding) CHR '' '' bp else bp);
     let bp = put_copy prefix_len (\<lambda>i. prefix ! i) 0 bp;
     let bp = put_rep (nat zero_pad) CHR ''0'' bp;
     let bp = put_rep (nat num_zeros) CHR ''0'' bp;
     let bp = put_copy numlen numbuf 0 bp;
     let bp = (if has_flag spec FMT_FLAG_LEFT then put_rep (nat padding) CHR '' '' bp else bp);
     let (buf, pos) = bp;
     Some (pos, buf(pos := NUL))
   }"

definition format_signed :: "u64 \<Rightarrow> cbuf \<Rightarrow> int \<Rightarrow> fmt_spec \<Rightarrow> (nat \<times> cbuf) option" where
  "format_signed num buf radix spec = do {
     let (sign, abs_num) =
       (if num <s 0 then (CHR ''-'', - (num + 1) + 1)
        else (if has_flag spec FMT_FLAG_PLUS then CHR ''+''
              else if has_flag spec FMT_FLAG_SPACE then CHR '' '' else NUL, num));
     (numlen, numbuf) \<leftarrow> utoa64 abs_num (\<lambda>_. NUL) radix False;
     let precision = (if fs_precision spec < 0 then 1 else fs_precision spec);
     let num_zeros = (if int numlen < precision then precision - int numlen else 0);
     let sign_len = (if sign \<noteq> NUL then 1 else 0 :: int);
     let total_digits = int numlen + num_zeros;
     let total_len = sign_len + total_digits;
     let padding = (if fs_width spec > total_len then fs_width spec - total_len else 0);
     let (zero_pad, padding) =
       (if has_flag spec FMT_FLAG_ZERO \<and> \<not> has_flag spec FMT_FLAG_LEFT \<and> fs_precision spec < 0
        then (padding, 0) else (0, padding));
     let bp = (buf, 0);
     let bp = (if \<not> has_flag spec FMT_FLAG_LEFT then put_rep (nat padding) CHR '' '' bp else bp);
     let bp = (if sign \<noteq> NUL then put_rep 1 sign bp else bp);
     let bp = put_rep (nat zero_pad) CHR ''0'' bp;
     let bp = put_rep (nat num_zeros) CHR ''0'' bp;
     let bp = put_copy numlen numbuf 0 bp;
     let bp = (if has_flag spec FMT_FLAG_LEFT then put_rep (nat padding) CHR '' '' bp else bp);
     let (buf, pos) = bp;
     Some (pos, buf(pos := NUL))
   }"

text \<open>\<open>buf_size - 1\<close> is unsigned: for \<open>buf_size = 0\<close> it is the largest \<open>size_t\<close>.\<close>

definition string_buf :: "string \<Rightarrow> cbuf" where
  "string_buf s = (\<lambda>i. if i < length s then s ! i else NUL)"

definition format_string :: "cbuf option \<Rightarrow> cbuf \<Rightarrow> u64 \<Rightarrow> fmt_spec \<Rightarrow> (nat \<times> cbuf) option" where
  "format_string str buf buf_size spec = do {
     let str = (case str of None \<Rightarrow> string_buf ''(null)'' | Some str \<Rightarrow> str);
     slen \<leftarrow> strlen (Some str);
     let slen = (if fs_precision spec \<ge> 0 \<and> nat (fs_precision spec) < slen
                 then nat (fs_precision spec) else slen);
     let padding = (if fs_width spec > 0 \<and> nat (fs_width spec) > slen
                    then nat (fs_width spec) - slen else 0);
     let limit = unat (buf_size - 1);
     let bp = (buf, 0);
     let bp = (if \<not> has_flag spec FMT_FLAG_LEFT then put_rep_max limit padding CHR '' '' bp else bp);
     let bp = put_copy_max limit slen str 0 bp;
     let bp = (if has_flag spec FMT_FLAG_LEFT then put_rep_max limit padding CHR '' '' bp else bp);
     let (buf, pos) = bp;
     Some (pos, buf(pos := NUL))
   }"

section \<open>Reference definitions\<close>

text \<open>
  The first \<open>n\<close> characters of a buffer; the digits of a number, least significant first; the
  numeral of a number and its inverse; appending a whole string to an output buffer.
\<close>

definition cstr :: "cbuf \<Rightarrow> nat \<Rightarrow> string" where
  "cstr buf n = map buf [0..<n]"

fun digits_rev :: "nat \<Rightarrow> nat \<Rightarrow> nat list" where
  "digits_rev r n = (if n = 0 \<or> r < 2 then [] else n mod r # digits_rev r (n div r))"

declare digits_rev.simps [simp del]

definition num_string :: "nat \<Rightarrow> bool \<Rightarrow> nat \<Rightarrow> string" where
  "num_string r uppercase n =
     (if n = 0 then ''0'' else map (\<lambda>d. (if uppercase then digits_upper else digits_lower) ! d) (rev (digits_rev r n)))"

definition digit_val :: "char \<Rightarrow> nat" where
  "digit_val c = (let n = of_char c in if n \<le> 57 then n - 48 else if n \<le> 70 then n - 55 else n - 87)"

definition parse_nat :: "nat \<Rightarrow> string \<Rightarrow> nat" where
  "parse_nat r s = foldl (\<lambda>a c. a * r + digit_val c) 0 s"

definition parse_int :: "string \<Rightarrow> int" where
  "parse_int s = (case s of c # s' \<Rightarrow> if c = CHR ''-'' then - int (parse_nat 10 s') else int (parse_nat 10 s) | [] \<Rightarrow> 0)"

definition put_str :: "string \<Rightarrow> cbuf \<times> nat \<Rightarrow> cbuf \<times> nat" where
  "put_str s bp = (case bp of (buf, pos) \<Rightarrow>
     (\<lambda>i. if pos \<le> i \<and> i < pos + length s then s ! (i - pos) else buf i, pos + length s))"

text \<open>The field \<open>printf\<close> lays out for a number with the given prefix and digits.\<close>

definition number_field :: "fmt_spec \<Rightarrow> string \<Rightarrow> string \<Rightarrow> string" where
  "number_field spec prefix ds =
     (let zeros = replicate (nat (if fs_precision spec < 0 then 1 else fs_precision spec) - length ds) CHR ''0'';
          pad = nat (fs_width spec - int (length prefix + length zeros + length ds))
      in if has_flag spec FMT_FLAG_LEFT then prefix @ zeros @ ds @ replicate pad CHR '' ''
         else if has_flag spec FMT_FLAG_ZERO \<and> fs_precision spec < 0 then prefix @ replicate pad CHR ''0'' @ zeros @ ds
         else replicate pad CHR '' '' @ prefix @ zeros @ ds)"

definition number_prefix :: "fmt_spec \<Rightarrow> int \<Rightarrow> u64 \<Rightarrow> string" where
  "number_prefix spec radix num =
     (if has_flag spec FMT_FLAG_HASH \<and> num \<noteq> 0
      then if radix = 16 then (if has_flag spec FMT_FLAG_UPPER then ''0X'' else ''0x'')
           else if radix = 8 then ''0''
           else if radix = 2 then (if has_flag spec FMT_FLAG_UPPER then ''0B'' else ''0b'')
           else ''''
      else '''')"

definition sign_prefix :: "fmt_spec \<Rightarrow> u64 \<Rightarrow> string" where
  "sign_prefix spec num =
     (if num <s 0 then ''-'' else if has_flag spec FMT_FLAG_PLUS then ''+''
      else if has_flag spec FMT_FLAG_SPACE then '' '' else '''')"

definition string_field :: "fmt_spec \<Rightarrow> string \<Rightarrow> string" where
  "string_field spec s =
     (let s = (if fs_precision spec \<ge> 0 then take (nat (fs_precision spec)) s else s);
          pad = replicate (nat (fs_width spec) - length s) CHR '' ''
      in if has_flag spec FMT_FLAG_LEFT then s @ pad else pad @ s)"

section \<open>Buffers\<close>

lemma cstr_length [simp]: "length (cstr buf n) = n"
  by (simp add: cstr_def)

lemma cstr_nth [simp]: "i < n \<Longrightarrow> cstr buf n ! i = buf i"
  by (simp add: cstr_def)

lemma cstr_eqI: "\<lbrakk>length s = n; \<And>i. i < n \<Longrightarrow> buf i = s ! i\<rbrakk> \<Longrightarrow> cstr buf n = s"
  by (rule nth_equalityI) auto

lemma reverse_loop_apply:
  "0 \<le> i \<Longrightarrow> reverse_loop str i j k = (if i \<le> int k \<and> int k \<le> j then str (nat (i + j - int k)) else str k)"
proof (induction str i j rule: reverse_loop.induct)
  case (1 str i j)
  show ?case
  proof (cases "i < j")
    case False
    then have "nat (i + j - int k) = k" if "i \<le> int k" "int k \<le> j" using that by linarith
    with False show ?thesis by (subst reverse_loop.simps) simp
  next
    case True
    define s where "s = str(nat i := str (nat j), nat j := str (nat i))"
    have "reverse_loop str i j k = reverse_loop s (i + 1) (j - 1) k"
      using True by (subst reverse_loop.simps) (simp add: Let_def s_def)
    also have "\<dots> = (if i + 1 \<le> int k \<and> int k \<le> j - 1 then s (nat (i + 1 + (j - 1) - int k)) else s k)"
      unfolding s_def using "1.prems" by (intro "1.IH" [OF True refl refl refl]) simp
    finally have step: "reverse_loop str i j k =
        (if i + 1 \<le> int k \<and> int k \<le> j - 1 then s (nat (i + j - int k)) else s k)" by simp
    have other: "s m = str m" if "m \<noteq> nat i" "m \<noteq> nat j" for m using that by (simp add: s_def)
    consider "k = nat i" | "k = nat j" | "i < int k" "int k < j" | "int k < i \<or> j < int k"
      using True "1.prems" by linarith
    then show ?thesis
    proof cases
      case 3
      then have "nat (i + j - int k) \<noteq> nat i" "nat (i + j - int k) \<noteq> nat j" using "1.prems" by linarith+
      then show ?thesis using 3 step other by simp
    next
      case 4
      then have "k \<noteq> nat i" "k \<noteq> nat j" using True "1.prems" by linarith+
      then show ?thesis using 4 step other True by auto
    qed (use True "1.prems" step in \<open>simp_all add: s_def\<close>)
  qed
qed

lemma reverse_str_apply:
  "reverse_str str (int n) k = (if k < n then str (n - 1 - k) else str k)"
proof -
  have "nat (0 + (int n - 1) - int k) = n - 1 - k" by linarith
  then show ?thesis unfolding reverse_str_def by (subst reverse_loop_apply) auto
qed

lemma put_str_Nil [simp]: "put_str [] bp = bp"
  by (cases bp) (auto simp: put_str_def fun_eq_iff)

lemma put_str_put_str [simp]: "put_str t (put_str s bp) = put_str (s @ t) bp"
  by (cases bp) (auto simp: put_str_def nth_append fun_eq_iff)

lemma put_rep_put_str [simp]: "put_rep n c bp = put_str (replicate n c) bp"
proof (induction n arbitrary: bp)
  case (Suc n)
  have "put_rep (Suc n) c bp = put_rep n c (put_str [c] bp)"
    by (cases bp) (auto simp: put_str_def fun_eq_iff intro!: arg_cong [of _ _ "put_rep n c"])
  then show ?case by (simp add: Suc.IH)
qed simp

lemma put_copy_put_str [simp]: "put_copy n src i bp = put_str (map src [i..<i + n]) bp"
proof (induction n arbitrary: i bp)
  case (Suc n)
  have "put_copy (Suc n) src i bp = put_copy n src (i + 1) (put_str [src i] bp)"
    by (cases bp) (auto simp: put_str_def fun_eq_iff intro!: arg_cong [of _ _ "put_copy n src (Suc i)"])
  then show ?case by (simp add: Suc.IH upt_conv_Cons del: upt_Suc)
qed simp

lemma put_str_result:
  assumes "put_str s (buf, 0) = (buf', pos)"
  shows "pos = length s" "cstr (buf'(pos := NUL)) pos = s" "i > pos \<Longrightarrow> buf' i = buf i"
  using assms by (auto simp: put_str_def intro!: cstr_eqI)

section \<open>Numerals\<close>

lemma digits_rev_0 [simp]: "digits_rev r 0 = []"
  by (simp add: digits_rev.simps)

lemma digits_rev_step: "\<lbrakk>n \<noteq> 0; 2 \<le> r\<rbrakk> \<Longrightarrow> digits_rev r n = n mod r # digits_rev r (n div r)"
  by (subst digits_rev.simps) simp

lemma digits_rev_bound: "2 \<le> r \<Longrightarrow> d \<in> set (digits_rev r n) \<Longrightarrow> d < r"
proof (induction r n rule: digits_rev.induct)
  case (1 r n)
  show ?case
  proof (cases "n = 0")
    case False
    then show ?thesis using 1 by (auto simp: digits_rev_step)
  qed (use 1 in simp)
qed

lemma digits_rev_value: "2 \<le> r \<Longrightarrow> foldr (\<lambda>d a. d + r * a) (digits_rev r n) 0 = n"
proof (induction r n rule: digits_rev.induct)
  case (1 r n)
  show ?case
  proof (cases "n = 0")
    case False
    then show ?thesis using 1 by (simp add: digits_rev_step)
  qed simp
qed

lemma digits_rev_length: "\<lbrakk>2 \<le> r; n < 2 ^ k\<rbrakk> \<Longrightarrow> length (digits_rev r n) \<le> k"
proof (induction k arbitrary: n)
  case (Suc k)
  have "n div r \<le> n div 2" using Suc.prems(1) by (rule div_le_mono2 [rotated]) simp
  also have "\<dots> < 2 ^ k" using Suc.prems(2) by (simp add: div_less_iff_less_mult)
  finally show ?case using Suc by (cases "n = 0") (simp_all add: digits_rev_step)
qed simp

lemma digits_loop_spec:
  assumes "2 \<le> unat radix"
  shows "digits_loop ds num radix str i =
     Some (put_str (map (\<lambda>d. ds ! d) (digits_rev (unat radix) (unat num))) (str, i))"
proof (induction "unat num" arbitrary: num str i rule: less_induct)
  case less
  show ?case
  proof (cases "num = 0")
    case False
    then have n: "unat num \<noteq> 0" by (simp add: unat_eq_zero)
    have div: "unat (num div radix) = unat num div unat radix" by (simp add: unat_div)
    have "unat (num div radix) < unat num" using n assms by (simp add: div)
    then have "digits_loop ds (num div radix) radix (str(i := ds ! unat (num mod radix))) (i + 1) =
        Some (put_str (map (\<lambda>d. ds ! d) (digits_rev (unat radix) (unat (num div radix)))) (str(i := ds ! unat (num mod radix)), i + 1))"
      by (rule less)
    moreover have "(str(i := c), i + 1) = put_str [c] (str, i)" for c
      by (auto simp: put_str_def fun_eq_iff)
    ultimately show ?thesis
      using False n assms by (subst digits_loop.simps) (simp add: digits_rev_step unat_mod div)
  qed (subst digits_loop.simps, simp)
qed

lemma clamp_radix_bounds: "2 \<le> clamp_radix radix" "clamp_radix radix \<le> 16"
  by (auto simp: clamp_radix_def)

lemma unat_clamp_radix: "unat (of_int (clamp_radix radix) :: u64) = nat (clamp_radix radix)"
proof -
  have "of_int (clamp_radix radix) = (of_nat (nat (clamp_radix radix)) :: u64)"
    using clamp_radix_bounds(1) [of radix] by simp
  then show ?thesis using clamp_radix_bounds [of radix] by (simp only: unat_of_nat) simp
qed

lemma digit_val_digits:
  "d < 16 \<Longrightarrow> digit_val (digits_lower ! d) = d" "d < 16 \<Longrightarrow> digit_val (digits_upper ! d) = d"
proof -
  have "\<forall>d \<in> set [0..<16]. digit_val (digits_lower ! d) = d \<and> digit_val (digits_upper ! d) = d"
    by code_simp
  then show "d < 16 \<Longrightarrow> digit_val (digits_lower ! d) = d" "d < 16 \<Longrightarrow> digit_val (digits_upper ! d) = d"
    by simp_all
qed

lemma digit_chars:
  "d < 16 \<Longrightarrow> digits_lower ! d \<notin> {NUL, CHR ''-'', CHR '' '', CHR ''%''} \<and> digits_upper ! d \<notin> {NUL, CHR ''-'', CHR '' '', CHR ''%''}"
proof -
  have "\<forall>d \<in> set [0..<16]. digits_lower ! d \<notin> {NUL, CHR ''-'', CHR '' '', CHR ''%''} \<and>
      digits_upper ! d \<notin> {NUL, CHR ''-'', CHR '' '', CHR ''%''}"
    by code_simp
  then show "d < 16 \<Longrightarrow> digits_lower ! d \<notin> {NUL, CHR ''-'', CHR '' '', CHR ''%''} \<and>
      digits_upper ! d \<notin> {NUL, CHR ''-'', CHR '' '', CHR ''%''}" by simp
qed

lemma parse_num_string:
  assumes "2 \<le> r" "r \<le> 16"
  shows "parse_nat r (num_string r u n) = n"
proof (cases "n = 0")
  case True
  then show ?thesis by (simp add: num_string_def parse_nat_def digit_val_def)
next
  case False
  let ?f = "\<lambda>d. (if u then digits_upper else digits_lower) ! d"
  have f: "digit_val (?f d) = d" if "d \<in> set (digits_rev r n)" for d
    using digits_rev_bound [OF assms(1) that] assms(2) digit_val_digits [of d] by simp
  have "foldl (\<lambda>a c. a * r + digit_val c) 0 (map ?f (rev ds)) = foldr (\<lambda>d a. d + r * a) ds 0"
    if "\<And>d. d \<in> set ds \<Longrightarrow> digit_val (?f d) = d" for ds
    using that by (induction ds) (simp_all add: algebra_simps)
  from this [of "digits_rev r n", OF f] show ?thesis
    using False digits_rev_value [OF assms(1)] by (simp add: num_string_def parse_nat_def)
qed

lemma num_string_chars:
  assumes "2 \<le> r" "r \<le> 16" "c \<in> set (num_string r u n)"
  shows "c \<notin> {NUL, CHR ''-'', CHR '' '', CHR ''%''}"
proof (cases "n = 0")
  case True
  then show ?thesis using assms(3) by (simp add: num_string_def)
next
  case False
  then obtain d where d: "d \<in> set (digits_rev r n)" "c = (if u then digits_upper else digits_lower) ! d"
    using assms(3) by (auto simp: num_string_def)
  then have "d < 16" using digits_rev_bound [OF assms(1)] assms(2) by fastforce
  then show ?thesis unfolding d(2) using digit_chars [of d] by (cases u) simp_all
qed

lemma num_string_length:
  assumes "2 \<le> r" "n < 2 ^ 64"
  shows "1 \<le> length (num_string r u n)" "length (num_string r u n) \<le> 64"
  using digits_rev_length [OF assms] digits_rev_step [of n r] assms(1) by (auto simp: num_string_def)

section \<open>Conversions\<close>

lemma cstr_reverse:
  assumes "put_str s (str, 0) = (buf, n)"
  shows "cstr ((reverse_str buf (int n))(n := NUL)) n = rev s" "n = length s"
    and "k > n \<Longrightarrow> ((reverse_str buf (int n))(n := NUL)) k = str k"
  using assms by (auto simp: put_str_def reverse_str_apply rev_nth intro!: cstr_eqI)

lemma put_str_single: "put_str [c] (buf, pos) = (buf(pos := c), pos + 1)"
  by (auto simp: put_str_def fun_eq_iff)

lemma utoa64_spec:
  fixes radix :: int and num :: u64 and upper :: bool
  defines "ns \<equiv> num_string (nat (clamp_radix radix)) upper (unat num)"
  shows "\<exists>buf. utoa64 num str radix upper = Some (length ns, buf) \<and> cstr buf (length ns) = ns \<and>
     buf (length ns) = NUL \<and> (\<forall>k > length ns. buf k = str k)"
proof -
  let ?r = "nat (clamp_radix radix)" and ?ds = "if upper then digits_upper else digits_lower"
  define s where "s = (if num = 0 then ''0'' else map (\<lambda>d. ?ds ! d) (digits_rev ?r (unat num)))"
  obtain b n where b: "put_str s (str, 0) = (b, n)" by (cases "put_str s (str, 0)")
  have r2: "2 \<le> unat (of_int (clamp_radix radix) :: u64)"
    using clamp_radix_bounds [of radix] by (simp add: unat_clamp_radix)
  have "(if num = 0 then Some (str(0 := CHR ''0''), 1) else digits_loop ?ds num (of_int (clamp_radix radix)) str 0)
      = Some (b, n)"
  proof (cases "num = 0")
    case True
    then show ?thesis using b by (simp add: s_def put_str_single)
  next
    case False
    then show ?thesis using b digits_loop_spec [OF r2] by (simp add: s_def unat_clamp_radix)
  qed
  then have run: "utoa64 num str radix upper = Some (n, (reverse_str b (int n))(n := NUL))"
    by (simp add: utoa64_def Let_def)
  have "rev s = ns" by (simp add: s_def ns_def num_string_def unat_eq_zero rev_map)
  then have "n = length ns" "cstr ((reverse_str b (int n))(n := NUL)) n = ns"
    using cstr_reverse(1,2) [OF b] by auto
  then show ?thesis using run cstr_reverse(3) [OF b] by simp
qed

lemma itoa64_spec:
  fixes radix :: int and num :: u64
  defines "neg \<equiv> num <s 0 \<and> clamp_radix radix = 10"
  defines "ns \<equiv> (if neg then ''-'' else '''') @ num_string (nat (clamp_radix radix)) False (unat (if neg then - num else num))"
  shows "\<exists>buf. itoa64 num str radix = Some (length ns, buf) \<and> cstr buf (length ns) = ns \<and>
     buf (length ns) = NUL \<and> (\<forall>k > length ns. buf k = str k)"
proof -
  let ?r = "nat (clamp_radix radix)" and ?n = "if neg then - num else num"
  define s where "s = (if ?n = 0 then ''0'' else map (\<lambda>d. digits_lower ! d) (digits_rev ?r (unat ?n)))"
  obtain b n where b: "put_str s (str, 0) = (b, n)" by (cases "put_str s (str, 0)")
  have r2: "2 \<le> unat (of_int (clamp_radix radix) :: u64)"
    using clamp_radix_bounds [of radix] by (simp add: unat_clamp_radix)
  have loop: "(if ?n = 0 then Some (str(0 := CHR ''0''), 1) else digits_loop digits_lower ?n (of_int (clamp_radix radix)) str 0)
      = Some (b, n)"
  proof (cases "?n = 0")
    case True
    then show ?thesis using b by (simp add: s_def put_str_single)
  next
    case False
    then show ?thesis using b digits_loop_spec [OF r2] by (simp add: s_def unat_clamp_radix)
  qed
  define s' where "s' = (if neg then s @ ''-'' else s)"
  obtain b' n' where b': "put_str s' (str, 0) = (b', n')" by (cases "put_str s' (str, 0)")
  have sign: "(if neg then (b(n := CHR ''-''), n + 1) else (b, n)) = (b', n')"
    using b b' put_str_put_str [of "''-''" s "(str, 0)"]
    by (cases neg) (simp_all add: s'_def put_str_single del: put_str_put_str)
  have nn: "- (num + 1) + 1 = - num" by simp
  have run: "itoa64 num str radix = Some (n', (reverse_str b' (int n'))(n' := NUL))"
    unfolding itoa64_def Let_def neg_def [symmetric] nn loop Option.bind.simps prod.case sign ..
  have "rev s' = ns" by (simp add: s'_def s_def ns_def num_string_def unat_eq_zero rev_map)
  then have "n' = length ns" "cstr ((reverse_str b' (int n'))(n' := NUL)) n' = ns"
    using cstr_reverse(1,2) [OF b'] by auto
  then show ?thesis using run cstr_reverse(3) [OF b'] by simp
qed

lemma unat_word_of_int: "\<lbrakk>0 \<le> k; k < 2 ^ 64\<rbrakk> \<Longrightarrow> int (unat (word_of_int k :: u64)) = k"
  by (simp add: uint_nat [symmetric] uint_word_of_int)

lemma sint_neg:
  fixes num :: u64
  assumes "num <s 0"
  shows "int (unat (- num)) = - sint num"
proof -
  have "sint num < 0" using assms by (simp add: word_sless_alt)
  moreover have "- (2 ^ 63) \<le> sint num" using sint_greater_eq [of num] by simp
  ultimately show ?thesis using unat_word_of_int [of "- sint num"] by simp
qed

lemma sint_nonneg:
  fixes num :: u64
  assumes "\<not> num <s 0"
  shows "int (unat num) = sint num"
proof -
  have "0 \<le> sint num" using assms by (simp add: word_sless_alt)
  moreover have "sint num < 2 ^ 63" using sint_less [of num] by simp
  ultimately show ?thesis using unat_word_of_int [of "sint num"] by simp
qed


section \<open>Fields\<close>

lemma map_nth_upt: "n = length s \<Longrightarrow> map (\<lambda>i. s ! i) [0..<n] = s"
  by (simp add: map_nth)

lemma finish_field:
  "\<exists>buf'. (case put_str s (buf, 0) of (buf, pos) \<Rightarrow> Some (pos, buf(pos := NUL))) = Some (length s, buf') \<and>
     cstr buf' (length s) = s \<and> buf' (length s) = NUL \<and> (\<forall>k > length s. buf' k = buf k)"
proof -
  obtain b n where b: "put_str s (buf, 0) = (b, n)" by (cases "put_str s (buf, 0)")
  show ?thesis using put_str_result [OF b] b by simp
qed

lemma digits_rev_last: "\<lbrakk>n \<noteq> 0; 2 \<le> r\<rbrakk> \<Longrightarrow> digits_rev r n \<noteq> [] \<and> last (digits_rev r n) \<noteq> 0"
proof (induction r n rule: digits_rev.induct)
  case (1 r n)
  show ?case
  proof (cases "n div r = 0")
    case True
    then have "n mod r = n" using 1(3) by (auto simp: div_eq_0_iff)
    then show ?thesis using 1 True by (simp add: digits_rev_step)
  next
    case False
    then show ?thesis using 1 by (simp add: digits_rev_step)
  qed
qed

lemma num_string_lead:
  assumes "n \<noteq> 0" "2 \<le> r" "r \<le> 16"
  shows "num_string r u n ! 0 \<noteq> CHR ''0''"
proof -
  note l = digits_rev_last [OF assms(1,2)]
  define d where "d = last (digits_rev r n)"
  have d: "d < 16" "d \<noteq> 0" using l digits_rev_bound [OF assms(2), of d n] assms(3) by (auto simp: d_def)
  have "num_string r u n ! 0 = (if u then digits_upper else digits_lower) ! d"
    using l assms(1) by (simp add: num_string_def d_def rev_nth last_conv_nth)
  moreover have "digit_val CHR ''0'' = 0" by (simp add: digit_val_def)
  ultimately show ?thesis using digit_val_digits [OF d(1)] d(2) by (auto split: if_splits)
qed

text \<open>The layout both number formatters end with: the arguments as the code computes them.\<close>

lemma number_layout:
  fixes spec :: fmt_spec and ns prefix :: string
  assumes zeros: "zeros = (if int (length ns) < (if fs_precision spec < 0 then 1 else fs_precision spec)
      then (if fs_precision spec < 0 then 1 else fs_precision spec) - int (length ns) else 0)"
    and pad: "pad = (if fs_width spec > int (length prefix) + (int (length ns) + zeros)
      then fs_width spec - (int (length prefix) + (int (length ns) + zeros)) else 0)"
    and zp: "zp = (if has_flag spec FMT_FLAG_ZERO \<and> \<not> has_flag spec FMT_FLAG_LEFT \<and> fs_precision spec < 0
        then (pad, 0) else (0, pad))"
  shows "(if \<not> has_flag spec FMT_FLAG_LEFT then replicate (nat (snd zp)) CHR '' '' else []) @ prefix @
     replicate (nat (fst zp)) CHR ''0'' @ replicate (nat zeros) CHR ''0'' @ ns @
     (if has_flag spec FMT_FLAG_LEFT then replicate (nat (snd zp)) CHR '' '' else []) = number_field spec prefix ns"
proof -
  have z: "nat zeros = nat (if fs_precision spec < 0 then 1 else fs_precision spec) - length ns" "0 \<le> zeros"
    unfolding zeros by auto
  then have p: "nat pad = nat (fs_width spec - int (length prefix + nat zeros + length ns))"
    unfolding pad by auto
  show ?thesis
    unfolding number_field_def Let_def length_replicate z(1) [symmetric] p [symmetric] zp by simp
qed

lemma put_if: "(if c then put_str s bp else bp) = put_str (if c then s else []) bp"
  by simp

lemma format_unsigned_spec:
  fixes num :: u64 and spec :: fmt_spec and radix :: int
  assumes "2 \<le> radix" "radix \<le> 16"
  defines "out \<equiv> number_field spec (number_prefix spec radix num)
      (num_string (nat radix) (has_flag spec FMT_FLAG_UPPER) (unat num))"
  shows "\<exists>buf'. format_unsigned num buf radix spec = Some (length out, buf') \<and> cstr buf' (length out) = out \<and>
     buf' (length out) = NUL \<and> (\<forall>k > length out. buf' k = buf k)"
proof -
  let ?u = "has_flag spec FMT_FLAG_UPPER" and ?p = "number_prefix spec radix num"
  define ns where "ns = num_string (nat radix) ?u (unat num)"
  have clamp: "clamp_radix radix = radix" using assms(1,2) by (simp add: clamp_radix_def)
  obtain nb where nb: "utoa64 num (\<lambda>_. NUL) radix ?u = Some (length ns, nb)" "cstr nb (length ns) = ns"
    using utoa64_spec [of num "\<lambda>_. NUL" radix ?u] unfolding clamp ns_def by blast
  have copy: "map nb [0..<0 + length ns] = ns" using nb(2) by (simp add: cstr_def)
  have "nb 0 \<noteq> CHR ''0''" if "num \<noteq> 0"
  proof -
    have "2 \<le> nat radix" using assms(1) by simp
    then have "0 < length ns" using num_string_length(1) [of "nat radix" "unat num" ?u] unfolding ns_def by fastforce
    then have "nb 0 = ns ! 0" using cstr_nth [of 0 "length ns" nb] nb(2) by simp
    then show ?thesis using num_string_lead [of "unat num" "nat radix" ?u] that assms(1,2) by (simp add: ns_def unat_eq_zero)
  qed
  then have pre: "(if has_flag spec FMT_FLAG_HASH
        then if radix = 16 \<and> num \<noteq> 0 then (if ?u then ''0X'' else ''0x'', 2)
             else if radix = 8 \<and> num \<noteq> 0 \<and> nb 0 \<noteq> CHR ''0'' then (''0'', 1)
             else if radix = 2 \<and> num \<noteq> 0 then (if ?u then ''0B'' else ''0b'', 2)
             else ('''', 0)
        else ('''', 0)) = (?p, length ?p)"
    by (simp add: number_prefix_def)
  have copy_prefix: "map (\<lambda>i. ?p ! i) [0..<0 + length ?p] = ?p" by (simp add: map_nth)
  have out: "out = number_field spec ?p ns" by (simp add: out_def ns_def)
  have "format_unsigned num buf radix spec =
      (case put_str out (buf, 0) of (buf, pos) \<Rightarrow> Some (pos, buf(pos := NUL)))"
    unfolding format_unsigned_def nb(1) Let_def Option.bind.simps prod.case pre
    unfolding case_prod_beta put_rep_put_str put_copy_put_str copy copy_prefix
    unfolding put_if
    unfolding put_str_put_str append_assoc append_Nil number_layout [OF refl refl refl] out ..
  then show ?thesis using finish_field [of out buf] by simp
qed


lemma format_signed_spec:
  fixes num :: u64 and spec :: fmt_spec and radix :: int
  assumes "2 \<le> radix" "radix \<le> 16"
  defines "out \<equiv> number_field spec (sign_prefix spec num) (num_string (nat radix) False (unat (if num <s 0 then - num else num)))"
  shows "\<exists>buf'. format_signed num buf radix spec = Some (length out, buf') \<and> cstr buf' (length out) = out \<and>
     buf' (length out) = NUL \<and> (\<forall>k > length out. buf' k = buf k)"
proof -
  let ?n = "if num <s 0 then - num else num" and ?p = "sign_prefix spec num"
  define ns where "ns = num_string (nat radix) False (unat ?n)"
  define sign where "sign = (if num <s 0 then CHR ''-'' else if has_flag spec FMT_FLAG_PLUS then CHR ''+''
              else if has_flag spec FMT_FLAG_SPACE then CHR '' '' else NUL)"
  have clamp: "clamp_radix radix = radix" using assms(1,2) by (simp add: clamp_radix_def)
  obtain nb where nb: "utoa64 ?n (\<lambda>_. NUL) radix False = Some (length ns, nb)" "cstr nb (length ns) = ns"
    using utoa64_spec [of ?n "\<lambda>_. NUL" radix False] unfolding clamp ns_def by blast
  have copy: "map nb [0..<0 + length ns] = ns" using nb(2) by (simp add: cstr_def)
  have nn: "- (num + 1) + 1 = - num" by simp
  have sg: "(if num <s 0 then (CHR ''-'', - num)
        else (if has_flag spec FMT_FLAG_PLUS then CHR ''+''
              else if has_flag spec FMT_FLAG_SPACE then CHR '' '' else NUL, num)) = (sign, ?n)"
    by (simp add: sign_def)
  have len: "(if sign \<noteq> NUL then 1 else 0) = int (length ?p)"
    and put: "(if sign \<noteq> NUL then put_str (replicate 1 sign) bp else bp) = put_str ?p bp" for bp
    by (simp_all add: sign_def sign_prefix_def)
  have out: "out = number_field spec ?p ns" by (simp add: out_def ns_def)
  have "format_signed num buf radix spec =
      (case put_str out (buf, 0) of (buf, pos) \<Rightarrow> Some (pos, buf(pos := NUL)))"
    unfolding format_signed_def Let_def nn sg prod.case nb(1) Option.bind.simps len put_rep_put_str put
    unfolding case_prod_beta put_copy_put_str copy
    unfolding put_if
    unfolding put_str_put_str append_assoc append_Nil number_layout [OF refl refl refl] out ..
  then show ?thesis using finish_field [of out buf] by simp
qed

lemma strlen_loop_spec:
  assumes "\<And>i. \<lbrakk>k \<le> i; i < n\<rbrakk> \<Longrightarrow> str i \<noteq> NUL" "str n = NUL" "k \<le> n"
  shows "strlen_loop str k = Some n"
  using assms
proof (induction "n - k" arbitrary: k)
  case 0
  then show ?case by (subst strlen_loop.simps) simp
next
  case (Suc m)
  then have "strlen_loop str (k + 1) = Some n" by (intro Suc.hyps(1)) auto
  then show ?case using Suc.prems Suc.hyps(2) by (subst strlen_loop.simps) auto
qed

lemma strlen_string_buf: "NUL \<notin> set s \<Longrightarrow> strlen_loop (string_buf s) 0 = Some (length s)"
  by (rule strlen_loop_spec) (auto simp: string_buf_def dest: nth_mem)

lemma put_rep_max_put_str:
  "pos \<le> limit \<Longrightarrow> put_rep_max limit n c (buf, pos) = put_str (take (limit - pos) (replicate n c)) (buf, pos)"
proof (induction n arbitrary: buf pos)
  case (Suc n)
  show ?case
  proof (cases "pos < limit")
    case True
    have "put_rep_max limit (Suc n) c (buf, pos) = put_rep_max limit n c (buf(pos := c), pos + 1)"
      using True by simp
    also have "\<dots> = put_str (take (limit - (pos + 1)) (replicate n c)) (put_str [c] (buf, pos))"
      unfolding put_str_single using True by (intro Suc.IH) simp
    also have "\<dots> = put_str (take (limit - pos) (replicate (Suc n) c)) (buf, pos)"
      using True by (simp add: Suc_diff_Suc [symmetric] del: take_replicate)
    finally show ?thesis .
  qed (use Suc.prems in simp)
qed simp

lemma put_copy_max_put_str:
  "pos \<le> limit \<Longrightarrow> put_copy_max limit n src i (buf, pos) = put_str (take (limit - pos) (map src [i..<i + n])) (buf, pos)"
proof (induction n arbitrary: buf pos i)
  case (Suc n)
  show ?case
  proof (cases "pos < limit")
    case True
    have "put_copy_max limit (Suc n) src i (buf, pos) = put_copy_max limit n src (i + 1) (buf(pos := src i), pos + 1)"
      using True by simp
    also have "\<dots> = put_str (take (limit - (pos + 1)) (map src [i + 1..<i + 1 + n])) (put_str [src i] (buf, pos))"
      unfolding put_str_single using True by (intro Suc.IH) simp
    also have "\<dots> = put_str (take (limit - pos) (map src [i..<i + Suc n])) (buf, pos)"
      using True by (simp add: Suc_diff_Suc [symmetric] upt_conv_Cons del: upt_Suc)
    finally show ?thesis .
  qed (use Suc.prems in simp)
qed simp

text \<open>Bounded output after bounded output is bounded output of the concatenation.\<close>

lemma put_take: "put_str (take L s) (buf, 0) = (b, p) \<Longrightarrow> p = min L (length s)"
  by (auto simp: put_str_def min_def)

lemma put_max_take:
  "put_rep_max L n c (put_str (take L s) (buf, 0)) = put_str (take L (s @ replicate n c)) (buf, 0)"
  "put_copy_max L n src i (put_str (take L s) (buf, 0)) = put_str (take L (s @ map src [i..<i + n])) (buf, 0)"
proof -
  obtain b p where bp: "put_str (take L s) (buf, 0) = (b, p)" by (cases "put_str (take L s) (buf, 0)")
  note p = put_take [OF bp]
  have "L - p = L - length s" using p by simp
  then have eq: "put_str (take (L - p) t) (b, p) = put_str (take L (s @ t)) (buf, 0)" for t
    unfolding bp [symmetric] by (simp add: take_append)
  show "put_rep_max L n c (put_str (take L s) (buf, 0)) = put_str (take L (s @ replicate n c)) (buf, 0)"
    unfolding eq [symmetric] bp using p by (intro put_rep_max_put_str) simp
  show "put_copy_max L n src i (put_str (take L s) (buf, 0)) = put_str (take L (s @ map src [i..<i + n])) (buf, 0)"
    unfolding eq [symmetric] bp using p by (intro put_copy_max_put_str) simp
qed

lemma format_string_spec:
  fixes spec :: fmt_spec and buf_size :: u64
  assumes s: "s = (case str of None \<Rightarrow> ''(null)'' | Some s \<Rightarrow> s)" "NUL \<notin> set s"
  defines "out \<equiv> take (unat (buf_size - 1)) (string_field spec s)"
  shows "\<exists>buf'. format_string (map_option string_buf str) buf buf_size spec = Some (length out, buf') \<and>
     cstr buf' (length out) = out \<and> buf' (length out) = NUL \<and> (\<forall>k > length out. buf' k = buf k)"
proof -
  let ?L = "unat (buf_size - 1)"
  define t where "t = (if fs_precision spec \<ge> 0 then take (nat (fs_precision spec)) s else s)"
  define pad where "pad = nat (fs_width spec) - length t"
  have str: "(case map_option string_buf str of None \<Rightarrow> string_buf ''(null)'' | Some str \<Rightarrow> str) = string_buf s"
    using s(1) by (cases str) simp_all
  have len: "strlen (Some (string_buf s)) = Some (length s)" using strlen_string_buf [OF s(2)] by (simp add: strlen_def)
  have slen: "(if fs_precision spec \<ge> 0 \<and> nat (fs_precision spec) < length s then nat (fs_precision spec) else length s) = length t"
    by (auto simp: t_def min_def)
  have padding: "(if fs_width spec > 0 \<and> nat (fs_width spec) > length t then nat (fs_width spec) - length t else 0) = pad"
    by (auto simp: pad_def)
  have copy: "map (string_buf s) [0..<0 + length t] = t"
    by (rule nth_equalityI) (auto simp: t_def string_buf_def)
  have field: "string_field spec s = (if \<not> has_flag spec FMT_FLAG_LEFT then replicate pad CHR '' '' else []) @ t @
      (if has_flag spec FMT_FLAG_LEFT then replicate pad CHR '' '' else [])"
    by (simp add: string_field_def Let_def t_def pad_def)
  have one: "put_rep_max ?L pad CHR '' '' (buf, 0) = put_str (take ?L (replicate pad CHR '' '')) (buf, 0)"
    "put_copy_max ?L (length t) (string_buf s) 0 (buf, 0) = put_str (take ?L t) (buf, 0)"
    using put_rep_max_put_str [of 0 ?L pad "CHR '' ''" buf] put_copy_max_put_str [of 0 ?L "length t" "string_buf s" 0 buf] copy
    by simp_all
  have "format_string (map_option string_buf str) buf buf_size spec =
      (case put_str out (buf, 0) of (buf, pos) \<Rightarrow> Some (pos, buf(pos := NUL)))"
    unfolding format_string_def Let_def str len Option.bind.simps slen padding out_def field
    by (cases "has_flag spec FMT_FLAG_LEFT")
      (simp_all only: if_True if_False not_True_eq_False not_False_eq_True one put_max_take copy append_Nil append_Nil2)
  then show ?thesis using finish_field [of out buf] by simp
qed

section \<open>Properties\<close>

text \<open>
  C19. \<open>utoa64\<close> is a faithful numeral: for a radix from 2 to 16 it returns, the digits it
  writes read back as the number, at most 64 digits and a terminator are written, and the rest of
  the buffer is untouched.
\<close>

theorem utoa64_roundtrip:
  assumes "2 \<le> radix" "radix \<le> 16"
  shows "\<exists>n buf. utoa64 num str radix uppercase = Some (n, buf) \<and>
     parse_nat (nat radix) (cstr buf n) = unat num \<and> 1 \<le> n \<and> n \<le> 64 \<and> buf n = NUL \<and> (\<forall>k > n. buf k = str k)"
proof -
  have c: "clamp_radix radix = radix" and r: "2 \<le> nat radix" "nat radix \<le> 16"
    using assms by (auto simp: clamp_radix_def)
  have "unat num < 2 ^ 64" by simp
  note len = num_string_length [OF r(1) this]
  show ?thesis
    using utoa64_spec [of num str radix uppercase] parse_num_string [OF r] len unfolding c by metis
qed

theorem utoa64_roundtrip_witness:
  "\<exists>n buf. utoa64 0xBEEF (\<lambda>_. NUL) 16 False = Some (n, buf) \<and>
     parse_nat (nat 16) (cstr buf n) = unat (0xBEEF :: u64) \<and> 1 \<le> n \<and> n \<le> 64 \<and> buf n = NUL \<and> (\<forall>k > n. buf k = NUL)"
  by (rule utoa64_roundtrip) simp_all

text \<open>
  \<open>itoa64\<close> in radix 10 writes every signed number, the smallest one included, so
  that it reads back as its value.
\<close>

lemma parse_int_num_string: "parse_int (num_string 10 False n) = int n"
proof -
  obtain c s where cs: "num_string 10 False n = c # s"
    using digits_rev_last [of n 10] by (cases "num_string 10 False n") (auto simp: num_string_def split: if_splits)
  moreover have "c \<noteq> CHR ''-''" using num_string_chars [of 10 c False n] cs by simp
  ultimately show ?thesis using parse_num_string [of 10 False n] by (simp add: parse_int_def)
qed

theorem itoa64_roundtrip:
  "\<exists>n buf. itoa64 num str 10 = Some (n, buf) \<and> parse_int (cstr buf n) = sint num \<and> buf n = NUL"
proof -
  have c: "clamp_radix 10 = 10" by (simp add: clamp_radix_def)
  define ns where "ns = (if num <s 0 then ''-'' else '''') @ num_string 10 False (unat (if num <s 0 then - num else num))"
  have "parse_int ns = sint num"
  proof (cases "num <s 0")
    case True
    then show ?thesis using parse_num_string [of 10 False "unat (- num)"] sint_neg [OF True] by (simp add: ns_def parse_int_def True)
  next
    case False
    then show ?thesis using parse_int_num_string [of "unat num"] sint_nonneg [OF False] by (simp add: ns_def)
  qed
  moreover obtain buf where "itoa64 num str 10 = Some (length ns, buf)" "cstr buf (length ns) = ns" "buf (length ns) = NUL"
    using itoa64_spec [where num = num and radix = 10 and str = str]
    by (auto simp: c ns_def)
  ultimately show ?thesis by auto
qed

text \<open>
  C21. \<open>format_unsigned\<close> writes exactly the field the format asks for: prefix, precision
  zeros and digits, padded to the width with spaces on the left or right or with zeros after the prefix.
\<close>

theorem format_unsigned_field:
  assumes "2 \<le> radix" "radix \<le> 16"
  shows "\<exists>n buf'. format_unsigned num buf radix spec = Some (n, buf') \<and>
     cstr buf' n = number_field spec (number_prefix spec radix num)
        (num_string (nat radix) (has_flag spec FMT_FLAG_UPPER) (unat num)) \<and>
     buf' n = NUL \<and> (\<forall>k > n. buf' k = buf k)"
  using format_unsigned_spec [OF assms, of num buf spec] by metis

theorem format_unsigned_field_witness:
  "\<exists>n buf'. format_unsigned 255 (\<lambda>_. NUL) 16 \<lparr>fs_flags = FMT_FLAG_HASH, fs_width = 8, fs_precision = -1, fs_length = FMT_LEN_DEFAULT\<rparr>
       = Some (n, buf') \<and>
     cstr buf' n = number_field \<lparr>fs_flags = FMT_FLAG_HASH, fs_width = 8, fs_precision = -1, fs_length = FMT_LEN_DEFAULT\<rparr>
        (number_prefix \<lparr>fs_flags = FMT_FLAG_HASH, fs_width = 8, fs_precision = -1, fs_length = FMT_LEN_DEFAULT\<rparr> 16 255)
        (num_string (nat 16) (has_flag \<lparr>fs_flags = FMT_FLAG_HASH, fs_width = 8, fs_precision = -1, fs_length = FMT_LEN_DEFAULT\<rparr> FMT_FLAG_UPPER) (unat (255 :: u64))) \<and>
     buf' n = NUL \<and> (\<forall>k > n. buf' k = NUL)"
  by (rule format_unsigned_field) simp_all

text \<open>
  C22. The field is never shorter than the width, so a width of 256 or more makes
  \<open>format_signed\<close> write past the 256-byte buffers \<open>printf\<close> and \<open>serial_printf\<close> pass to it.
\<close>

lemma number_field_width: "fs_width spec \<le> int (length (number_field spec prefix ns))"
  by (simp add: number_field_def Let_def)

theorem format_signed_overflow:
  assumes "256 \<le> fs_width spec"
  shows "\<exists>n buf'. format_signed num buf 10 spec = Some (n, buf') \<and> 256 \<le> n \<and> buf' n = NUL"
proof -
  define out where "out = number_field spec (sign_prefix spec num) (num_string (nat 10) False (unat (if num <s 0 then - num else num)))"
  have "fs_width spec \<le> int (length out)" unfolding out_def by (rule number_field_width)
  then have "256 \<le> length out" using assms by linarith
  moreover have "\<exists>buf'. format_signed num buf 10 spec = Some (length out, buf') \<and> cstr buf' (length out) = out \<and>
     buf' (length out) = NUL \<and> (\<forall>k > length out. buf' k = buf k)"
    unfolding out_def by (rule format_signed_spec) simp_all
  ultimately show ?thesis by blast
qed

theorem format_signed_overflow_witness:
  "\<exists>n buf'. format_signed 7 (\<lambda>_. CHR ''x'') 10 \<lparr>fs_flags = 0, fs_width = 300, fs_precision = -1, fs_length = FMT_LEN_DEFAULT\<rparr>
     = Some (n, buf') \<and> 256 \<le> n \<and> buf' n = NUL"
  by (rule format_signed_overflow) simp

text \<open>
  C23. \<open>format_string\<close> with a non-empty buffer stays inside it: it writes a prefix of the
  padded string and the terminator, at most \<open>buf_size\<close> characters in all, and a NULL string is shown as
  \<^verbatim>\<open>(null)\<close>.
\<close>

theorem format_string_bounded:
  assumes "s = (case str of None \<Rightarrow> ''(null)'' | Some s \<Rightarrow> s)" "NUL \<notin> set s" "buf_size \<noteq> 0"
  shows "\<exists>n buf'. format_string (map_option string_buf str) buf buf_size spec = Some (n, buf') \<and>
     n < unat buf_size \<and> cstr buf' n = take (unat buf_size - 1) (string_field spec s) \<and>
     buf' n = NUL \<and> (\<forall>k \<ge> unat buf_size. buf' k = buf k)"
proof -
  have sz: "unat (buf_size - 1) = unat buf_size - 1" "0 < unat buf_size"
    using assms(3) by (simp_all add: unat_minus_one unat_gt_0)
  define out where "out = take (unat buf_size - 1) (string_field spec s)"
  obtain buf' where "format_string (map_option string_buf str) buf buf_size spec = Some (length out, buf')"
    "cstr buf' (length out) = out" "buf' (length out) = NUL" "\<And>k. k > length out \<Longrightarrow> buf' k = buf k"
    using format_string_spec [OF assms(1,2), of buf buf_size spec] unfolding sz(1) out_def by metis
  moreover have "length out < unat buf_size" using sz(2) by (simp add: out_def)
  ultimately show ?thesis unfolding out_def by (intro exI [of _ "length out"] exI [of _ buf']) (auto simp: out_def)
qed

theorem format_string_bounded_witness:
  "\<exists>n buf'. format_string (map_option string_buf (Some ''ShipOS'')) (\<lambda>_. CHR ''x'') 4
       \<lparr>fs_flags = 0, fs_width = -1, fs_precision = -1, fs_length = FMT_LEN_DEFAULT\<rparr> = Some (n, buf') \<and>
     n < unat (4 :: u64) \<and> cstr buf' n = take (unat (4 :: u64) - 1)
        (string_field \<lparr>fs_flags = 0, fs_width = -1, fs_precision = -1, fs_length = FMT_LEN_DEFAULT\<rparr> ''ShipOS'') \<and>
     buf' n = NUL \<and> (\<forall>k \<ge> unat (4 :: u64). buf' k = CHR ''x'')"
  by (rule format_string_bounded) simp_all

end
