(* ===== verification/Format.thy ===== *)
theory Format
  imports StrUtils
begin

text \<open>
  The format-string interpreter of \<open>printf\<close> (\<^verbatim>\<open>kernel/tty/tty.c\<close>), which \<open>serial_printf\<close>
  (\<^verbatim>\<open>kernel/serial/serial.c\<close>) repeats line by line. It is split where the comments of
  the source split it: flags, width, precision, length modifier, conversion. The result is the sequence
  of output calls; the terminal and the serial driver interpret them. A variadic argument is the 64-bit
  slot of an integer or pointer, or the string a \<open>char *\<close> points to (\<open>None\<close> for NULL); \<open>None\<close> as
  a result means that the arguments do not fit the format or a field overruns the buffer, which C leaves
  undefined.
\<close>

section \<open>Definitions\<close>

unbundle bit_operations_syntax

datatype vararg =
    ANum u64
  | AStr "string option"

text \<open>
  The output calls: one character of the format (or padding), a formatted buffer, the
  argument of \<open>%c\<close>, and an unknown conversion character.
\<close>

datatype outcall =
    OChar char
  | OStr string
  | OArg char
  | OUnknown char

fun next_num :: "vararg list \<Rightarrow> (u64 \<times> vararg list) option" where
  "next_num (ANum n # args) = Some (n, args)"
| "next_num _ = None"

fun next_str :: "vararg list \<Rightarrow> (string option \<times> vararg list) option" where
  "next_str (AStr s # args) = Some (s, args)"
| "next_str _ = None"

definition arg_int :: "u64 \<Rightarrow> int" where
  "arg_int n = sint (ucast n :: u32)"

fun parse_flags :: "u32 \<Rightarrow> string \<Rightarrow> u32 \<times> string" where
  "parse_flags flags [] = (flags, [])"
| "parse_flags flags (c # f) =
     (if c = CHR ''-'' then parse_flags (flags OR FMT_FLAG_LEFT) f
      else if c = CHR ''+'' then parse_flags (flags OR FMT_FLAG_PLUS) f
      else if c = CHR '' '' then parse_flags (flags OR FMT_FLAG_SPACE) f
      else if c = CHR ''#'' then parse_flags (flags OR FMT_FLAG_HASH) f
      else if c = CHR ''0'' then parse_flags (flags OR FMT_FLAG_ZERO) f
      else (flags, c # f))"

definition is_digit :: "char \<Rightarrow> bool" where
  "is_digit c \<longleftrightarrow> 48 \<le> (of_char c :: nat) \<and> (of_char c :: nat) \<le> 57"

text \<open>
  The digits of a width or a precision. The accumulator is an \<open>int\<close> of 32 bits: a number above its maximum overflows, which C
  leaves undefined (\<open>None\<close>).
\<close>

definition INT_MAX :: int where
  [simp]: "INT_MAX = 2147483647"

fun parse_digits :: "int \<Rightarrow> string \<Rightarrow> (int \<times> string) option" where
  "parse_digits acc [] = Some (acc, [])"
| "parse_digits acc (c # f) =
     (if is_digit c then
        let acc = acc * 10 + (of_char c - 48)
        in if acc > INT_MAX then None else parse_digits acc f
      else Some (acc, c # f))"

text \<open>A line logged on the serial port: the arguments of the \<open>serial_printf\<close> call of \<^verbatim>\<open>logging.h\<close>.\<close>

type_synonym log_line = "string \<times> vararg list"

definition LOG_SERIAL :: "string \<Rightarrow> string \<Rightarrow> vararg list \<Rightarrow> log_line" where
  "LOG_SERIAL logger format args = (''['' @ logger @ ''] '' @ format @ [CHR 0x0D, CHR 0x0A], args)"

text \<open>\<open>*format\<close> and \<open>format++\<close>: the terminator ends the list.\<close>

definition peek :: "string \<Rightarrow> char" where
  "peek f = (case f of [] \<Rightarrow> NUL | c # _ \<Rightarrow> c)"

abbreviation advance :: "string \<Rightarrow> string" where
  "advance f \<equiv> tl f"

definition parse_width :: "fmt_spec \<Rightarrow> string \<Rightarrow> vararg list \<Rightarrow> (fmt_spec \<times> string \<times> vararg list) option" where
  "parse_width spec f args =
     (if peek f = CHR ''*'' then do {
        (n, args) \<leftarrow> next_num args;
        let w = arg_int n;
        if - w > INT_MAX then None
        else do {
          let spec = (if w < 0 then spec\<lparr>fs_flags := fs_flags spec OR FMT_FLAG_LEFT, fs_width := - w\<rparr>
                      else spec\<lparr>fs_width := w\<rparr>);
          Some (spec, advance f, args)
        }
      }
      else do {
        (w, f) \<leftarrow> parse_digits 0 f;
        Some (spec\<lparr>fs_width := (if w = 0 then -1 else w)\<rparr>, f, args)
      })"

definition parse_precision :: "fmt_spec \<Rightarrow> string \<Rightarrow> vararg list \<Rightarrow> (fmt_spec \<times> string \<times> vararg list) option" where
  "parse_precision spec f args =
     (if peek f = CHR ''.'' then
        let f = advance f in
        if peek f = CHR ''*'' then do {
          (n, args) \<leftarrow> next_num args;
          let p = arg_int n;
          Some (spec\<lparr>fs_precision := (if p < 0 then -1 else p)\<rparr>, advance f, args)
        }
        else do {
          (p, f) \<leftarrow> parse_digits 0 f;
          Some (spec\<lparr>fs_precision := p\<rparr>, f, args)
        }
      else Some (spec, f, args))"

definition parse_length :: "fmt_spec \<Rightarrow> string \<Rightarrow> fmt_spec \<times> string" where
  "parse_length spec f =
     (if peek f = CHR ''h'' then
        let f = advance f in
        if peek f = CHR ''h'' then (spec\<lparr>fs_length := FMT_LEN_HH\<rparr>, advance f)
        else (spec\<lparr>fs_length := FMT_LEN_H\<rparr>, f)
      else if peek f = CHR ''l'' then
        let f = advance f in
        if peek f = CHR ''l'' then (spec\<lparr>fs_length := FMT_LEN_LL\<rparr>, advance f)
        else (spec\<lparr>fs_length := FMT_LEN_L\<rparr>, f)
      else if peek f = CHR ''z'' then (spec\<lparr>fs_length := FMT_LEN_Z\<rparr>, advance f)
      else (spec, f))"

definition parse_spec :: "string \<Rightarrow> vararg list \<Rightarrow> (fmt_spec \<times> string \<times> vararg list) option" where
  "parse_spec f args = do {
     let spec = \<lparr>fs_flags = 0, fs_width = -1, fs_precision = -1, fs_length = FMT_LEN_DEFAULT\<rparr>;
     let (flags, f) = parse_flags 0 f;
     let spec = spec\<lparr>fs_flags := flags\<rparr>;
     (spec, f, args) \<leftarrow> parse_width spec f args;
     (spec, f, args) \<leftarrow> parse_precision spec f args;
     let (spec, f) = parse_length spec f;
     Some (spec, f, args)
   }"

definition signed_arg :: "fmt_length \<Rightarrow> u64 \<Rightarrow> u64" where
  "signed_arg len n =
     (case len of
        FMT_LEN_HH \<Rightarrow> scast (ucast n :: u8)
      | FMT_LEN_H \<Rightarrow> scast (ucast n :: u16)
      | FMT_LEN_L \<Rightarrow> n
      | FMT_LEN_LL \<Rightarrow> n
      | FMT_LEN_Z \<Rightarrow> n
      | FMT_LEN_DEFAULT \<Rightarrow> scast (ucast n :: u32))"

definition unsigned_arg :: "fmt_length \<Rightarrow> u64 \<Rightarrow> u64" where
  "unsigned_arg len n =
     (case len of
        FMT_LEN_HH \<Rightarrow> ucast (ucast n :: u8)
      | FMT_LEN_H \<Rightarrow> ucast (ucast n :: u16)
      | FMT_LEN_L \<Rightarrow> n
      | FMT_LEN_LL \<Rightarrow> n
      | FMT_LEN_Z \<Rightarrow> n
      | FMT_LEN_DEFAULT \<Rightarrow> ucast (ucast n :: u32))"

text \<open>
  \<open>print(buf)\<close>: the characters up to the terminator. The buffer has 256 characters: a conversion that
  wrote its terminator past the end has overrun the stack, which has no defined result.
\<close>

definition buf_size :: nat where
  [simp]: "buf_size = 256"

definition buf_text :: "nat \<times> cbuf \<Rightarrow> (string \<times> cbuf) option" where
  "buf_text r = (case r of (n, buf) \<Rightarrow>
     if n < buf_size then map_option (\<lambda>len. (cstr buf len, buf)) (strlen_loop buf 0) else None)"

definition put_unsigned ::
  "fmt_spec \<Rightarrow> int \<Rightarrow> u64 \<Rightarrow> vararg list \<Rightarrow> cbuf \<Rightarrow> (outcall list \<times> vararg list \<times> cbuf) option" where
  "put_unsigned spec radix val args buf = do {
     r \<leftarrow> format_unsigned val buf radix spec;
     (s, buf) \<leftarrow> buf_text r;
     Some ([OStr s], args, buf)
   }"

definition convert_unsigned ::
  "fmt_spec \<Rightarrow> int \<Rightarrow> vararg list \<Rightarrow> cbuf \<Rightarrow> (outcall list \<times> vararg list \<times> cbuf) option" where
  "convert_unsigned spec radix args buf = do {
     (n, args) \<leftarrow> next_num args;
     put_unsigned spec radix (unsigned_arg (fs_length spec) n) args buf
   }"

definition convert_signed ::
  "fmt_spec \<Rightarrow> vararg list \<Rightarrow> cbuf \<Rightarrow> (outcall list \<times> vararg list \<times> cbuf) option" where
  "convert_signed spec args buf = do {
     (n, args) \<leftarrow> next_num args;
     r \<leftarrow> format_signed (signed_arg (fs_length spec) n) buf 10 spec;
     (s, buf) \<leftarrow> buf_text r;
     Some ([OStr s], args, buf)
   }"

definition convert_pointer ::
  "fmt_spec \<Rightarrow> vararg list \<Rightarrow> cbuf \<Rightarrow> (outcall list \<times> vararg list \<times> cbuf) option" where
  "convert_pointer spec args buf = do {
     (val, args) \<leftarrow> next_num args;
     let spec = spec\<lparr>fs_flags := fs_flags spec OR FMT_FLAG_HASH\<rparr>;
     let spec = (if fs_precision spec < 0 then spec\<lparr>fs_precision := 1\<rparr> else spec);
     put_unsigned spec 16 val args buf
   }"

definition convert_string ::
  "fmt_spec \<Rightarrow> vararg list \<Rightarrow> cbuf \<Rightarrow> (outcall list \<times> vararg list \<times> cbuf) option" where
  "convert_string spec args buf = do {
     (str, args) \<leftarrow> next_str args;
     r \<leftarrow> format_string (map_option string_buf str) buf (of_nat buf_size) spec;
     (s, buf) \<leftarrow> buf_text r;
     Some ([OStr s], args, buf)
   }"

definition convert_char ::
  "fmt_spec \<Rightarrow> vararg list \<Rightarrow> cbuf \<Rightarrow> (outcall list \<times> vararg list \<times> cbuf) option" where
  "convert_char spec args buf = do {
     (n, args) \<leftarrow> next_num args;
     let c = char_of (unat (ucast n :: u8));
     let pad = (if fs_width spec > 1 then replicate (nat (fs_width spec - 1)) (OChar CHR '' '') else []);
     let left = has_flag spec FMT_FLAG_LEFT;
     Some ((if left then [] else pad) @ [OArg c] @ (if left then pad else []), args, buf)
   }"

definition convert ::
  "fmt_spec \<Rightarrow> char \<Rightarrow> vararg list \<Rightarrow> cbuf \<Rightarrow> (outcall list \<times> vararg list \<times> cbuf) option" where
  "convert spec c args buf =
     (if c = CHR ''d'' \<or> c = CHR ''i'' then convert_signed spec args buf
      else if c = CHR ''u'' then convert_unsigned spec 10 args buf
      else if c = CHR ''x'' \<or> c = CHR ''X''
      then convert_unsigned (if c = CHR ''X'' then spec\<lparr>fs_flags := fs_flags spec OR FMT_FLAG_UPPER\<rparr> else spec) 16 args buf
      else if c = CHR ''o'' then convert_unsigned spec 8 args buf
      else if c = CHR ''b'' then convert_unsigned spec 2 args buf
      else if c = CHR ''p'' then convert_pointer spec args buf
      else if c = CHR ''s'' then convert_string spec args buf
      else if c = CHR ''c'' then convert_char spec args buf
      else if c = CHR ''n'' then Some ([], args, buf)
      else Some (OChar CHR ''%'' # (if c \<noteq> NUL then [OUnknown c] else []), args, buf))"

lemma parse_flags_length: "parse_flags flags f = (flags', f') \<Longrightarrow> length f' \<le> length f"
  by (induction flags f rule: parse_flags.induct) (auto split: if_splits)

lemma parse_digits_length: "parse_digits acc f = Some (n, f') \<Longrightarrow> length f' \<le> length f"
  by (induction acc f rule: parse_digits.induct) (auto simp: Let_def split: if_splits)

lemma parse_width_length: "parse_width spec f args = Some (spec', f', args') \<Longrightarrow> length f' \<le> length f"
  unfolding parse_width_def
  by (auto split: if_splits prod.splits simp: bind_eq_Some_conv Let_def dest!: parse_digits_length)

lemma parse_precision_length: "parse_precision spec f args = Some (spec', f', args') \<Longrightarrow> length f' \<le> length f"
  unfolding parse_precision_def
  by (auto split: if_splits prod.splits simp: bind_eq_Some_conv Let_def dest!: parse_digits_length)

lemma parse_length_length: "parse_length spec f = (spec', f') \<Longrightarrow> length f' \<le> length f"
  unfolding parse_length_def by (auto split: if_splits simp: Let_def)

lemma parse_spec_length:
  assumes "parse_spec f args = Some (spec, f', args')"
  shows "length f' \<le> length f"
proof -
  obtain flags f1 where f1: "parse_flags 0 f = (flags, f1)" by fastforce
  from assms f1 obtain s2 f2 a2 s3 f3 where "parse_width \<lparr>fs_flags = flags, fs_width = -1, fs_precision = -1, fs_length = FMT_LEN_DEFAULT\<rparr> f1 args = Some (s2, f2, a2)"
    "parse_precision s2 f2 a2 = Some (s3, f3, args')" "parse_length s3 f3 = (spec, f')"
    by (simp add: parse_spec_def bind_eq_Some_conv case_prod_beta) (metis prod.collapse)
  from parse_flags_length [OF f1] parse_width_length [OF this(1)] parse_precision_length [OF this(2)]
    parse_length_length [OF this(3)]
  show ?thesis by simp
qed

text \<open>
  The loop of \<open>printf\<close>. The buffer keeps what earlier conversions left in it; its initial contents are
  unspecified and an argument here.
\<close>

function (sequential) printf_loop :: "string \<Rightarrow> vararg list \<Rightarrow> cbuf \<Rightarrow> outcall list option" where
  "printf_loop [] args buf = Some []"
| "printf_loop (c # f) args buf =
     (if c \<noteq> CHR ''%'' then do {
        outs \<leftarrow> printf_loop f args buf;
        Some (OChar c # outs)
      }
      else if peek f = CHR ''%'' then do {
        outs \<leftarrow> printf_loop (advance f) args buf;
        Some (OChar CHR ''%'' # outs)
      }
      else do {
        (spec, f', args) \<leftarrow> parse_spec f args;
        (outs, args, buf) \<leftarrow> convert spec (peek f') args buf;
        outs' \<leftarrow> printf_loop (advance f') args buf;
        Some (outs @ outs')
      })"
  by pat_completeness auto
termination
  by (relation "measure (\<lambda>(f, _, _). length f)") (auto dest!: parse_spec_length)

declare printf_loop.simps(2) [simp del]

section \<open>Reference definitions\<close>

text \<open>
  The text of a conversion specification, the inverse of \<^const>\<open>parse_spec\<close>; the text of
  the output calls.
\<close>

definition flag_string :: "u32 \<Rightarrow> string" where
  "flag_string flags =
     (if flags AND FMT_FLAG_LEFT \<noteq> 0 then ''-'' else '''') @
     (if flags AND FMT_FLAG_PLUS \<noteq> 0 then ''+'' else '''') @
     (if flags AND FMT_FLAG_SPACE \<noteq> 0 then '' '' else '''') @
     (if flags AND FMT_FLAG_HASH \<noteq> 0 then ''#'' else '''') @
     (if flags AND FMT_FLAG_ZERO \<noteq> 0 then ''0'' else '''')"

definition length_string :: "fmt_length \<Rightarrow> string" where
  "length_string len =
     (case len of FMT_LEN_DEFAULT \<Rightarrow> '''' | FMT_LEN_HH \<Rightarrow> ''hh'' | FMT_LEN_H \<Rightarrow> ''h''
      | FMT_LEN_L \<Rightarrow> ''l'' | FMT_LEN_LL \<Rightarrow> ''ll'' | FMT_LEN_Z \<Rightarrow> ''z'')"

definition spec_string :: "fmt_spec \<Rightarrow> string" where
  "spec_string spec =
     flag_string (fs_flags spec) @
     (if fs_width spec = -1 then '''' else num_string 10 False (nat (fs_width spec))) @
     (if fs_precision spec = -1 then '''' else CHR ''.'' # num_string 10 False (nat (fs_precision spec))) @
     length_string (fs_length spec)"

definition spec_ok :: "fmt_spec \<Rightarrow> bool" where
  "spec_ok spec \<longleftrightarrow> fs_flags spec < 32 \<and> (fs_width spec = -1 \<or> 0 < fs_width spec \<and> fs_width spec \<le> INT_MAX) \<and>
     -1 \<le> fs_precision spec \<and> fs_precision spec \<le> INT_MAX"

definition is_conv :: "char \<Rightarrow> bool" where
  "is_conv c \<longleftrightarrow> c \<in> set ''diuxXobpscn''"

definition out_text :: "outcall \<Rightarrow> string" where
  "out_text out = (case out of OChar c \<Rightarrow> [c] | OStr s \<Rightarrow> s | OArg c \<Rightarrow> [c] | OUnknown c \<Rightarrow> [c])"

definition printf_text :: "string \<Rightarrow> vararg list \<Rightarrow> cbuf \<Rightarrow> string option" where
  "printf_text f args buf = map_option (\<lambda>outs. concat (map out_text outs)) (printf_loop f args buf)"

section \<open>Parsing a conversion specification\<close>

lemma peek_simps [simp]: "peek [] = NUL" "peek (c # f) = c"
  by (simp_all add: peek_def)

lemma peek_append: "peek (s @ f) = (if s = [] then peek f else hd s)"
  by (cases s) simp_all

lemma flag_string_value:
  fixes flags :: u32
  assumes "flags < 32"
  shows "(if flags AND 1 \<noteq> 0 then 1 else 0) OR (if flags AND 2 \<noteq> 0 then 2 else 0) OR
     (if flags AND 4 \<noteq> 0 then 4 else 0) OR (if flags AND 8 \<noteq> 0 then 8 else 0) OR
     (if flags AND 16 \<noteq> 0 then 16 else 0) = flags"
proof -
  have l: "[0..<32] = [0,1,2,3,4,5,6,7,8,9,10,11,12,13,14,15,16,17,18,19,20,21,22,23,24,25,26,27,28,29,30,31]" by code_simp
  have "unat flags \<in> set [0..<32]" using assms by (simp add: word_less_nat_alt)
  then have "unat flags \<in> {0,1,2,3,4,5,6,7,8,9,10,11,12,13,14,15,16,17,18,19,20,21,22,23,24,25,26,27,28,29,30,31}"
    unfolding l by simp
  then have "flags \<in> of_nat ` {0,1,2,3,4,5,6,7,8,9,10,11,12,13,14,15,16,17,18,19,20,21,22,23,24,25,26,27,28,29,30,31}"
    by (intro image_eqI [of _ _ "unat flags"]) simp_all
  then show ?thesis by (elim imageE insertE emptyE) simp_all
qed

lemma parse_flags_string:
  assumes "flags < 32" "peek f \<notin> set ''-+ #0''"
  shows "parse_flags 0 (flag_string flags @ f) = (flags, f)"
proof -
  have rest: "parse_flags fl f = (fl, f)" for fl using assms(2) by (cases f) simp_all
  have "parse_flags 0 (flag_string flags @ f) =
     ((if flags AND 1 \<noteq> 0 then 1 else 0) OR (if flags AND 2 \<noteq> 0 then 2 else 0) OR
     (if flags AND 4 \<noteq> 0 then 4 else 0) OR (if flags AND 8 \<noteq> 0 then 8 else 0) OR
     (if flags AND 16 \<noteq> 0 then 16 else 0), f)"
    by (simp add: flag_string_def rest or.assoc split del: if_split) (simp add: rest or.assoc)
  then show ?thesis using flag_string_value [OF assms(1)] by simp
qed

lemma foldl_digits_ge: "0 \<le> a \<Longrightarrow> a \<le> foldl (\<lambda>a c. a * 10 + int (digit_val c)) a s"
proof (induction s arbitrary: a)
  case (Cons c s)
  have "a \<le> a * 10 + int (digit_val c)" using Cons.prems by simp
  also have "\<dots> \<le> foldl (\<lambda>a c. a * 10 + int (digit_val c)) (a * 10 + int (digit_val c)) s"
    using Cons.prems by (intro Cons.IH) simp
  finally show ?case by simp
qed simp

lemma parse_digits_append:
  "\<lbrakk>\<forall>c \<in> set s. is_digit c; \<not> is_digit (peek f); 0 \<le> acc; foldl (\<lambda>a c. a * 10 + int (digit_val c)) acc s \<le> INT_MAX\<rbrakk> \<Longrightarrow>
    parse_digits acc (s @ f) = Some (foldl (\<lambda>a c. a * 10 + int (digit_val c)) acc s, f)"
proof (induction s arbitrary: acc)
  case Nil
  then show ?case by (cases f) simp_all
next
  case (Cons c s)
  let ?acc = "acc * 10 + int (digit_val c)"
  have "(of_char c :: int) - 48 = int (digit_val c)" using Cons.prems(1) by (simp add: is_digit_def digit_val_def Let_def of_char_def)
  moreover have "?acc \<le> INT_MAX" using foldl_digits_ge [of ?acc s] Cons.prems(3,4) by simp
  ultimately show ?case using Cons by simp
qed

lemma digits_lower_is_digit: "d < 10 \<Longrightarrow> is_digit (digits_lower ! d)"
  by (auto simp: less_Suc_eq numeral_eq_Suc digits_lower_def is_digit_def)

lemma num_string_digits: "\<forall>c \<in> set (num_string 10 False n). is_digit c"
  using digits_rev_bound [of 10 _ n] digits_lower_is_digit
  by (auto simp: num_string_def is_digit_def [of "CHR ''0''"])

lemma num_string_nonempty [simp]: "2 \<le> r \<Longrightarrow> num_string r u n \<noteq> []"
  using digits_rev_last [of n r] by (cases "n = 0") (simp_all add: num_string_def)

lemma parse_digits_num_string:
  assumes "\<not> is_digit (peek f)" "int n \<le> INT_MAX"
  shows "parse_digits 0 (num_string 10 False n @ f) = Some (int n, f)"
proof -
  have "foldl (\<lambda>a c. a * 10 + int (digit_val c)) (int a) s = int (foldl (\<lambda>a c. a * 10 + digit_val c) a s)" for s a
  proof (induction s arbitrary: a)
    case (Cons c s)
    show ?case using Cons [of "a * 10 + digit_val c"] by simp
  qed simp
  from this [of 0 "num_string 10 False n"] show ?thesis
    using parse_digits_append [OF num_string_digits assms(1), of 0 n] assms(2) parse_num_string [of 10 False n] by (simp add: parse_nat_def)
qed

lemma parse_width_string:
  assumes "w = -1 \<or> 0 < w \<and> w \<le> INT_MAX" "\<not> is_digit (peek f)" "peek f \<noteq> CHR ''*''"
  shows "parse_width spec ((if w = -1 then '''' else num_string 10 False (nat w)) @ f) args = Some (spec\<lparr>fs_width := w\<rparr>, f, args)"
proof (cases "w = -1")
  case True
  have "parse_digits 0 f = Some (0, f)" using assms(2) by (cases f) simp_all
  then show ?thesis using True assms(3) by (simp add: parse_width_def)
next
  case False
  have "is_digit (hd (num_string 10 False (nat w)))" using num_string_digits [of "nat w"] by simp
  then have "peek (num_string 10 False (nat w) @ f) \<noteq> CHR ''*''" by (auto simp: peek_append is_digit_def)
  then show ?thesis using False assms(1) parse_digits_num_string [OF assms(2), of "nat w"] by (simp add: parse_width_def)
qed

lemma parse_precision_string:
  assumes "-1 \<le> p" "p \<le> INT_MAX" "\<not> is_digit (peek f)" "peek f \<noteq> CHR ''.''" "fs_precision spec = -1"
  shows "parse_precision spec ((if p = -1 then '''' else CHR ''.'' # num_string 10 False (nat p)) @ f) args = Some (spec\<lparr>fs_precision := p\<rparr>, f, args)"
proof (cases "p = -1")
  case True
  then show ?thesis using assms by (simp add: parse_precision_def)
next
  case False
  have "is_digit (hd (num_string 10 False (nat p)))" using num_string_digits [of "nat p"] by simp
  then have "peek (num_string 10 False (nat p) @ f) \<noteq> CHR ''*''" by (auto simp: peek_append is_digit_def)
  then show ?thesis using False assms(1,2) parse_digits_num_string [OF assms(3), of "nat p"] by (simp add: parse_precision_def)
qed

lemma parse_length_string:
  assumes "peek f \<notin> set ''hlz''" "fs_length spec = FMT_LEN_DEFAULT"
  shows "parse_length spec (length_string len @ f) = (spec\<lparr>fs_length := len\<rparr>, f)"
  using assms by (cases len) (simp_all add: parse_length_def length_string_def)

lemma is_conv_char:
  assumes "is_conv c"
  shows "\<not> is_digit c" "c \<notin> set ''-+ #0*.hlz%''"
  using assms by (auto simp: is_conv_def is_digit_def)

lemma peek_length_string:
  assumes "is_conv c"
  shows "\<not> is_digit (peek (length_string len @ c # f))" "peek (length_string len @ c # f) \<notin> set ''-+ #0*.%''"
  using is_conv_char [OF assms] by (cases len; simp add: length_string_def is_digit_def)+

lemma peek_num_string:
  "peek (num_string 10 False n @ f) \<notin> set ''-+ #*.%''" "0 < n \<Longrightarrow> peek (num_string 10 False n @ f) \<noteq> CHR ''0''"
proof -
  have "is_digit (hd (num_string 10 False n))" using num_string_digits [of n] by simp
  then show "peek (num_string 10 False n @ f) \<notin> set ''-+ #*.%''" by (auto simp: peek_append is_digit_def)
  show "peek (num_string 10 False n @ f) \<noteq> CHR ''0''" if "0 < n"
    using num_string_lead [of n 10 False] that by (simp add: peek_append hd_conv_nth)
qed

text \<open>Each part of a specification starts with a character the parser of the part before stops at.\<close>

lemma peek_precision:
  fixes p :: int and len :: fmt_length and g :: string
  assumes "is_conv c"
  defines "f \<equiv> (if p = -1 then '''' else CHR ''.'' # num_string 10 False (nat p)) @ length_string len @ c # g"
  shows "\<not> is_digit (peek f)" "peek f \<notin> set ''-+ #0*%''"
  using peek_length_string [OF assms(1), of len g] by (cases "p = -1"; simp add: f_def is_digit_def [of "CHR ''.''"])+

lemma peek_width:
  fixes p w :: int and len :: fmt_length and g :: string
  assumes "is_conv c" "w = -1 \<or> 0 < w"
  defines "f \<equiv> (if w = -1 then '''' else num_string 10 False (nat w)) @
      (if p = -1 then '''' else CHR ''.'' # num_string 10 False (nat p)) @ length_string len @ c # g"
  shows "peek f \<notin> set ''-+ #0%''"
  using peek_precision(2) [OF assms(1), of p len g] peek_num_string [of "nat w"] assms(2)
  by (cases "w = -1"; simp add: f_def)+

lemma parse_spec_string:
  assumes "spec_ok spec" "is_conv c"
  shows "parse_spec (spec_string spec @ c # f) args = Some (spec, c # f, args)"
proof -
  let ?w = "if fs_width spec = -1 then '''' else num_string 10 False (nat (fs_width spec))"
  let ?p = "if fs_precision spec = -1 then '''' else CHR ''.'' # num_string 10 False (nat (fs_precision spec))"
  let ?l = "length_string (fs_length spec)"
  have ok: "fs_flags spec < 32" "fs_width spec = -1 \<or> 0 < fs_width spec \<and> fs_width spec \<le> INT_MAX"
    "-1 \<le> fs_precision spec" "fs_precision spec \<le> INT_MAX" "fs_width spec = -1 \<or> 0 < fs_width spec"
    using assms(1) by (auto simp: spec_ok_def)
  note pk = peek_width [OF assms(2) ok(5), of "fs_precision spec" "fs_length spec" f]
    peek_precision [OF assms(2), of "fs_precision spec" "fs_length spec" f]
    peek_length_string [OF assms(2), of "fs_length spec" f] is_conv_char [OF assms(2)]
  have "parse_flags 0 (flag_string (fs_flags spec) @ ?w @ ?p @ ?l @ c # f) = (fs_flags spec, ?w @ ?p @ ?l @ c # f)"
    using pk(1) by (intro parse_flags_string ok(1)) simp
  moreover have "parse_width s (?w @ ?p @ ?l @ c # f) args = Some (s\<lparr>fs_width := fs_width spec\<rparr>, ?p @ ?l @ c # f, args)" for s
    using pk(2,3) by (intro parse_width_string ok(2)) simp_all
  moreover have "parse_precision s (?p @ ?l @ c # f) args = Some (s\<lparr>fs_precision := fs_precision spec\<rparr>, ?l @ c # f, args)"
    if "fs_precision s = -1" for s
    using pk(4,5) that by (intro parse_precision_string ok(3,4)) simp_all
  moreover have "parse_length s (?l @ c # f) = (s\<lparr>fs_length := fs_length spec\<rparr>, c # f)" if "fs_length s = FMT_LEN_DEFAULT" for s
    using pk(7) that by (intro parse_length_string) simp_all
  ultimately show ?thesis unfolding spec_string_def append_assoc by (simp add: parse_spec_def)
qed

lemma peek_spec_string:
  assumes "spec_ok spec" "is_conv c"
  shows "peek (spec_string spec @ c # f) \<noteq> CHR ''%''"
proof -
  have ok: "fs_width spec = -1 \<or> 0 < fs_width spec" using assms(1) by (auto simp: spec_ok_def)
  show ?thesis using peek_width [OF assms(2) ok, of "fs_precision spec" "fs_length spec" f]
    by (simp add: spec_string_def flag_string_def)
qed

section \<open>The output of a conversion\<close>

lemma printf_loop_plain:
  "CHR ''%'' \<notin> set s \<Longrightarrow> printf_loop (s @ f) args buf = map_option (\<lambda>outs. map OChar s @ outs) (printf_loop f args buf)"
proof (induction s)
  case Nil
  show ?case by (simp add: option.map_ident)
next
  case (Cons c s)
  then have "c \<noteq> CHR ''%''" by auto
  then show ?case using Cons by (simp add: printf_loop.simps(2)) (cases "printf_loop f args buf"; simp)
qed

lemma printf_loop_spec:
  assumes "spec_ok spec" "is_conv c" "convert spec c args buf = Some (outs, args', buf')"
  shows "printf_loop (CHR ''%'' # spec_string spec @ c # f) args buf = map_option (\<lambda>outs'. outs @ outs') (printf_loop f args' buf')"
  using parse_spec_string [OF assms(1,2), of f args] peek_spec_string [OF assms(1,2), of f] assms(3)
  by (simp add: printf_loop.simps(2)) (cases "printf_loop f args' buf'"; simp)

lemma buf_text_cstr:
  assumes "cstr buf (length s) = s" "buf (length s) = NUL" "NUL \<notin> set s"
  shows "buf_text (length s, buf) = (if length s < buf_size then Some (s, buf) else None)"
proof -
  have "strlen_loop buf 0 = Some (length s)"
    using assms by (intro strlen_loop_spec) (metis cstr_nth nth_mem, simp_all)
  then show ?thesis using assms(1) by (simp add: buf_text_def)
qed

lemma printf_text_conv:
  assumes "spec_ok spec" "is_conv c" "CHR ''%'' \<notin> set pre" "CHR ''%'' \<notin> set post"
    and "convert spec c args buf = Some (outs, args', buf')"
  shows "printf_text (pre @ CHR ''%'' # spec_string spec @ c # post) args buf = Some (pre @ concat (map out_text outs) @ post)"
proof -
  have plain: "concat (map out_text (map OChar s)) = s" for s by (induction s) (simp_all add: out_text_def)
  have "printf_loop post args' buf' = Some (map OChar post)" using printf_loop_plain [OF assms(4), of "[]"] by simp
  then show ?thesis
    using printf_loop_plain [OF assms(3)] printf_loop_spec [OF assms(1,2,5)] plain by (simp add: printf_text_def)
qed

lemma number_field_no_nul:
  assumes "NUL \<notin> set prefix" "NUL \<notin> set ds"
  shows "NUL \<notin> set (number_field spec prefix ds)"
  using assms by (simp add: number_field_def Let_def)

lemma number_digits_no_nul: "\<lbrakk>2 \<le> r; r \<le> 16\<rbrakk> \<Longrightarrow> NUL \<notin> set (num_string r u n)"
  using num_string_chars by blast

lemma nat_abs_sint: "nat \<bar>sint v\<bar> = unat (if v <s 0 then - v else v)" for v :: u64
proof (cases "v <s 0")
  case True
  have "\<bar>sint v\<bar> = int (unat (- v))" using sint_neg [OF True] by linarith
  then have "nat \<bar>sint v\<bar> = unat (- v)" unfolding nat_eq_iff by simp
  then show ?thesis using True by simp
next
  case False
  have "\<bar>sint v\<bar> = int (unat v)" using sint_nonneg [OF False] by linarith
  then have "nat \<bar>sint v\<bar> = unat v" unfolding nat_eq_iff by simp
  then show ?thesis using False by simp
qed

lemma convert_signed_field:
  fixes spec :: fmt_spec and n :: u64
  defines "v \<equiv> signed_arg (fs_length spec) n"
  defines "out \<equiv> number_field spec (sign_prefix spec v) (num_string 10 False (nat \<bar>sint v\<bar>))"
  assumes "length out < buf_size"
  shows "\<exists>buf'. convert_signed spec (ANum n # args) buf = Some ([OStr out], args, buf')"
proof -
  have "nat \<bar>sint v\<bar> = unat (if v <s 0 then - v else v)" by (rule nat_abs_sint)
  then obtain buf' where b: "format_signed v buf 10 spec = Some (length out, buf')" "cstr buf' (length out) = out"
    "buf' (length out) = NUL"
    using format_signed_spec [of 10 v buf spec] unfolding out_def by auto
  have "NUL \<notin> set out" unfolding out_def
    by (intro number_field_no_nul number_digits_no_nul) (simp_all add: sign_prefix_def)
  from buf_text_cstr [OF b(2,3) this] show ?thesis using b(1) assms(3) by (simp add: convert_signed_def v_def)
qed

lemma printf_text_signed:
  assumes "spec_ok spec" "CHR ''%'' \<notin> set pre" "CHR ''%'' \<notin> set post" "v = signed_arg (fs_length spec) n"
    and "length (number_field spec (sign_prefix spec v) (num_string 10 False (nat \<bar>sint v\<bar>))) < buf_size"
  shows "printf_text (pre @ CHR ''%'' # spec_string spec @ CHR ''d'' # post) [ANum n] buf =
     Some (pre @ number_field spec (sign_prefix spec v) (num_string 10 False (nat \<bar>sint v\<bar>)) @ post)"
proof -
  obtain buf' where "convert_signed spec [ANum n] buf =
      Some ([OStr (number_field spec (sign_prefix spec v) (num_string 10 False (nat \<bar>sint v\<bar>)))], [], buf')"
    using convert_signed_field [of spec n "[]" buf] assms(4,5) by blast
  then have "convert spec CHR ''d'' [ANum n] buf =
      Some ([OStr (number_field spec (sign_prefix spec v) (num_string 10 False (nat \<bar>sint v\<bar>)))], [], buf')"
    by (simp add: convert_def)
  from printf_text_conv [OF assms(1) _ assms(2,3) this] show ?thesis by (simp add: is_conv_def out_text_def)
qed

section \<open>Properties\<close>

text \<open>
  C24. The specification parser of \<open>printf\<close> inverts the printed form: flags, width, precision and length
  modifier of every specification whose width and precision fit an \<open>int\<close>, written in the standard order before a conversion character, are read
  back exactly, and the parser stops at that character.
\<close>

theorem parse_spec_roundtrip:
  assumes "spec_ok spec" "is_conv c"
  shows "parse_spec (spec_string spec @ c # f) args = Some (spec, c # f, args)"
  by (rule parse_spec_string [OF assms])

theorem parse_spec_roundtrip_witness:
  "parse_spec (spec_string \<lparr>fs_flags = FMT_FLAG_HASH OR FMT_FLAG_ZERO, fs_width = 18, fs_precision = -1, fs_length = FMT_LEN_LL\<rparr> @ ''x'' @ ''!'') []
     = Some (\<lparr>fs_flags = FMT_FLAG_HASH OR FMT_FLAG_ZERO, fs_width = 18, fs_precision = -1, fs_length = FMT_LEN_LL\<rparr>, ''x!'', [])"
  using parse_spec_roundtrip [of "\<lparr>fs_flags = FMT_FLAG_HASH OR FMT_FLAG_ZERO, fs_width = 18, fs_precision = -1, fs_length = FMT_LEN_LL\<rparr>" "CHR ''x''" "''!''" "[]"]
  by (simp add: spec_ok_def is_conv_def)

text \<open>
  \<open>printf\<close> with one \<open>%d\<close> conversion and literal text around it prints that text
  and, in between, the field of the argument: its sign, the decimal digits of its absolute value (the minimal value
  included) and the padding of the specification, provided the field fits the 256-byte buffer.
\<close>

theorem printf_signed:
  assumes "spec_ok spec" "CHR ''%'' \<notin> set pre" "CHR ''%'' \<notin> set post" "v = signed_arg (fs_length spec) n"
    and "length (number_field spec (sign_prefix spec v) (num_string 10 False (nat \<bar>sint v\<bar>))) < buf_size"
  shows "printf_text (pre @ CHR ''%'' # spec_string spec @ CHR ''d'' # post) [ANum n] buf =
     Some (pre @ number_field spec (sign_prefix spec v) (num_string 10 False (nat \<bar>sint v\<bar>)) @ post)"
  by (rule printf_text_signed [OF assms])

theorem printf_signed_witness:
  "printf_text (''irq '' @ CHR ''%'' # spec_string \<lparr>fs_flags = 0, fs_width = -1, fs_precision = -1, fs_length = FMT_LEN_HH\<rparr> @ CHR ''d'' # '' set'') [ANum 255] (\<lambda>_. NUL) =
     Some (''irq '' @ ''-1'' @ '' set'')"
proof -
  let ?s = "\<lparr>fs_flags = 0, fs_width = -1, fs_precision = -1, fs_length = FMT_LEN_HH\<rparr>"
  have v: "signed_arg (fs_length ?s) 255 = - 1" by (simp add: signed_arg_def)
  have f: "number_field ?s (sign_prefix ?s (- 1)) (num_string 10 False (nat \<bar>sint (- 1 :: u64)\<bar>)) = ''-1''"
    by (simp add: number_field_def has_flag_def sign_prefix_def num_string_def digits_rev_step digits_lower_def)
  from printf_signed [of ?s "''irq ''" "'' set''" "- 1" 255 "\<lambda>_. NUL"] v show ?thesis
    unfolding f by (simp add: spec_ok_def)
qed

end
