(* ===== verification/Tty.thy ===== *)
theory Tty
  imports Format
begin

text \<open>
  The virtual terminals (\<^verbatim>\<open>kernel/tty/tty.c\<close>) over the VGA text screen
  (\<^verbatim>\<open>kernel/vga/vga.c\<close>). A terminal is its buffer of 25 x 80 cells and its cursor; the state is
  the seven terminals, the index of the active one (the pointer \<open>active_tty\<close>) and the cells of the screen.
  A write outside the buffer has no defined result and is \<open>None\<close>. The two spinlocks only order callers
  and do not touch this state; the copy of a \<open>LOG\<close> line a debug build sends to the serial port is not
  part of it either.
\<close>

section \<open>Definitions\<close>

subsection \<open>VGA text mode\<close>

unbundle bit_operations_syntax

definition VGA_WIDTH :: nat where
  [simp]: "VGA_WIDTH = 80"

definition VGA_HEIGHT :: nat where
  [simp]: "VGA_HEIGHT = 25"

datatype vga_colors =
    VGA_COLOR_BLACK | VGA_COLOR_BLUE | VGA_COLOR_GREEN | VGA_COLOR_CYAN
  | VGA_COLOR_RED | VGA_COLOR_MAGENTA | VGA_COLOR_BROWN | VGA_COLOR_LIGHT_GRAY
  | VGA_COLOR_DARK_GRAY | VGA_COLOR_LIGHT_BLUE | VGA_COLOR_LIGHT_GREEN | VGA_COLOR_LIGHT_CYAN
  | VGA_COLOR_LIGHT_RED | VGA_COLOR_LIGHT_MAGENTA | VGA_COLOR_YELLOW | VGA_COLOR_WHITE

primrec color_code :: "vga_colors \<Rightarrow> u8" where
  "color_code VGA_COLOR_BLACK = 0"
| "color_code VGA_COLOR_BLUE = 1"
| "color_code VGA_COLOR_GREEN = 2"
| "color_code VGA_COLOR_CYAN = 3"
| "color_code VGA_COLOR_RED = 4"
| "color_code VGA_COLOR_MAGENTA = 5"
| "color_code VGA_COLOR_BROWN = 6"
| "color_code VGA_COLOR_LIGHT_GRAY = 7"
| "color_code VGA_COLOR_DARK_GRAY = 8"
| "color_code VGA_COLOR_LIGHT_BLUE = 9"
| "color_code VGA_COLOR_LIGHT_GREEN = 10"
| "color_code VGA_COLOR_LIGHT_CYAN = 11"
| "color_code VGA_COLOR_LIGHT_RED = 12"
| "color_code VGA_COLOR_LIGHT_MAGENTA = 13"
| "color_code VGA_COLOR_YELLOW = 14"
| "color_code VGA_COLOR_WHITE = 15"

definition DEFAULT_BG_COLOR :: vga_colors where
  "DEFAULT_BG_COLOR = VGA_COLOR_WHITE"

definition DEFAULT_FG_COLOR :: vga_colors where
  "DEFAULT_FG_COLOR = VGA_COLOR_BLACK"

record char_with_color =
  character :: u8
  cell_color :: u8

abbreviation zero_cell :: char_with_color where
  "zero_cell \<equiv> \<lparr>character = 0, cell_color = 0\<rparr>"

text \<open>\<open>memset(cells, 0, bytes)\<close> on an array of two-byte cells.\<close>

definition zero_bytes :: "nat \<Rightarrow> char_with_color list \<Rightarrow> char_with_color list" where
  "zero_bytes bytes cells =
     map (\<lambda>i. \<lparr>character = (if 2 * i < bytes then 0 else character (cells ! i)),
               cell_color = (if 2 * i + 1 < bytes then 0 else cell_color (cells ! i))\<rparr>) [0..<length cells]"

definition clear_vga :: "char_with_color list \<Rightarrow> char_with_color list" where
  "clear_vga vga = zero_bytes (VGA_HEIGHT * VGA_WIDTH) vga"

definition write_buffer :: "char_with_color list \<Rightarrow> char_with_color list \<Rightarrow> char_with_color list" where
  "write_buffer buffer vga = fold (\<lambda>i vga. vga[i := buffer ! i]) [0..<VGA_HEIGHT * VGA_WIDTH] vga"

subsection \<open>Terminals\<close>

definition TERMINALS_NUMBER :: nat where
  [simp]: "TERMINALS_NUMBER = 7"

record tty_structure =
  tty_buffer :: "char_with_color list"
  tty_id :: u8
  tty_line :: u8
  tty_pos :: u8
  tty_bg :: vga_colors
  tty_fg :: vga_colors

record tty_state =
  tty_terminals :: "tty_structure list"
  active_tty :: nat
  vga_screen :: "char_with_color list"

definition current_tty :: "tty_state \<Rightarrow> tty_structure" where
  "current_tty s = tty_terminals s ! active_tty s"

definition set_current_tty :: "tty_structure \<Rightarrow> tty_state \<Rightarrow> tty_state" where
  "set_current_tty t s = s\<lparr>tty_terminals := (tty_terminals s)[active_tty s := t]\<rparr>"

definition set_fg :: "vga_colors \<Rightarrow> tty_state \<Rightarrow> tty_state" where
  "set_fg fg s = set_current_tty ((current_tty s)\<lparr>tty_fg := fg\<rparr>) s"

definition set_bg :: "vga_colors \<Rightarrow> tty_state \<Rightarrow> tty_state" where
  "set_bg bg s = set_current_tty ((current_tty s)\<lparr>tty_bg := bg\<rparr>) s"

definition flush_tty :: "tty_state \<Rightarrow> tty_state" where
  "flush_tty s = s\<lparr>vga_screen := write_buffer (tty_buffer (current_tty s)) (vga_screen s)\<rparr>"

definition init_terminal :: "nat \<Rightarrow> tty_structure \<Rightarrow> tty_structure" where
  "init_terminal i t = t\<lparr>tty_id := of_nat i, tty_bg := DEFAULT_BG_COLOR, tty_fg := DEFAULT_FG_COLOR,
     tty_line := 0, tty_pos := 0, tty_buffer := zero_bytes (VGA_HEIGHT * VGA_WIDTH) (tty_buffer t)\<rparr>"

definition zero_terminal :: tty_structure where
  "zero_terminal = \<lparr>tty_buffer = replicate (VGA_HEIGHT * VGA_WIDTH) zero_cell, tty_id = 0, tty_line = 0, tty_pos = 0,
     tty_bg = VGA_COLOR_BLACK, tty_fg = VGA_COLOR_BLACK\<rparr>"

definition clear_current_tty :: "tty_state \<Rightarrow> tty_state" where
  "clear_current_tty s =
     (let t = current_tty s;
          t = t\<lparr>tty_buffer := zero_bytes (VGA_WIDTH * VGA_HEIGHT) (tty_buffer t), tty_pos := 0, tty_line := 0\<rparr>;
          s = set_current_tty t s
      in s\<lparr>vga_screen := clear_vga (vga_screen s)\<rparr>)"

definition get_current_tty :: "tty_state \<Rightarrow> u8" where
  "get_current_tty s = tty_id (current_tty s)"

definition make_char :: "u8 \<Rightarrow> u8 \<Rightarrow> u8 \<Rightarrow> char_with_color" where
  "make_char c fg bg = \<lparr>character = c, cell_color = fg + push_bit 4 bg\<rparr>"

definition scroll_row :: "nat \<Rightarrow> char_with_color list \<Rightarrow> char_with_color list" where
  "scroll_row i b = fold (\<lambda>j b. b[(i - 1) * VGA_WIDTH + j := b ! (i * VGA_WIDTH + j)]) [0..<VGA_WIDTH] b"

definition scroll :: "tty_structure \<Rightarrow> tty_structure" where
  "scroll t =
     (let b = fold scroll_row [1..<VGA_HEIGHT] (tty_buffer t);
          b = fold (\<lambda>i b. b[VGA_WIDTH * (VGA_HEIGHT - 1) + i := make_char 0 0 0]) [0..<VGA_WIDTH] b
      in t\<lparr>tty_buffer := b, tty_line := of_nat (VGA_HEIGHT - 1), tty_pos := 0\<rparr>)"

definition putchar :: "char \<Rightarrow> tty_structure \<Rightarrow> tty_structure option" where
  "putchar c t =
     (let t = (if unat (tty_line t) \<ge> VGA_HEIGHT then scroll t else t)
      in if c = CHR 0x0A then Some (t\<lparr>tty_line := tty_line t + 1, tty_pos := 0\<rparr>)
         else
           let i = unat (tty_line t) * VGA_WIDTH + unat (tty_pos t);
               pos = tty_pos t + 1
           in if i < length (tty_buffer t)
              then Some (t\<lparr>tty_buffer := (tty_buffer t)[i := make_char (of_char c) (color_code (tty_fg t)) (color_code (tty_bg t))],
                          tty_line := tty_line t + pos div of_nat VGA_WIDTH, tty_pos := pos mod of_nat VGA_WIDTH\<rparr>)
              else None)"

fun put_chars :: "string \<Rightarrow> tty_structure \<Rightarrow> tty_structure option" where
  "put_chars [] t = Some t"
| "put_chars (c # s) t = do { t \<leftarrow> putchar c t; put_chars s t }"

definition print :: "string \<Rightarrow> tty_state \<Rightarrow> tty_state option" where
  "print str s = do {
     t \<leftarrow> put_chars str (current_tty s);
     Some (flush_tty (set_current_tty t s))
   }"

definition putchar_flush :: "char \<Rightarrow> tty_state \<Rightarrow> tty_state option" where
  "putchar_flush c s = do {
     t \<leftarrow> putchar c (current_tty s);
     Some (flush_tty (set_current_tty t s))
   }"

fun tty_out :: "outcall list \<Rightarrow> tty_state \<Rightarrow> tty_state option" where
  "tty_out [] s = Some s"
| "tty_out (out # outs) s = do {
     s \<leftarrow> (case out of
            OChar c \<Rightarrow> putchar_flush c s
          | OStr str \<Rightarrow> print str s
          | OArg c \<Rightarrow> print (if c = NUL then [] else [c]) s
          | OUnknown c \<Rightarrow> print [c] s);
     tty_out outs s
   }"

definition printf :: "cbuf \<Rightarrow> string \<Rightarrow> vararg list \<Rightarrow> tty_state \<Rightarrow> tty_state option" where
  "printf buf format args s = do {
     outs \<leftarrow> printf_loop format args buf;
     tty_out outs s
   }"

text \<open>\<open>LOG\<close> of \<^verbatim>\<open>logging.h\<close>: \<open>printf\<close> of the line; a debug build repeats it on the serial port.\<close>

definition LOG_TTY :: "cbuf \<Rightarrow> string \<Rightarrow> vararg list \<Rightarrow> tty_state \<Rightarrow> tty_state option" where
  "LOG_TTY buf format args s = printf buf (format @ [CHR 0x0A]) args s"

definition set_tty :: "cbuf \<Rightarrow> u8 \<Rightarrow> tty_state \<Rightarrow> tty_state option" where
  "set_tty buf terminal s =
     (if TERMINALS_NUMBER \<le> unat terminal then Some s
      else do {
        let s = s\<lparr>vga_screen := clear_vga (vga_screen s)\<rparr>;
        let s = s\<lparr>active_tty := unat terminal\<rparr>;
        s \<leftarrow> LOG_TTY buf ''TTY %d'' [ANum (ucast (tty_id (current_tty s)))] s;
        Some (flush_tty s)
      })"

definition init_tty :: "cbuf \<Rightarrow> tty_state \<Rightarrow> tty_state option" where
  "init_tty buf s = do {
     let s = s\<lparr>tty_terminals := map (\<lambda>i. init_terminal i zero_terminal) [0..<TERMINALS_NUMBER]\<rparr>;
     s \<leftarrow> set_tty buf 0 s;
     LOG_TTY buf ''TTY subsystem initialized'' [] s
   }"

section \<open>Reference definitions\<close>

text \<open>
  The terminal as its reader sees it: the rows written so far, the last one being the current
  row. A row is finished by a newline or by its eightieth character.
\<close>

definition term_put :: "vga_colors \<Rightarrow> vga_colors \<Rightarrow> char_with_color list list \<Rightarrow> char \<Rightarrow> char_with_color list list" where
  "term_put fg bg rows c =
     (if c = CHR 0x0A then rows @ [[]]
      else let row = last rows @ [make_char (of_char c) (color_code fg) (color_code bg)]
           in butlast rows @ row # (if length row = VGA_WIDTH then [[]] else []))"

definition term_cell :: "char_with_color list list \<Rightarrow> nat \<Rightarrow> nat \<Rightarrow> char_with_color" where
  "term_cell rows i j = (if i < length rows \<and> j < length (rows ! i) then rows ! i ! j else zero_cell)"

text \<open>The number of rows that have left the screen: scrolling waits for the next character.\<close>

definition scrolled :: "char_with_color list list \<Rightarrow> nat" where
  "scrolled rows = length rows - (if last rows = [] then VGA_HEIGHT + 1 else VGA_HEIGHT)"

definition rows_ok :: "char_with_color list list \<Rightarrow> bool" where
  "rows_ok rows \<longleftrightarrow> rows \<noteq> [] \<and> length (last rows) < VGA_WIDTH \<and> list_all (\<lambda>row. length row \<le> VGA_WIDTH) rows"

definition tty_shows :: "tty_structure \<Rightarrow> char_with_color list list \<Rightarrow> bool" where
  "tty_shows t rows \<longleftrightarrow>
     rows_ok rows \<and> length (tty_buffer t) = VGA_HEIGHT * VGA_WIDTH \<and>
     unat (tty_line t) = length rows - 1 - scrolled rows \<and> unat (tty_pos t) = length (last rows) \<and>
     (\<forall>i < VGA_HEIGHT. \<forall>j < VGA_WIDTH. tty_buffer t ! (i * VGA_WIDTH + j) = term_cell rows (scrolled rows + i) j)"

text \<open>A terminal whose cursor is on the screen.\<close>

definition on_screen :: "tty_structure \<Rightarrow> char_with_color list list \<Rightarrow> bool" where
  "on_screen t rows \<longleftrightarrow>
     rows_ok rows \<and> length (tty_buffer t) = VGA_HEIGHT * VGA_WIDTH \<and>
     unat (tty_line t) = length rows - 1 - (length rows - VGA_HEIGHT) \<and> unat (tty_pos t) = length (last rows) \<and>
     (\<forall>i < VGA_HEIGHT. \<forall>j < VGA_WIDTH.
        tty_buffer t ! (i * VGA_WIDTH + j) = term_cell rows (length rows - VGA_HEIGHT + i) j)"

text \<open>The second half of \<^const>\<open>putchar\<close>, after the scroll.\<close>

definition put_cell :: "char \<Rightarrow> tty_structure \<Rightarrow> tty_structure option" where
  "put_cell c t =
     (if c = CHR 0x0A then Some (t\<lparr>tty_line := tty_line t + 1, tty_pos := 0\<rparr>)
      else
        let i = unat (tty_line t) * VGA_WIDTH + unat (tty_pos t);
            pos = tty_pos t + 1
        in if i < length (tty_buffer t)
           then Some (t\<lparr>tty_buffer := (tty_buffer t)[i := make_char (of_char c) (color_code (tty_fg t)) (color_code (tty_bg t))],
                       tty_line := tty_line t + pos div of_nat VGA_WIDTH, tty_pos := pos mod of_nat VGA_WIDTH\<rparr>)
           else None)"

text \<open>
  All terminals show their rows; the screen shows the active terminal; the rows after some text went to
  the active terminal.
\<close>

definition tty_ok :: "tty_state \<Rightarrow> char_with_color list list list \<Rightarrow> bool" where
  "tty_ok s rs \<longleftrightarrow> length (tty_terminals s) = TERMINALS_NUMBER \<and> active_tty s < TERMINALS_NUMBER \<and>
     length (vga_screen s) = VGA_HEIGHT * VGA_WIDTH \<and> list_all2 tty_shows (tty_terminals s) rs"

definition screen_current :: "tty_state \<Rightarrow> bool" where
  "screen_current s \<longleftrightarrow> vga_screen s = tty_buffer (current_tty s)"

definition text_rows :: "tty_state \<Rightarrow> string \<Rightarrow> char_with_color list list list \<Rightarrow> char_with_color list list list" where
  "text_rows s text rs =
     rs[active_tty s := foldl (term_put (tty_fg (current_tty s)) (tty_bg (current_tty s))) (rs ! active_tty s) text]"

definition same_colors :: "tty_state \<Rightarrow> tty_state \<Rightarrow> bool" where
  "same_colors s s' \<longleftrightarrow> active_tty s' = active_tty s \<and> map tty_fg (tty_terminals s') = map tty_fg (tty_terminals s) \<and>
     map tty_bg (tty_terminals s') = map tty_bg (tty_terminals s) \<and> map tty_id (tty_terminals s') = map tty_id (tty_terminals s)"

definition demo_tty :: tty_state where
  "demo_tty = \<lparr>tty_terminals = map (\<lambda>i. init_terminal i zero_terminal) [0..<TERMINALS_NUMBER], active_tty = 0,
     vga_screen = replicate (VGA_HEIGHT * VGA_WIDTH) zero_cell\<rparr>"

section \<open>Scrolling and copying\<close>

lemma fold_copy:
  "\<lbrakk>d + n \<le> s; s + n \<le> length b\<rbrakk> \<Longrightarrow>
    length (fold (\<lambda>j b. b[d + j := b ! (s + j)]) [0..<n] b) = length b \<and>
    (\<forall>m. fold (\<lambda>j b. b[d + j := b ! (s + j)]) [0..<n] b ! m = (if d \<le> m \<and> m < d + n then b ! (s + (m - d)) else b ! m))"
proof (induction n)
  case (Suc n)
  let ?b = "fold (\<lambda>j b. b[d + j := b ! (s + j)]) [0..<n] b"
  have len: "length ?b = length b" and nth: "\<And>m. ?b ! m = (if d \<le> m \<and> m < d + n then b ! (s + (m - d)) else b ! m)"
    using Suc by simp_all
  have "?b[d + n := ?b ! (s + n)] ! m = (if d \<le> m \<and> m < d + Suc n then b ! (s + (m - d)) else b ! m)" for m
  proof (cases "m = d + n")
    case True
    then show ?thesis using Suc.prems len nth [of "s + n"] by simp
  next
    case False
    then show ?thesis using nth [of m] by auto
  qed
  then show ?case using len by simp
qed auto

lemma fold_fill_nth:
  assumes "d + n \<le> length b"
  shows "length (fold (\<lambda>j b. b[d + j := c]) [0..<n] b) = length b"
    and "fold (\<lambda>j b. b[d + j := c]) [0..<n] b ! m = (if d \<le> m \<and> m < d + n then c else b ! m)"
  using assms by (induction n arbitrary: m) (auto simp: nth_list_update)

lemma scroll_row_nth:
  assumes "0 < i" "(i + 1) * VGA_WIDTH \<le> length b"
  shows "length (scroll_row i b) = length b"
    and "scroll_row i b ! m = (if (i - 1) * VGA_WIDTH \<le> m \<and> m < i * VGA_WIDTH then b ! (m + VGA_WIDTH) else b ! m)"
proof -
  have d: "(i - 1) * VGA_WIDTH + VGA_WIDTH \<le> i * VGA_WIDTH" "i * VGA_WIDTH + VGA_WIDTH \<le> length b"
    using assms by (cases i; simp)+
  show "length (scroll_row i b) = length b" unfolding scroll_row_def using fold_copy [OF d] by blast
  show "scroll_row i b ! m = (if (i - 1) * VGA_WIDTH \<le> m \<and> m < i * VGA_WIDTH then b ! (m + VGA_WIDTH) else b ! m)"
    unfolding scroll_row_def fold_copy [OF d, THEN conjunct2, rule_format] using assms(1) by (cases i) (auto simp: add.commute)
qed

lemma fold_scroll_row:
  "(n + 1) * VGA_WIDTH \<le> length b \<Longrightarrow>
    length (fold scroll_row [1..<n + 1] b) = length b \<and>
    (\<forall>m. fold scroll_row [1..<n + 1] b ! m = (if m < n * VGA_WIDTH then b ! (m + VGA_WIDTH) else b ! m))"
proof (induction n)
  case (Suc n)
  let ?b = "fold scroll_row [1..<n + 1] b"
  have "(n + 1) * VGA_WIDTH \<le> length b" using Suc.prems by simp
  from Suc.IH [OF this] have len: "length ?b = length b"
    and nth: "\<And>m. ?b ! m = (if m < n * VGA_WIDTH then b ! (m + VGA_WIDTH) else b ! m)" by blast+
  have row: "(Suc n + 1) * VGA_WIDTH \<le> length ?b" unfolding len by (rule Suc.prems)
  have f: "fold scroll_row [1..<Suc n + 1] b = scroll_row (Suc n) ?b" by simp
  show ?case unfolding f scroll_row_nth(1) [OF zero_less_Suc row] scroll_row_nth(2) [OF zero_less_Suc row] nth len by auto
qed simp

lemma scroll_fields [simp]:
  "tty_line (scroll t) = 24" "tty_pos (scroll t) = 0" "tty_id (scroll t) = tty_id t" "tty_fg (scroll t) = tty_fg t" "tty_bg (scroll t) = tty_bg t"
  by (simp_all add: scroll_def Let_def)

lemma scroll_buffer:
  assumes "length (tty_buffer t) = VGA_HEIGHT * VGA_WIDTH"
  shows "length (tty_buffer (scroll t)) = VGA_HEIGHT * VGA_WIDTH"
    and "\<lbrakk>i < VGA_HEIGHT; j < VGA_WIDTH\<rbrakk> \<Longrightarrow> tty_buffer (scroll t) ! (i * VGA_WIDTH + j) =
      (if i < VGA_HEIGHT - 1 then tty_buffer t ! ((i + 1) * VGA_WIDTH + j) else zero_cell)"
proof -
  let ?b = "fold scroll_row [1..<24 + 1] (tty_buffer t)"
  have h: "(24 + 1) * VGA_WIDTH \<le> length (tty_buffer t)" using assms by simp
  have len: "length ?b = VGA_HEIGHT * VGA_WIDTH" using fold_scroll_row [OF h] assms by simp
  have fill: "VGA_WIDTH * (VGA_HEIGHT - 1) + VGA_WIDTH \<le> length ?b" using len by simp
  have b: "tty_buffer (scroll t) = fold (\<lambda>i b. b[VGA_WIDTH * (VGA_HEIGHT - 1) + i := make_char 0 0 0]) [0..<VGA_WIDTH] ?b"
    by (simp add: scroll_def Let_def)
  show "length (tty_buffer (scroll t)) = VGA_HEIGHT * VGA_WIDTH" unfolding b fold_fill_nth(1) [OF fill] by (rule len)
  show "tty_buffer (scroll t) ! (i * VGA_WIDTH + j) = (if i < VGA_HEIGHT - 1 then tty_buffer t ! ((i + 1) * VGA_WIDTH + j) else zero_cell)"
    if "i < VGA_HEIGHT" "j < VGA_WIDTH"
    unfolding b fold_fill_nth(2) [OF fill] fold_scroll_row [OF h, THEN conjunct2, rule_format] using that
    by (auto simp: make_char_def algebra_simps)
qed

lemma write_buffer_eq:
  assumes "length buffer = VGA_HEIGHT * VGA_WIDTH" "length vga = VGA_HEIGHT * VGA_WIDTH"
  shows "write_buffer buffer vga = buffer"
proof -
  have "n \<le> length vga \<Longrightarrow> fold (\<lambda>i vga. vga[i := buffer ! i]) [0..<n] vga = take n buffer @ drop n vga" for n
    using assms by (induction n) (auto simp: list_update_append take_Suc_conv_app_nth Cons_nth_drop_Suc [symmetric])
  from this [of "VGA_HEIGHT * VGA_WIDTH"] show ?thesis using assms by (simp add: write_buffer_def)
qed

section \<open>The terminal shows its text\<close>

lemma shows_line: "tty_shows t rows \<Longrightarrow> VGA_HEIGHT \<le> unat (tty_line t) \<longleftrightarrow> last rows = [] \<and> VGA_HEIGHT < length rows"
  by (auto simp: tty_shows_def scrolled_def rows_ok_def split: if_splits)

lemma on_screen_scroll:
  assumes "tty_shows t rows" "last rows = []" "VGA_HEIGHT < length rows"
  shows "on_screen (scroll t) rows"
proof -
  have b: "length (tty_buffer t) = VGA_HEIGHT * VGA_WIDTH" and rows: "rows_ok rows"
    and cells: "\<And>i j. \<lbrakk>i < VGA_HEIGHT; j < VGA_WIDTH\<rbrakk> \<Longrightarrow> tty_buffer t ! (i * VGA_WIDTH + j) = term_cell rows (scrolled rows + i) j"
    using assms(1) unfolding tty_shows_def by blast+
  have k: "scrolled rows + 1 = length rows - VGA_HEIGHT" using assms(2,3) by (simp add: scrolled_def)
  have last: "term_cell rows (length rows - 1) j = zero_cell" for j
    using assms(2) rows by (simp add: term_cell_def last_conv_nth rows_ok_def)
  have "tty_buffer (scroll t) ! (i * VGA_WIDTH + j) = term_cell rows (length rows - VGA_HEIGHT + i) j"
    if ij: "i < VGA_HEIGHT" "j < VGA_WIDTH" for i j
  proof (cases "i < VGA_HEIGHT - 1")
    case True
    then have "tty_buffer (scroll t) ! (i * VGA_WIDTH + j) = tty_buffer t ! ((i + 1) * VGA_WIDTH + j)"
      using scroll_buffer(2) [OF b ij] by simp
    also have "\<dots> = term_cell rows (scrolled rows + (i + 1)) j" using True ij(2) by (intro cells) simp_all
    finally show ?thesis unfolding k [symmetric] by (simp add: add.commute add.left_commute)
  next
    case False
    then have "length rows - VGA_HEIGHT + i = length rows - 1" using ij(1) assms(3) by simp
    then show ?thesis using False scroll_buffer(2) [OF b ij] last by simp
  qed
  then show ?thesis using scroll_buffer(1) [OF b] rows assms(2,3) unfolding on_screen_def by simp
qed

lemma on_screen_shows:
  assumes "tty_shows t rows" "\<not> (last rows = [] \<and> VGA_HEIGHT < length rows)"
  shows "on_screen t rows"
proof -
  have "scrolled rows = length rows - VGA_HEIGHT" using assms(2) by (auto simp: scrolled_def)
  then show ?thesis using assms(1) unfolding tty_shows_def on_screen_def by simp
qed

lemma cell_index:
  assumes "j < VGA_WIDTH" "j' < VGA_WIDTH"
  shows "i * VGA_WIDTH + j = i' * VGA_WIDTH + j' \<longleftrightarrow> i = i' \<and> j = j'"
proof
  assume e: "i * VGA_WIDTH + j = i' * VGA_WIDTH + j'"
  have "i = (i * VGA_WIDTH + j) div VGA_WIDTH" using assms(1) by simp
  also have "\<dots> = i'" unfolding e using assms(2) by simp
  finally show "i = i' \<and> j = j'" using e by simp
qed simp

lemma putchar_put_cell: "putchar c t = put_cell c (if VGA_HEIGHT \<le> unat (tty_line t) then scroll t else t)"
  by (simp add: putchar_def put_cell_def Let_def)

lemma unat_inc: "unat (x :: u8) < 255 \<Longrightarrow> unat (x + 1) = unat x + 1"
  by (simp add: unat_word_ariths)

lemma put_newline_shows:
  assumes "on_screen t rows"
  shows "tty_shows (t\<lparr>tty_line := tty_line t + 1, tty_pos := 0\<rparr>) (rows @ [[]])"
proof -
  have rows: "rows_ok rows" "rows \<noteq> []" using assms by (auto simp: on_screen_def rows_ok_def)
  have cell: "term_cell (rows @ [[]]) i j = term_cell rows i j" for i j by (auto simp: term_cell_def nth_append)
  have line: "unat (tty_line t) = length rows - 1 - (length rows - VGA_HEIGHT)" using assms by (simp add: on_screen_def)
  moreover have n: "0 < length rows" using rows(2) by simp
  ultimately have "unat (tty_line t) < 255" "unat (tty_line t) + 1 = length rows - (length rows - VGA_HEIGHT)"
    unfolding VGA_HEIGHT_def by linarith+
  then have "unat (tty_line t + 1) = length rows - (length rows - VGA_HEIGHT)" using unat_inc by metis
  moreover have "scrolled (rows @ [[]]) = length rows - VGA_HEIGHT" by (simp add: scrolled_def)
  moreover have "rows_ok (rows @ [[]])" using rows by (simp add: rows_ok_def)
  ultimately show ?thesis using assms unfolding tty_shows_def on_screen_def by (simp add: cell)
qed

lemma term_cell_put:
  assumes "rows \<noteq> []" "row = last rows @ [cell]"
  shows "term_cell (butlast rows @ row # (if b then [[]] else [])) i j =
     (if i = length rows - 1 \<and> j = length (last rows) then cell else term_cell rows i j)"
proof -
  obtain rs r where "rows = rs @ [r]" using assms(1) by (cases rows rule: rev_cases) auto
  then show ?thesis using assms(2) by (auto simp: term_cell_def nth_append less_Suc_eq)
qed

text \<open>The rows after a character that is not a newline.\<close>

lemma term_put_char:
  fixes c :: char and fg bg :: vga_colors
  assumes "rows_ok rows" "c \<noteq> CHR 0x0A"
  defines "rows' \<equiv> term_put fg bg rows c" and "full \<equiv> length (last rows) + 1 = VGA_WIDTH"
  shows "rows_ok rows'" "scrolled rows' = length rows - VGA_HEIGHT" "length rows' = length rows + (if full then 1 else 0)"
    "length (last rows') = (length (last rows) + 1) mod VGA_WIDTH"
    "term_cell rows' i j = (if i = length rows - 1 \<and> j = length (last rows)
       then make_char (of_char c) (color_code fg) (color_code bg) else term_cell rows i j)"
proof -
  define row where "row = last rows @ [make_char (of_char c) (color_code fg) (color_code bg)]"
  have rows: "rows \<noteq> []" "length (last rows) < VGA_WIDTH" using assms(1) by (auto simp: rows_ok_def)
  have rows': "rows' = butlast rows @ row # (if full then [[]] else [])"
    using assms(2) by (simp add: rows'_def term_put_def row_def full_def)
  show "rows_ok rows'" unfolding rows' using assms(1) rows
    by (auto simp: rows_ok_def full_def row_def list_all_iff dest: in_set_butlastD)
  show "scrolled rows' = length rows - VGA_HEIGHT" "length rows' = length rows + (if full then 1 else 0)"
    unfolding rows' using rows(1) by (auto simp: scrolled_def row_def length_butlast)
  show "length (last rows') = (length (last rows) + 1) mod VGA_WIDTH"
    unfolding rows' using rows(2) by (auto simp: row_def full_def)
  show "term_cell rows' i j = (if i = length rows - 1 \<and> j = length (last rows)
       then make_char (of_char c) (color_code fg) (color_code bg) else term_cell rows i j)"
    unfolding rows' by (rule term_cell_put [OF rows(1) row_def])
qed

lemma put_char_shows:
  fixes c :: char and t :: tty_structure
  assumes "on_screen t rows" "c \<noteq> CHR 0x0A"
  defines "i \<equiv> unat (tty_line t) * VGA_WIDTH + unat (tty_pos t)" and "pos \<equiv> tty_pos t + 1"
    and "cell \<equiv> make_char (of_char c) (color_code (tty_fg t)) (color_code (tty_bg t))"
  shows "i < length (tty_buffer t)"
    and "tty_shows (t\<lparr>tty_buffer := (tty_buffer t)[i := cell], tty_line := tty_line t + pos div of_nat VGA_WIDTH,
      tty_pos := pos mod of_nat VGA_WIDTH\<rparr>) (term_put (tty_fg t) (tty_bg t) rows c)" (is "tty_shows _ ?rows'")
proof -
  define k where "k = length rows - VGA_HEIGHT"
  have rows: "rows_ok rows" and len: "length (tty_buffer t) = VGA_HEIGHT * VGA_WIDTH"
    and line: "unat (tty_line t) = length rows - 1 - k" and tpos: "unat (tty_pos t) = length (last rows)"
    and cells: "\<And>i j. \<lbrakk>i < VGA_HEIGHT; j < VGA_WIDTH\<rbrakk> \<Longrightarrow> tty_buffer t ! (i * VGA_WIDTH + j) = term_cell rows (k + i) j"
    using assms(1) by (auto simp: on_screen_def k_def)
  have n: "0 < length rows" using rows by (simp add: rows_ok_def)
  have lim: "length rows - 1 - k < VGA_HEIGHT" "length (last rows) < VGA_WIDTH" "k + (length rows - 1 - k) = length rows - 1"
    using rows n by (auto simp: k_def rows_ok_def)
  note put = term_put_char [OF rows assms(2), of "tty_fg t" "tty_bg t", folded k_def]
  show i: "i < length (tty_buffer t)" using line tpos lim(1,2) len by (simp add: i_def)
  have pos: "unat pos = length (last rows) + 1" using tpos lim(2) unfolding pos_def by (subst unat_inc) simp_all
  have pos': "unat (pos mod of_nat VGA_WIDTH) = length (last ?rows')" unfolding unat_mod_distrib put(4) pos by simp
  have inc: "unat (pos div of_nat VGA_WIDTH) = (if length (last rows) + 1 = VGA_WIDTH then 1 else 0)"
    unfolding unat_div_distrib pos using lim(2) by (auto simp: div_eq_0_iff)
  have "length rows - 1 - k + x = length rows + x - 1 - k" for x using lim(3) n by linarith
  then have line': "unat (tty_line t + pos div of_nat VGA_WIDTH) = length ?rows' - 1 - scrolled ?rows'"
    unfolding put(2,3) unat_word_ariths(1) inc line using lim(1) by (simp del: One_nat_def)
  have "(tty_buffer t)[i := cell] ! (i' * VGA_WIDTH + j') = term_cell ?rows' (scrolled ?rows' + i') j'"
    if "i' < VGA_HEIGHT" "j' < VGA_WIDTH" for i' j'
  proof -
    have "i = i' * VGA_WIDTH + j' \<longleftrightarrow> k + i' = length rows - 1 \<and> j' = length (last rows)"
      unfolding i_def line tpos using cell_index [OF lim(2) that(2)] lim(3) by (metis add_left_cancel)
    then show ?thesis unfolding put(2,5) cells [OF that, symmetric] using i by (auto simp: nth_list_update cell_def)
  qed
  then show "tty_shows (t\<lparr>tty_buffer := (tty_buffer t)[i := cell], tty_line := tty_line t + pos div of_nat VGA_WIDTH,
      tty_pos := pos mod of_nat VGA_WIDTH\<rparr>) ?rows'"
    unfolding tty_shows_def using put(1) len line' pos' by simp
qed

lemma put_cell_shows:
  assumes "on_screen t rows"
  shows "\<exists>t'. put_cell c t = Some t' \<and> tty_shows t' (term_put (tty_fg t) (tty_bg t) rows c) \<and>
     tty_fg t' = tty_fg t \<and> tty_bg t' = tty_bg t \<and> tty_id t' = tty_id t"
proof (cases "c = CHR 0x0A")
  case True
  then show ?thesis using put_newline_shows [OF assms(1)] by (simp add: put_cell_def term_put_def)
next
  case False
  from put_char_shows [OF assms False] False show ?thesis by (simp add: put_cell_def Let_def)
qed

lemma putchar_shows:
  assumes "tty_shows t rows"
  shows "\<exists>t'. putchar c t = Some t' \<and> tty_shows t' (term_put (tty_fg t) (tty_bg t) rows c) \<and>
     tty_fg t' = tty_fg t \<and> tty_bg t' = tty_bg t \<and> tty_id t' = tty_id t"
proof (cases "VGA_HEIGHT \<le> unat (tty_line t)")
  case True
  then have "on_screen (scroll t) rows" using on_screen_scroll [OF assms] shows_line [OF assms] by blast
  from put_cell_shows [OF this, of c] show ?thesis using True by (simp add: putchar_put_cell)
next
  case False
  then have "on_screen t rows" using on_screen_shows [OF assms] shows_line [OF assms] by blast
  from put_cell_shows [OF this, of c] show ?thesis using False by (simp add: putchar_put_cell)
qed

lemma put_chars_shows:
  "tty_shows t rows \<Longrightarrow> \<exists>t'. put_chars s t = Some t' \<and> tty_shows t' (foldl (term_put (tty_fg t) (tty_bg t)) rows s) \<and>
     tty_fg t' = tty_fg t \<and> tty_bg t' = tty_bg t \<and> tty_id t' = tty_id t"
proof (induction s arbitrary: t rows)
  case (Cons c s)
  obtain t1 where t1: "putchar c t = Some t1" "tty_shows t1 (term_put (tty_fg t) (tty_bg t) rows c)"
    "tty_fg t1 = tty_fg t" "tty_bg t1 = tty_bg t" "tty_id t1 = tty_id t" using putchar_shows [OF Cons.prems] by blast
  from Cons.IH [OF t1(2)] show ?case using t1 by simp
qed simp

lemma current_shows: "tty_ok s rs \<Longrightarrow> tty_shows (current_tty s) (rs ! active_tty s)"
  by (auto simp: tty_ok_def current_tty_def list_all2_conv_all_nth)

lemma text_rows_Nil [simp]: "text_rows s [] rs = rs"
  by (simp add: text_rows_def)

lemma text_rows_append:
  assumes "tty_ok s rs" "same_colors s s'" "tty_ok s' (text_rows s a rs)"
  shows "text_rows s' b (text_rows s a rs) = text_rows s (a @ b) rs"
proof -
  have a: "active_tty s' = active_tty s" and lim: "active_tty s < length rs" "active_tty s < length (tty_terminals s)"
    "length (tty_terminals s') = length (tty_terminals s)"
    using assms by (auto simp: same_colors_def tty_ok_def list_all2_conv_all_nth)
  have "tty_fg (current_tty s') = tty_fg (current_tty s)" "tty_bg (current_tty s') = tty_bg (current_tty s)"
    using assms(2) lim unfolding same_colors_def current_tty_def by (metis nth_map)+
  then show ?thesis using a lim by (simp add: text_rows_def)
qed

lemma map_update_same: "\<lbrakk>i < length xs; f x = f (xs ! i)\<rbrakk> \<Longrightarrow> map f (xs[i := x]) = map f xs"
  by (simp add: map_update list_update_same_conv)

lemma flush_current:
  assumes "tty_ok s rs" "tty_shows t row" "tty_fg t = tty_fg (current_tty s)" "tty_bg t = tty_bg (current_tty s)" "tty_id t = tty_id (current_tty s)"
  defines "s' \<equiv> flush_tty (set_current_tty t s)"
  shows "tty_ok s' (rs[active_tty s := row])" "screen_current s'" "same_colors s s'"
proof -
  have lim: "active_tty s < length (tty_terminals s)" "length (vga_screen s) = VGA_HEIGHT * VGA_WIDTH" using assms(1) by (auto simp: tty_ok_def)
  have b: "length (tty_buffer t) = VGA_HEIGHT * VGA_WIDTH" using assms(2) by (simp add: tty_shows_def)
  have t: "current_tty (set_current_tty t s) = t" using lim(1) by (simp add: current_tty_def set_current_tty_def)
  have "vga_screen s' = tty_buffer t"
    unfolding s'_def flush_tty_def t using write_buffer_eq [OF b lim(2)] by (simp add: set_current_tty_def)
  moreover have "current_tty s' = t" using t by (simp add: s'_def flush_tty_def current_tty_def)
  ultimately show "screen_current s'" by (simp add: screen_current_def)
  show "tty_ok s' (rs[active_tty s := row])" using assms(1,2) b \<open>vga_screen s' = tty_buffer t\<close>
    by (auto simp: tty_ok_def s'_def flush_tty_def set_current_tty_def list_all2_update_cong)
  have "tty_terminals s' = (tty_terminals s)[active_tty s := t]" "active_tty s' = active_tty s"
    by (simp_all add: s'_def flush_tty_def set_current_tty_def)
  then show "same_colors s s'" using assms(3-5) lim(1) by (simp add: same_colors_def current_tty_def map_update_same)
qed

lemma print_shows:
  assumes "tty_ok s rs"
  shows "\<exists>s'. print str s = Some s' \<and> tty_ok s' (text_rows s str rs) \<and> screen_current s' \<and> same_colors s s'"
proof -
  obtain t where t: "put_chars str (current_tty s) = Some t"
    "tty_shows t (foldl (term_put (tty_fg (current_tty s)) (tty_bg (current_tty s))) (rs ! active_tty s) str)"
    "tty_fg t = tty_fg (current_tty s)" "tty_bg t = tty_bg (current_tty s)" "tty_id t = tty_id (current_tty s)"
    using put_chars_shows [OF current_shows [OF assms], of str] by blast
  from flush_current [OF assms t(2-5)] show ?thesis using t(1) by (simp add: print_def text_rows_def)
qed

lemma putchar_flush_print: "putchar_flush c s = print [c] s"
  by (simp add: putchar_flush_def print_def)

lemma tty_out_print:
  assumes "NUL \<notin> set (out_text out)"
  shows "tty_out (out # outs) s = do { s \<leftarrow> print (out_text out) s; tty_out outs s }"
  using assms by (cases out) (simp_all add: out_text_def putchar_flush_print)

lemma same_colors_trans: "\<lbrakk>same_colors s s'; same_colors s' s''\<rbrakk> \<Longrightarrow> same_colors s s''"
  by (simp add: same_colors_def)

lemma tty_out_shows:
  "\<lbrakk>tty_ok s rs; NUL \<notin> set (concat (map out_text outs))\<rbrakk> \<Longrightarrow>
    \<exists>s'. tty_out outs s = Some s' \<and> tty_ok s' (text_rows s (concat (map out_text outs)) rs) \<and>
      (outs \<noteq> [] \<or> screen_current s \<longrightarrow> screen_current s') \<and> same_colors s s'"
proof (induction outs arbitrary: s rs)
  case Nil
  then show ?case by (simp add: same_colors_def)
next
  case (Cons out outs)
  obtain s1 where s1: "print (out_text out) s = Some s1" "tty_ok s1 (text_rows s (out_text out) rs)" "screen_current s1" "same_colors s s1"
    using print_shows [OF Cons.prems(1)] by blast
  have "NUL \<notin> set (concat (map out_text outs))" "NUL \<notin> set (out_text out)" using Cons.prems(2) by simp_all
  note nul = this
  obtain s2 where "tty_out outs s1 = Some s2" "tty_ok s2 (text_rows s1 (concat (map out_text outs)) (text_rows s (out_text out) rs))"
    "screen_current s2" "same_colors s1 s2"
    using Cons.IH [OF s1(2) nul(1)] s1(3) by blast
  then show ?case using tty_out_print [OF nul(2)] s1(1,4) text_rows_append [OF Cons.prems(1) s1(4,2)]
    by (auto intro: same_colors_trans)
qed

lemma printf_shows:
  assumes "tty_ok s rs" "printf_text format args buf = Some text" "NUL \<notin> set text"
  shows "\<exists>s'. printf buf format args s = Some s' \<and> tty_ok s' (text_rows s text rs) \<and>
     (text \<noteq> [] \<or> screen_current s \<longrightarrow> screen_current s') \<and> same_colors s s'"
proof -
  obtain outs where outs: "printf_loop format args buf = Some outs" "text = concat (map out_text outs)"
    using assms(2) by (auto simp: printf_text_def)
  then show ?thesis using tty_out_shows [OF assms(1), of outs] assms(3) by (auto simp: printf_def)
qed

lemma zero_bytes_cells:
  assumes "length cells = VGA_HEIGHT * VGA_WIDTH"
  shows "zero_bytes (VGA_HEIGHT * VGA_WIDTH) cells = replicate 1000 zero_cell @ drop 1000 cells"
  using assms by (intro nth_equalityI) (auto simp: zero_bytes_def nth_append)

lemma zero_bytes_length [simp]: "length (zero_bytes n cells) = length cells"
  by (simp add: zero_bytes_def)

text \<open>A terminal's line of \<^const>\<open>set_tty\<close>.\<close>

lemma set_tty_text:
  assumes "n < TERMINALS_NUMBER"
  shows "printf_text (''TTY %d'' @ [CHR 0x0A]) [ANum (ucast (of_nat n :: u8))] buf =
     Some (''TTY '' @ num_string 10 False n @ [CHR 0x0A])"
proof -
  let ?s = "\<lparr>fs_flags = 0, fs_width = -1, fs_precision = -1, fs_length = FMT_LEN_DEFAULT\<rparr>"
  define v where "v = signed_arg (fs_length ?s) (ucast (of_nat n :: u8))"
  have "n \<in> {0, 1, 2, 3, 4, 5, 6}" using assms by auto
  then have v: "sint v = int n" "\<not> v <s 0" by (auto simp: v_def signed_arg_def word_sless_alt)
  have "1 - length (num_string 10 False n) = 0" using num_string_nonempty [of 10 False n] by (cases "num_string 10 False n") simp_all
  then have f: "number_field ?s (sign_prefix ?s v) (num_string 10 False (nat \<bar>sint v\<bar>)) = num_string 10 False n"
    using v by (simp add: number_field_def has_flag_def sign_prefix_def)
  have len: "length (num_string 10 False n) \<le> 64" using assms by (intro num_string_length) simp_all
  have "spec_ok ?s" "''TTY '' @ CHR ''%'' # spec_string ?s @ CHR ''d'' # [CHR 0x0A] = ''TTY %d'' @ [CHR 0x0A]"
    by (simp_all add: spec_ok_def spec_string_def flag_string_def length_string_def)
  then show ?thesis
    using printf_text_signed [of ?s "''TTY ''" "[CHR 0x0A]" v "ucast (of_nat n :: u8)" buf, unfolded f, OF _ _ _ v_def] len by simp
qed

lemma init_terminal_shows: "tty_shows (init_terminal i zero_terminal) [[]]"
proof -
  have b: "tty_buffer (init_terminal i zero_terminal) = replicate (VGA_HEIGHT * VGA_WIDTH) zero_cell"
    unfolding init_terminal_def zero_terminal_def
    by (simp only: tty_structure.simps) (simp add: zero_bytes_cells [simplified] flip: replicate_add)
  have "\<lbrakk>i < VGA_HEIGHT; j < VGA_WIDTH\<rbrakk> \<Longrightarrow> i * VGA_WIDTH + j < VGA_HEIGHT * VGA_WIDTH" for i j by simp
  then show ?thesis unfolding tty_shows_def b
    by (auto simp: init_terminal_def rows_ok_def scrolled_def term_cell_def nth_Cons')
qed

lemma demo_tty_ok: "tty_ok demo_tty (replicate TERMINALS_NUMBER [[]])" "screen_current demo_tty"
proof -
  show "tty_ok demo_tty (replicate TERMINALS_NUMBER [[]])"
    unfolding tty_ok_def demo_tty_def using init_terminal_shows by (auto simp: list_all2_conv_all_nth simp del: upt_rec_numeral)
  show "screen_current demo_tty"
    unfolding screen_current_def demo_tty_def current_tty_def init_terminal_def zero_terminal_def
    by (simp add: zero_bytes_cells [simplified] flip: replicate_add)
qed

section \<open>Properties\<close>

text \<open>
  C26. \<open>printf\<close> on a terminal refines appending text to a paper roll of rows: for a format whose
  output is some text, it never writes outside the buffer, every terminal still shows its rows, where
  the active terminal's rows are extended by exactly that text (a row ends at a newline or after eighty characters; rows
  leave the screen at the top), and the screen shows the active terminal.
\<close>

theorem printf_refines:
  assumes "tty_ok s rs" "screen_current s" "printf_text format args buf = Some text" "NUL \<notin> set text"
  shows "\<exists>s'. printf buf format args s = Some s' \<and> tty_ok s' (text_rows s text rs) \<and> screen_current s' \<and>
     active_tty s' = active_tty s"
  using printf_shows [OF assms(1,3,4)] assms(2) by (auto simp: same_colors_def)

theorem printf_refines_witness:
  "\<exists>s'. printf (\<lambda>_. NUL) ''100%%'' [] demo_tty = Some s' \<and>
     tty_ok s' (text_rows demo_tty ''100%'' (replicate TERMINALS_NUMBER [[]])) \<and> screen_current s' \<and> active_tty s' = active_tty demo_tty"
  by (rule printf_refines [OF demo_tty_ok]) (simp_all add: printf_text_def printf_loop.simps out_text_def)

text \<open>
  C27. \<open>set_tty\<close> with a valid number makes that terminal the active one, adds the line that announces its
  number to it, leaves the rows of the other terminals alone, and the screen shows it; a number that is not a
  terminal changes nothing.
\<close>

theorem set_tty_shows:
  assumes "tty_ok s rs" "\<forall>i < TERMINALS_NUMBER. tty_id (tty_terminals s ! i) = of_nat i"
  shows "\<exists>s'. set_tty buf terminal s = Some s' \<and>
     (if unat terminal < TERMINALS_NUMBER
      then active_tty s' = unat terminal \<and> screen_current s' \<and>
        tty_ok s' (text_rows (s\<lparr>active_tty := unat terminal\<rparr>) (''TTY '' @ num_string 10 False (unat terminal) @ [CHR 0x0A]) rs)
      else s' = s)"
proof (cases "unat terminal < TERMINALS_NUMBER")
  case True
  define n where "n = unat terminal"
  define s1 where "s1 = s\<lparr>vga_screen := clear_vga (vga_screen s), active_tty := n\<rparr>"
  let ?text = "''TTY '' @ num_string 10 False n @ [CHR 0x0A]"
  have n: "n < TERMINALS_NUMBER" using True by (simp add: n_def)
  have ok: "tty_ok s1 rs" using assms(1) n by (simp add: tty_ok_def s1_def clear_vga_def)
  have id: "tty_id (current_tty s1) = of_nat n" using assms(2) n by (simp add: s1_def current_tty_def)
  have rows: "text_rows s1 ?text rs = text_rows (s\<lparr>active_tty := n\<rparr>) ?text rs"
    by (simp add: text_rows_def s1_def current_tty_def)
  obtain s2 where s2: "LOG_TTY buf ''TTY %d'' [ANum (ucast (tty_id (current_tty s1)))] s1 = Some s2"
    "tty_ok s2 (text_rows s1 ?text rs)" "same_colors s1 s2"
    using printf_shows [OF ok set_tty_text [OF n]] number_digits_no_nul [of 10 False n] unfolding LOG_TTY_def id by auto
  have "flush_tty s2 = flush_tty (set_current_tty (current_tty s2) s2)" by (simp add: set_current_tty_def current_tty_def)
  note fl = flush_current [OF s2(2) current_shows [OF s2(2)] refl refl refl, folded this]
  have "set_tty buf terminal s = Some (flush_tty s2)" using s2(1) True by (simp add: set_tty_def s1_def n_def)
  moreover have "active_tty (flush_tty s2) = n" using s2(3) by (simp add: flush_tty_def same_colors_def s1_def)
  moreover have "tty_ok (flush_tty s2) (text_rows (s\<lparr>active_tty := n\<rparr>) ?text rs)" using fl(1) unfolding list_update_id rows .
  ultimately show ?thesis using fl(2) n unfolding n_def by simp
qed (simp add: set_tty_def)

theorem set_tty_shows_witness:
  "\<exists>s'. set_tty (\<lambda>_. NUL) 3 demo_tty = Some s' \<and>
     (if unat (3 :: u8) < TERMINALS_NUMBER
      then active_tty s' = unat (3 :: u8) \<and> screen_current s' \<and>
        tty_ok s' (text_rows (demo_tty\<lparr>active_tty := unat (3 :: u8)\<rparr>) (''TTY '' @ num_string 10 False (unat (3 :: u8)) @ [CHR 0x0A])
          (replicate TERMINALS_NUMBER [[]]))
      else s' = demo_tty)"
  by (rule set_tty_shows [OF demo_tty_ok(1)]) (simp add: demo_tty_def init_terminal_def del: upt_rec_numeral)

text \<open>
  C28. \<open>clear_current_tty\<close> homes the cursor but clears only the upper half of the terminal and of the screen:
  its byte count is the number of cells, and a cell has two bytes. The lower thousand cells keep their contents.
\<close>

theorem clear_current_tty_half:
  assumes "tty_ok s rs"
  shows "tty_buffer (current_tty (clear_current_tty s)) = replicate 1000 zero_cell @ drop 1000 (tty_buffer (current_tty s)) \<and>
     vga_screen (clear_current_tty s) = replicate 1000 zero_cell @ drop 1000 (vga_screen s) \<and>
     tty_line (current_tty (clear_current_tty s)) = 0 \<and> tty_pos (current_tty (clear_current_tty s)) = 0"
proof -
  have b: "length (tty_buffer (current_tty s)) = VGA_HEIGHT * VGA_WIDTH" using current_shows [OF assms] by (simp add: tty_shows_def)
  have v: "length (vga_screen s) = VGA_HEIGHT * VGA_WIDTH" "active_tty s < length (tty_terminals s)" using assms by (simp_all add: tty_ok_def)
  show ?thesis using zero_bytes_cells [OF b] zero_bytes_cells [OF v(1)] v(2)
    unfolding clear_current_tty_def clear_vga_def Let_def set_current_tty_def
    by (simp add: current_tty_def mult.commute)
qed

theorem clear_current_tty_half_witness:
  "tty_buffer (current_tty (clear_current_tty demo_tty)) = replicate 1000 zero_cell @ drop 1000 (tty_buffer (current_tty demo_tty)) \<and>
     vga_screen (clear_current_tty demo_tty) = replicate 1000 zero_cell @ drop 1000 (vga_screen demo_tty) \<and>
     tty_line (current_tty (clear_current_tty demo_tty)) = 0 \<and> tty_pos (current_tty (clear_current_tty demo_tty)) = 0"
  by (rule clear_current_tty_half [OF demo_tty_ok(1)])

end
