(* ===== verification/Lists.thy ===== *)
theory Lists
  imports NodeRings Tty
begin

text \<open>
  The intrusive circular list of \<^verbatim>\<open>kernel/list/list.c\<close>: a list head and its elements are
  objects of two pointers, \<open>prev\<close> at offset 0 and \<open>next\<close> at offset 8, in the byte memory.
\<close>

section \<open>Definitions\<close>

definition lst_prev :: "memory \<Rightarrow> u64 \<Rightarrow> u64" where
  "lst_prev m e = load64 m e"

definition lst_next :: "memory \<Rightarrow> u64 \<Rightarrow> u64" where
  "lst_next m e = load64 m (e + 8)"

definition set_lst_prev :: "memory \<Rightarrow> u64 \<Rightarrow> u64 \<Rightarrow> memory" where
  "set_lst_prev m e v = store64 m e v"

definition set_lst_next :: "memory \<Rightarrow> u64 \<Rightarrow> u64 \<Rightarrow> memory" where
  "set_lst_next m e v = store64 m (e + 8) v"

definition lst_init :: "memory \<Rightarrow> u64 \<Rightarrow> memory" where
  "lst_init m lst = (let m = set_lst_next m lst lst in set_lst_prev m lst lst)"

definition lst_empty :: "memory \<Rightarrow> u64 \<Rightarrow> bool" where
  "lst_empty m lst \<longleftrightarrow> lst_next m lst = lst"

definition lst_remove :: "memory \<Rightarrow> u64 \<Rightarrow> memory" where
  "lst_remove m e =
     (let m = set_lst_next m (lst_prev m e) (lst_next m e)
      in set_lst_prev m (lst_next m e) (lst_prev m e))"

definition lst_pop :: "memory \<Rightarrow> u64 \<Rightarrow> (u64 \<times> memory) result" where
  "lst_pop m lst =
     (if lst_next m lst = lst then Inl (Panic ''lst_pop'')
      else let p = lst_next m lst in Inr (p, lst_remove m p))"

definition lst_push :: "memory \<Rightarrow> u64 \<Rightarrow> u64 \<Rightarrow> memory" where
  "lst_push m lst p =
     (let m = set_lst_next m p (lst_next m lst);
          m = set_lst_prev m p lst;
          m = set_lst_prev m (lst_next m lst) p
      in set_lst_next m lst p)"

partial_function (option) lst_print_loop :: "cbuf \<Rightarrow> memory \<Rightarrow> u64 \<Rightarrow> u64 \<Rightarrow> tty_state \<Rightarrow> tty_state option" where
  "lst_print_loop buf m lst p s =
     (if p \<noteq> lst
      then Option.bind (printf buf '' %p'' [ANum p] s) (\<lambda>s. lst_print_loop buf m lst (lst_next m p) s)
      else printf buf [CHR 0x0A] [] s)"

definition lst_print :: "cbuf \<Rightarrow> memory \<Rightarrow> u64 \<Rightarrow> tty_state \<Rightarrow> tty_state option" where
  "lst_print buf m lst s = lst_print_loop buf m lst (lst_next m lst) s"

section \<open>Representation\<close>

text \<open>Objects whose fields are aligned and do not overlap; a list with its elements in order.\<close>

definition apart :: "u64 list \<Rightarrow> bool" where
  "apart xs \<longleftrightarrow> (\<forall>e \<in> set xs. aligned8 e \<and> aligned8 (e + 8) \<and> e + 8 \<notin> set xs)"

definition lst_rep :: "memory \<Rightarrow> u64 \<Rightarrow> u64 list \<Rightarrow> bool" where
  "lst_rep m lst es \<longleftrightarrow> apart (lst # es) \<and> ring (lst_next m) (lst_prev m) (lst # es)"

lemma set_next_fields:
  assumes "apart xs" "e \<in> set xs" "x \<in> set xs"
  shows "lst_next (set_lst_next m e v) x = ((lst_next m)(e := v)) x" "lst_prev (set_lst_next m e v) x = lst_prev m x"
  using assms by (auto simp: apart_def lst_next_def lst_prev_def set_lst_next_def load64_store64)

lemma set_prev_fields:
  assumes "apart xs" "e \<in> set xs" "x \<in> set xs"
  shows "lst_prev (set_lst_prev m e v) x = ((lst_prev m)(e := v)) x" "lst_next (set_lst_prev m e v) x = lst_next m x"
proof -
  have "e \<noteq> x + 8" using assms by (auto simp: apart_def)
  then show "lst_prev (set_lst_prev m e v) x = ((lst_prev m)(e := v)) x" "lst_next (set_lst_prev m e v) x = lst_next m x"
    using assms by (auto simp: apart_def lst_next_def lst_prev_def set_lst_prev_def load64_store64)
qed

lemma apart_mono: "\<lbrakk>apart xs; set ys \<subseteq> set xs\<rbrakk> \<Longrightarrow> apart ys"
  unfolding apart_def by blast

lemma lst_init_rep:
  assumes "aligned8 lst"
  shows "lst_rep (lst_init m lst) lst []"
proof -
  have "unat (lst + 8) mod 8 = (unat lst + 8) mod 2 ^ 64 mod 8" by (simp add: unat_word_ariths)
  also have "\<dots> = (unat lst + 8) mod 8" by (rule mod_mod_cancel) simp
  finally have "aligned8 (lst + 8)" using assms by (simp add: aligned8_def)
  then have "apart [lst]" using assms by (simp add: apart_def)
  then show ?thesis using set_prev_fields [of "[lst]" lst lst] set_next_fields [of "[lst]" lst lst]
    by (simp add: lst_rep_def lst_init_def ring_single)
qed

lemma lst_empty_rep: "lst_rep m lst es \<Longrightarrow> lst_empty m lst \<longleftrightarrow> es = []"
  using ring_self(1) [of "lst_next m" "lst_prev m" lst es] by (simp add: lst_rep_def lst_empty_def)

lemma lst_remove_fields:
  assumes "apart xs" "ring (lst_next m) (lst_prev m) xs" "e \<in> set xs" "length xs > 1" "x \<in> set xs"
  shows "lst_next (lst_remove m e) x = ((lst_next m)(lst_prev m e := lst_next m e)) x"
    "lst_prev (lst_remove m e) x = ((lst_prev m)(lst_next m e := lst_prev m e)) x"
proof -
  define m1 where "m1 = set_lst_next m (lst_prev m e) (lst_next m e)"
  have c: "lst_next m e \<in> set xs" "lst_prev m e \<in> set xs" using ring_closed [OF assms(2,3)] by auto
  have "lst_prev m e \<noteq> e"
  proof -
    obtain us vs where xs: "xs = us @ e # vs" using assms(3) by (meson split_list)
    have r: "ring (lst_next m) (lst_prev m) (e # vs @ us)" using ring_append_commute [OF assms(2) [unfolded xs]] by simp
    have "vs @ us \<noteq> []" using assms(4) xs by auto
    then show ?thesis using ring_self(2) [OF r] by blast
  qed
  then have m1: "lst_next m1 e = lst_next m e" "lst_prev m1 y = lst_prev m y" if "y \<in> set xs" for y
    using set_next_fields [OF assms(1) c(2)] assms(3) that by (simp_all add: m1_def)
  have rm: "lst_remove m e = set_lst_prev m1 (lst_next m1 e) (lst_prev m1 e)" by (simp only: lst_remove_def m1_def Let_def)
  show "lst_next (lst_remove m e) x = ((lst_next m)(lst_prev m e := lst_next m e)) x"
    unfolding rm using set_prev_fields(2) [OF assms(1) c(1) assms(5)] set_next_fields(1) [OF assms(1) c(2) assms(5)] m1(1) [OF assms(3)]
    by (simp add: m1_def)
  show "lst_prev (lst_remove m e) x = ((lst_prev m)(lst_next m e := lst_prev m e)) x"
    unfolding rm using set_prev_fields(1) [OF assms(1) c(1) assms(5)] m1(1) [OF assms(3)] m1(2) [OF assms(5)] m1(2) [OF assms(3)] by simp
qed

lemma lst_remove_rep:
  assumes "lst_rep m lst (us @ e # vs)"
  shows "lst_rep (lst_remove m e) lst (us @ vs)"
proof -
  let ?xs = "(lst # us) @ e # vs"
  have ap: "apart ?xs" and r: "ring (lst_next m) (lst_prev m) ?xs" using assms by (simp_all add: lst_rep_def)
  have "ring ((lst_next m)(lst_prev m e := lst_next m e)) ((lst_prev m)(lst_next m e := lst_prev m e)) ((lst # us) @ vs)"
    using ring_remove [OF r] by simp
  then have "ring (lst_next (lst_remove m e)) (lst_prev (lst_remove m e)) ((lst # us) @ vs)"
    using lst_remove_fields [OF ap r] by (rule ring_cong) auto
  moreover have "apart ((lst # us) @ vs)" using ap by (rule apart_mono) auto
  ultimately show ?thesis by (simp add: lst_rep_def)
qed

lemma lst_push_rep:
  assumes "lst_rep m lst es" "apart (p # lst # es)" "p \<notin> set (lst # es)"
  shows "lst_rep (lst_push m lst p) lst (p # es)"
proof -
  let ?nx = "lst_next m" and ?pv = "lst_prev m" and ?xs = "p # lst # es"
  have r: "ring ?nx ?pv (lst # es)" using assms(1) by (simp add: lst_rep_def)
  define b where "b = ?nx lst"
  have b: "b \<in> set ?xs" "b \<noteq> p" using ring_closed(1) [OF r, of lst] assms(3) by (auto simp: b_def)
  define m1 where "m1 = set_lst_next m p b"
  define m2 where "m2 = set_lst_prev m1 p lst"
  define m3 where "m3 = set_lst_prev m2 b p"
  have ne: "lst \<noteq> p" using assms(3) by auto
  note n = set_next_fields [OF assms(2)] and v = set_prev_fields [OF assms(2)]
  have "lst_next m2 lst = b" using n(1) [of p lst m b] v(2) [of p lst m1 lst] ne by (simp add: m1_def m2_def b_def)
  then have push: "lst_push m lst p = set_lst_next m3 lst p"
    unfolding lst_push_def Let_def b_def [symmetric] m1_def [symmetric] m2_def [symmetric] m3_def [symmetric] by (simp add: m3_def)
  have nx: "lst_next (lst_push m lst p) x = (?nx(p := b, lst := p)) x" if "x \<in> set ?xs" for x
    unfolding push using n(1) [of lst x m3 p] n(1) [of p x m b] v(2) [of b x m2 p] v(2) [of p x m1 lst] that b(1)
    by (simp add: m3_def m2_def m1_def)
  have pv: "lst_prev (lst_push m lst p) x = (?pv(p := lst, b := p)) x" if "x \<in> set ?xs" for x
    unfolding push using n(2) [of lst x m3 p] n(2) [of p x m b] v(1) [of b x m2 p] v(1) [of p x m1 lst] that b(1)
    by (simp add: m3_def m2_def m1_def)
  have "ring (?nx(p := b, lst := p)) (?pv(p := lst, b := p)) (es @ [lst, p])"
  proof (cases es)
    case Nil
    then have "b = lst" using ring_self(1) [OF r] by (simp add: b_def)
    then show ?thesis using Nil ne by (simp add: ring_Cons)
  next
    case (Cons e es')
    then have be: "b = e" using ring_next_hd [OF r] by (simp add: b_def)
    have "ring ?nx ?pv (e # es' @ [lst])" using ring_rotate1 [OF r] Cons by simp
    from ring_insert [OF this, of p] show ?thesis using assms(3) Cons be by simp
  qed
  from ring_append_commute [OF this] have "ring (?nx(p := b, lst := p)) (?pv(p := lst, b := p)) (lst # p # es)" by simp
  then have "ring (lst_next (lst_push m lst p)) (lst_prev (lst_push m lst p)) (lst # p # es)"
    using nx pv by (rule ring_cong) auto
  moreover have "apart (lst # p # es)" using assms(2) by (rule apart_mono) auto
  ultimately show ?thesis by (simp add: lst_rep_def)
qed

lemma lst_pop_rep:
  assumes "lst_rep m lst es"
  shows "lst_pop m lst = (case es of [] \<Rightarrow> Inl (Panic ''lst_pop'') | e # _ \<Rightarrow> Inr (e, lst_remove m e))"
proof (cases es)
  case (Cons e es')
  have r: "ring (lst_next m) (lst_prev m) (lst # e # es')" using assms Cons by (simp add: lst_rep_def)
  then have "lst_next m lst = e" "e \<noteq> lst" using ring_next_hd [OF r] ring_distinct [OF r] by auto
  then show ?thesis using Cons by (simp add: lst_pop_def)
qed (use lst_empty_rep [OF assms] in \<open>simp add: lst_pop_def lst_empty_def\<close>)

section \<open>Properties\<close>

text \<open>
  C29. The operations on the circular list are those of a sequence: \<open>lst_empty\<close> tests it,
  \<open>lst_pop\<close> takes its first element and panics exactly when there is none, \<open>lst_remove\<close>
  takes out any element and keeps the order of the others, \<open>lst_push\<close> adds an element in front.
\<close>

theorem lst_refines:
  assumes "lst_rep m lst es"
  shows "(lst_empty m lst \<longleftrightarrow> es = []) \<and>
     lst_pop m lst = (case es of [] \<Rightarrow> Inl (Panic ''lst_pop'') | e # _ \<Rightarrow> Inr (e, lst_remove m e)) \<and>
     (\<forall>us e vs. es = us @ e # vs \<longrightarrow> lst_rep (lst_remove m e) lst (us @ vs)) \<and>
     (\<forall>p. apart (p # lst # es) \<and> p \<notin> set (lst # es) \<longrightarrow> lst_rep (lst_push m lst p) lst (p # es))"
  using lst_empty_rep [OF assms] lst_pop_rep [OF assms] lst_remove_rep [of m lst] lst_push_rep [OF assms] assms by blast

theorem lst_refines_witness:
  "lst_rep (lst_push (lst_init (\<lambda>_. 0) 0x1000) 0x1000 0x2000) 0x1000 [0x2000] \<and>
   lst_pop (lst_init (\<lambda>_. 0) 0x1000) 0x1000 = Inl (Panic ''lst_pop'')"
  using lst_refines [OF lst_init_rep [of "0x1000" "\<lambda>_. 0"]] by (simp add: aligned8_def apart_def)

end
