(* ===== verification/Threads.thy ===== *)
theory Threads
  imports NodeRings
begin

text \<open>
  Threads and thread lists (\<^verbatim>\<open>kernel/sched/threads.c\<close>). Every thread, stack and list node is
  a page from the page allocator, so the objects live in the byte memory and their fields are quadwords of
  their page. A function that takes \<open>struct thread_node **list\<close> takes the value of \<open>*list\<close> and
  returns the new one; the cell itself is never part of a node.
\<close>

section \<open>Definitions\<close>

datatype sched_states = NEW | RUNNABLE | ON_CPU | WAIT | EXIT | UNUSED

primrec state_code :: "sched_states \<Rightarrow> u32" where
  "state_code NEW = 0"
| "state_code RUNNABLE = 1"
| "state_code ON_CPU = 2"
| "state_code WAIT = 3"
| "state_code EXIT = 4"
| "state_code UNUSED = 5"

text \<open>The fields of \<open>struct thread\<close>, \<open>struct thread_node\<close> and \<open>struct context\<close>, as quadword indices.\<close>

definition T_CONTEXT :: nat where [simp]: "T_CONTEXT = 0"
definition T_START :: nat where [simp]: "T_START = 1"
definition T_STACK :: nat where [simp]: "T_STACK = 2"
definition T_KSTACK :: nat where [simp]: "T_KSTACK = 3"
definition T_ARGC :: nat where [simp]: "T_ARGC = 4"
definition T_ARGS :: nat where [simp]: "T_ARGS = 5"
definition T_STATE :: nat where [simp]: "T_STATE = 6"

definition N_DATA :: nat where [simp]: "N_DATA = 0"
definition N_NEXT :: nat where [simp]: "N_NEXT = 1"
definition N_PREV :: nat where [simp]: "N_PREV = 2"

definition CTX_RSI :: nat where [simp]: "CTX_RSI = 4"
definition CTX_RDI :: nat where [simp]: "CTX_RDI = 5"
definition CTX_SIZE :: u64 where [simp]: "CTX_SIZE = 128"

definition thread_state :: "memory \<Rightarrow> u64 \<Rightarrow> u32" where
  "thread_state m t = fld32 m t T_STATE"

definition init_thread :: "u64 \<Rightarrow> u64 \<Rightarrow> u32 \<Rightarrow> u64 \<Rightarrow> 'a kstate_scheme \<Rightarrow> 'a kstate_scheme" where
  "init_thread thread start_function argc args s =
     (let (stack, s) = kalloc s;
          s = s\<lparr>mem := set_fld (mem s) thread T_STACK stack\<rparr>;
          (kstack, s) = kalloc s;
          m = set_fld (mem s) thread T_KSTACK kstack;
          m = memset m (fld m thread T_STACK) 0 PGSIZE;
          m = memset m (fld m thread T_KSTACK) 0 PGSIZE;
          m = set_fld m thread T_KSTACK (fld m thread T_KSTACK + PGSIZE);
          m = set_fld m thread T_STACK (fld m thread T_STACK + PGSIZE);
          m = set_fld m thread T_START start_function;
          m = set_fld m thread T_ARGC (scast argc);
          m = set_fld m thread T_ARGS args;
          sp = fld m thread T_STACK;
          sp = sp - 8;
          m = store64 m sp start_function;
          sp = sp - (CTX_SIZE - 8);
          m = memset m sp 0 (CTX_SIZE - 8);
          m = set_fld m thread T_CONTEXT sp;
          m = set_fld m (fld m thread T_CONTEXT) CTX_RDI (scast argc);
          m = set_fld m (fld m thread T_CONTEXT) CTX_RSI args
      in s\<lparr>mem := m\<rparr>)"

definition create_thread :: "u64 \<Rightarrow> u32 \<Rightarrow> u64 \<Rightarrow> 'a kstate_scheme \<Rightarrow> u64 \<times> 'a kstate_scheme" where
  "create_thread start_function argc args s =
     (let (new_thread, s) = kalloc s in (new_thread, init_thread new_thread start_function argc args s))"

definition push_thread_list :: "u64 \<Rightarrow> u64 \<Rightarrow> 'a kstate_scheme \<Rightarrow> u64 \<times> 'a kstate_scheme" where
  "push_thread_list list thread s =
     (let (new_node, s) = kalloc s;
          m = set_fld (mem s) new_node N_DATA thread
      in if list \<noteq> 0 then
           let m = set_fld m new_node N_NEXT list;
               m = set_fld m new_node N_PREV (fld m list N_PREV);
               m = set_fld m (fld m list N_PREV) N_NEXT new_node;
               m = set_fld m list N_PREV new_node
           in (list, s\<lparr>mem := m\<rparr>)
         else
           let m = set_fld m new_node N_PREV new_node;
               m = set_fld m new_node N_NEXT new_node
           in (new_node, s\<lparr>mem := m\<rparr>))"

text \<open>
  The condition of the inner \<open>if\<close> is an assignment: it stores the node into its own \<open>next\<close> and tests the
  stored pointer.
\<close>

definition pop_thread_list :: "u64 \<Rightarrow> u64 \<Rightarrow> 'a kstate_scheme \<Rightarrow> (u64 \<times> u64 \<times> 'a kstate_scheme) result" where
  "pop_thread_list kend list s =
     (if list = 0 then Inl (Panic (''Empty thread list while popping'' @ [CHR 0x0A]))
      else
        let t = fld (mem s) list N_DATA;
            s = s\<lparr>mem := set_fld (mem s) list N_NEXT list\<rparr>
        in if list \<noteq> 0 then bind_result (kfree kend list s) (\<lambda>s. Inr (t, 0, s))
           else
             let m = mem s;
                 m = set_fld m (fld m list N_PREV) N_NEXT (fld m list N_NEXT);
                 m = set_fld m (fld m list N_NEXT) N_PREV (fld m list N_PREV)
             in bind_result (kfree kend list (s\<lparr>mem := m\<rparr>)) (\<lambda>s. Inr (t, list, s)))"

definition shift_thread_list :: "u64 \<Rightarrow> memory \<Rightarrow> u64 result" where
  "shift_thread_list list m =
     (if list = 0 then Inl (Panic (''Empty thread list while shifting'' @ [CHR 0x0A])) else Inr (fld m list N_NEXT))"

definition peek_thread_list :: "u64 \<Rightarrow> memory \<Rightarrow> u64 result" where
  "peek_thread_list list m =
     (if list = 0 then Inl (Panic (''Empty thread list while peeking'' @ [CHR 0x0A])) else Inr (fld m list N_DATA))"

definition change_thread_state :: "u64 \<Rightarrow> sched_states \<Rightarrow> memory \<Rightarrow> memory" where
  "change_thread_state thread new_state m = set_fld32 m thread T_STATE (state_code new_state)"

section \<open>Node lists\<close>

text \<open>
  A list of nodes, each on a page of its own: the nodes in order from the head, and the data
  they point to. The empty list is the null pointer.
\<close>

abbreviation node_next :: "memory \<Rightarrow> u64 \<Rightarrow> u64" where
  "node_next m n \<equiv> fld m n N_NEXT"

abbreviation node_prev :: "memory \<Rightarrow> u64 \<Rightarrow> u64" where
  "node_prev m n \<equiv> fld m n N_PREV"

definition node_list :: "memory \<Rightarrow> u64 \<Rightarrow> (u64 \<times> u64) list \<Rightarrow> bool" where
  "node_list m list ns \<longleftrightarrow>
     (if ns = [] then list = 0
      else list = fst (hd ns) \<and> ring (node_next m) (node_prev m) (map fst ns)) \<and>
     (\<forall>(n, d) \<in> set ns. page_aligned n \<and> n \<noteq> 0 \<and> fld m n N_DATA = d)"

text \<open>The stores of \<open>push_thread_list\<close>, after the new node has been allocated.\<close>

definition link_node :: "u64 \<Rightarrow> u64 \<Rightarrow> u64 \<Rightarrow> memory \<Rightarrow> memory" where
  "link_node list new_node d m =
     (let m = set_fld m new_node N_DATA d;
          m = set_fld m new_node N_NEXT list;
          m = set_fld m new_node N_PREV (fld m list N_PREV);
          m = set_fld m (fld m list N_PREV) N_NEXT new_node
      in set_fld m list N_PREV new_node)"

text \<open>Adding several items; rotating several times.\<close>

primrec push_all :: "(u64 \<Rightarrow> u64 \<Rightarrow> 's \<Rightarrow> u64 \<times> 's) \<Rightarrow> u64 list \<Rightarrow> u64 \<Rightarrow> 's \<Rightarrow> u64 \<times> 's" where
  "push_all push [] list s = (list, s)"
| "push_all push (d # ds) list s = (let (list, s) = push list d s in push_all push ds list s)"

primrec shift_many :: "(u64 \<Rightarrow> memory \<Rightarrow> u64 result) \<Rightarrow> nat \<Rightarrow> u64 \<Rightarrow> memory \<Rightarrow> u64 result" where
  "shift_many shift 0 list m = Inr list"
| "shift_many shift (Suc k) list m = bind_result (shift list m) (\<lambda>list. shift_many shift k list m)"

text \<open>The contract of a list of nodes: adding at the end, rotating, reading the front.\<close>

locale node_queue =
  fixes push :: "u64 \<Rightarrow> u64 \<Rightarrow> 'a kstate_scheme \<Rightarrow> u64 \<times> 'a kstate_scheme"
    and shift :: "u64 \<Rightarrow> memory \<Rightarrow> u64 result"
    and peek :: "u64 \<Rightarrow> memory \<Rightarrow> u64 result"
  assumes push_law: "\<lbrakk>kmem_inv kend s (p # ps); node_list (mem s) list ns; set (p # ps) \<inter> set (map fst ns) = {}\<rbrakk> \<Longrightarrow>
      \<exists>list' s'. push list d s = (list', s') \<and> kmem_inv kend s' ps \<and> node_list (mem s') list' (ns @ [(p, d)]) \<and>
        only_pages (set (map fst ns @ [p])) (mem s) (mem s')"
    and shift_law: "\<lbrakk>node_list m list ns; ns \<noteq> []\<rbrakk> \<Longrightarrow> \<exists>list'. shift list m = Inr list' \<and> node_list m list' (rotate1 ns)"
    and peek_law: "\<lbrakk>node_list m list ns; ns \<noteq> []\<rbrakk> \<Longrightarrow> peek list m = Inr (snd (hd ns))"
    and shift_empty: "node_list m list [] \<Longrightarrow> \<exists>msg. shift list m = Inl (Panic msg)"
    and peek_empty: "node_list m list [] \<Longrightarrow> \<exists>msg. peek list m = Inl (Panic msg)"

section \<open>Operations on node lists\<close>

lemma node_list_aligned: "\<lbrakk>node_list m list ns; n \<in> set (map fst ns)\<rbrakk> \<Longrightarrow> page_aligned n \<and> n \<noteq> 0"
  by (auto simp: node_list_def)

lemma node_list_cong:
  assumes "node_list m list ns"
    and "\<And>n i. n \<in> set (map fst ns) \<Longrightarrow> i < 512 \<Longrightarrow> fld m' n i = fld m n i"
  shows "node_list m' list ns"
proof -
  have "ring (node_next m') (node_prev m') (map fst ns)" if "ring (node_next m) (node_prev m) (map fst ns)"
    using that by (rule ring_cong) (use assms(2) in simp_all)
  moreover have "fld m' n N_DATA = d" if "(n, d) \<in> set ns" for n d
    using assms(1) that assms(2) [of n 0] by (force simp: node_list_def)
  ultimately show ?thesis using assms(1) unfolding node_list_def by (auto split: if_splits)
qed

lemma node_list_frame:
  assumes "node_list m list ns" "only_pages Q m m'" "set (map fst ns) \<inter> Q = {}"
  shows "node_list m' list ns"
proof (rule node_list_cong [OF assms(1)])
  fix n i assume n: "n \<in> set (map fst ns)" and i: "i < (512 :: nat)"
  from n assms(3) have "n \<notin> Q" by blast
  then show "fld m' n i = fld m n i" using only_pages_fld [OF assms(2) _ _ i] node_list_aligned [OF assms(1) n] by blast
qed

lemma node_list_hd:
  assumes "node_list m list ns" "ns \<noteq> []"
  shows "list = fst (hd ns)" "list \<noteq> 0" "fld m list N_DATA = snd (hd ns)" "list \<in> set (map fst ns)"
  using assms by (cases ns; auto simp: node_list_def)+

lemma shift_thread_list_law:
  assumes "node_list m list ns" "ns \<noteq> []"
  shows "\<exists>list'. shift_thread_list list m = Inr list' \<and> node_list m list' (rotate1 ns)"
proof -
  obtain n d ns' where ns: "ns = (n, d) # ns'" using assms(2) by (cases ns) auto
  have r: "ring (node_next m) (node_prev m) (n # map fst ns')" and l: "list = n" "n \<noteq> 0"
    using assms(1) by (auto simp: node_list_def ns)
  have "ring (node_next m) (node_prev m) (map fst (rotate1 ns))" using ring_rotate1 [OF r] by (simp add: ns)
  moreover have "node_next m n = fst (hd (rotate1 ns))" using ring_next_hd [OF r] by (cases ns') (simp_all add: ns)
  ultimately show ?thesis using assms l by (auto simp: shift_thread_list_def node_list_def ns)
qed

lemma peek_thread_list_law: "\<lbrakk>node_list m list ns; ns \<noteq> []\<rbrakk> \<Longrightarrow> peek_thread_list list m = Inr (snd (hd ns))"
  using node_list_hd [of m list ns] by (simp add: peek_thread_list_def)

lemma link_node_eq:
  assumes "page_aligned list" "page_aligned p" "fld m list N_PREV = l" "p \<noteq> list"
  shows "link_node list p d m = set_fld (set_fld (set_fld (set_fld (set_fld m p N_DATA d) p N_NEXT list) p N_PREV l) l N_NEXT p) list N_PREV p"
  using assms by (simp add: link_node_def Let_def fld_set_fld)

lemma link_node_fields:
  assumes "page_aligned list" "page_aligned p" "page_aligned l" "fld m list N_PREV = l" "p \<noteq> list" "page_aligned n" "i < 512" "p \<noteq> l"
  shows "fld (link_node list p d m) n i =
    (if i = N_DATA \<and> n = p then d
     else if i = N_NEXT then ((node_next m)(p := list, l := p)) n
     else if i = N_PREV then ((node_prev m)(p := l, list := p)) n else fld m n i)"
  using assms by (auto simp: link_node_def Let_def fld_set_fld)

lemma push_thread_list_link:
  "push_thread_list list d s = (let (p, s) = kalloc s in
     if list \<noteq> 0 then (list, s\<lparr>mem := link_node list p d (mem s)\<rparr>)
     else (p, s\<lparr>mem := set_fld (set_fld (set_fld (mem s) p N_DATA d) p N_PREV p) p N_NEXT p\<rparr>))"
  by (simp add: push_thread_list_def link_node_def Let_def split: prod.split)

lemma link_node_list:
  assumes "node_list m list ns" "ns \<noteq> []" "p \<notin> set (map fst ns)" "page_aligned p" "p \<noteq> 0"
  shows "node_list (link_node list p d m) list (ns @ [(p, d)])" "only_pages (set (map fst ns @ [p])) m (link_node list p d m)"
proof -
  let ?xs = "map fst ns"
  obtain xs' where xs: "?xs = list # xs'" using node_list_hd(1) [OF assms(1,2)] assms(2) by (cases ns) auto
  have r: "ring (node_next m) (node_prev m) (list # xs')" using assms(1,2) unfolding xs [symmetric] by (simp add: node_list_def)
  define l where "l = last (list # xs')"
  have l: "fld m list N_PREV = l" "l \<in> set ?xs" using ring_prev_hd [OF r] last_in_set [of "list # xs'"] unfolding l_def xs by simp_all
  have al: "page_aligned n" if "n \<in> set ?xs" for n using node_list_aligned [OF assms(1) that] by blast
  have lst: "list \<in> set ?xs" using xs by simp
  have ne: "p \<noteq> list" "p \<noteq> l" using assms(3) l(2) lst by auto
  note f = link_node_fields [OF al [OF lst] assms(4) al [OF l(2)] l(1) ne(1) _ _ ne(2)]
  have "ring ((node_next m)(p := list, l := p)) ((node_prev m)(p := l, list := p)) ((list # xs') @ [p])"
    unfolding l_def using assms(3) xs by (intro ring_insert [OF r]) simp
  then have "ring (node_next (link_node list p d m)) (node_prev (link_node list p d m)) (?xs @ [p])"
    unfolding xs [symmetric]
  proof (rule ring_cong)
    fix n assume "n \<in> set (?xs @ [p])"
    then have "page_aligned n" using al assms(4) by auto
    then show "node_next (link_node list p d m) n = ((node_next m)(p := list, l := p)) n"
      "node_prev (link_node list p d m) n = ((node_prev m)(p := l, list := p)) n" by (simp_all add: f)
  qed
  moreover have "fld (link_node list p d m) n N_DATA = e" if "(n, e) \<in> set ns" for n e
  proof -
    have "n \<noteq> p" "page_aligned n" "fld m n N_DATA = e" using that assms(1,3) by (force simp: node_list_def)+
    then show ?thesis by (simp add: f)
  qed
  moreover have "fld (link_node list p d m) p N_DATA = d" using assms(4) by (simp add: f)
  ultimately show "node_list (link_node list p d m) list (ns @ [(p, d)])"
    using assms by (auto simp: node_list_def)
  have "\<forall>q \<in> set (?xs @ [p]). page_aligned q" using al assms(4) by auto
  then have "only_pages (set (?xs @ [p])) m m" by (rule only_pages_refl)
  then show "only_pages (set (?xs @ [p])) m (link_node list p d m)"
    unfolding link_node_eq [OF al [OF lst] assms(4) l(1) ne(1)] using l(2) lst by (auto intro!: only_pages_set_fld)
qed

lemma push_thread_list_law:
  assumes "kmem_inv kend s (p # ps)" "node_list (mem s) list ns" "set (p # ps) \<inter> set (map fst ns) = {}"
  shows "\<exists>list' s'. push_thread_list list d s = (list', s') \<and> kmem_inv kend s' ps \<and> node_list (mem s') list' (ns @ [(p, d)]) \<and>
     only_pages (set (map fst ns @ [p])) (mem s) (mem s')"
proof -
  obtain s1 where s1: "kalloc s = (p, s1)" "kmem_inv kend s1 ps" using kalloc_cons [OF assms(1)] by blast
  have p: "page_aligned p" "p \<noteq> 0" "p \<notin> set ps" using assms(1) by (auto simp: kmem_inv_def valid_page_def)
  let ?Q = "set (map fst ns @ [p])"
  have al: "\<forall>q \<in> ?Q. page_aligned q" using node_list_aligned [OF assms(2)] p(1) by auto
  note fr = only_pages_kalloc [OF s1(1) p(1)]
  have ns: "node_list (mem s1) list ns" using assms(3) by (intro node_list_frame [OF assms(2) fr]) auto
  have fr1: "only_pages ?Q (mem s) (mem s1)" using al by (intro only_pages_mono [OF fr]) auto
  have disj: "set ps \<inter> ?Q = {}" using assms(3) p(3) by auto
  show ?thesis
  proof (cases "ns = []")
    case True
    define m' where "m' = set_fld (set_fld (set_fld (mem s1) p N_DATA d) p N_PREV p) p N_NEXT p"
    have "only_pages ?Q (mem s1) m'" unfolding m'_def by (intro only_pages_set_fld only_pages_refl al) simp_all
    moreover have "node_list m' p [(p, d)]" using p by (simp add: node_list_def ring_single m'_def fld_set_fld)
    ultimately show ?thesis
      using True ns s1 only_pages_kmem_inv [OF s1(2), of ?Q m'] disj only_pages_trans [OF fr1]
      by (simp add: push_thread_list_link m'_def node_list_def)
  next
    case False
    have "p \<notin> set (map fst ns)" using assms(3) by auto
    note l = link_node_list [OF ns False this p(1,2), of d]
    show ?thesis
      using s1(1) node_list_hd(2) [OF ns False] l(1) only_pages_kmem_inv [OF s1(2) l(2) disj] only_pages_trans [OF fr1 l(2)]
      by (simp add: push_thread_list_link)
  qed
qed

context node_queue
begin

lemma push_all_spec:
  "\<lbrakk>kmem_inv kend s (ps @ qs); length ps = length ds; node_list (mem s) list ns; set (ps @ qs) \<inter> set (map fst ns) = {}\<rbrakk> \<Longrightarrow>
    \<exists>list' s'. push_all push ds list s = (list', s') \<and> kmem_inv kend s' qs \<and> node_list (mem s') list' (ns @ zip ps ds)"
proof (induction ds arbitrary: ps list s ns)
  case (Cons d ds)
  then obtain p ps' where ps: "ps = p # ps'" by (cases ps) auto
  obtain list1 s1 where s1: "push list d s = (list1, s1)" "kmem_inv kend s1 (ps' @ qs)" "node_list (mem s1) list1 (ns @ [(p, d)])"
    using push_law [of kend s p "ps' @ qs" list ns d] Cons.prems(1,3,4) by (auto simp: ps)
  have "distinct (p # ps' @ qs)" using Cons.prems(1) by (simp add: ps kmem_inv_def)
  then have "set (ps' @ qs) \<inter> set (map fst (ns @ [(p, d)])) = {}" using Cons.prems(4) by (auto simp: ps)
  from Cons.IH [OF s1(2) _ s1(3) this] show ?case using s1(1) Cons.prems(2) by (simp add: ps)
qed simp

lemma shift_many_spec:
  "\<lbrakk>node_list m list ns; ns \<noteq> []\<rbrakk> \<Longrightarrow> \<exists>list'. shift_many shift k list m = Inr list' \<and> node_list m list' (rotate k ns)"
proof (induction k arbitrary: list ns)
  case (Suc k)
  obtain list1 where l1: "shift list m = Inr list1" "node_list m list1 (rotate1 ns)" using shift_law [OF Suc.prems] by blast
  have "rotate1 ns \<noteq> []" using Suc.prems(2) by simp
  from Suc.IH [OF l1(2) this] show ?case using l1(1) by (simp add: rotate1_rotate_swap [symmetric])
qed simp

lemma queue_in_order:
  assumes "kmem_inv kend s (ps @ qs)" "length ps = length ds" "ds \<noteq> []"
  shows "\<exists>list s'. push_all push ds 0 s = (list, s') \<and> kmem_inv kend s' qs \<and>
     (\<forall>k. \<exists>list'. shift_many shift k list (mem s') = Inr list' \<and> peek list' (mem s') = Inr (ds ! (k mod length ds)))"
proof -
  have "node_list (mem s) 0 []" by (simp add: node_list_def)
  from push_all_spec [OF assms(1,2) this] obtain list s' where l: "push_all push ds 0 s = (list, s')" "kmem_inv kend s' qs"
    "node_list (mem s') list (zip ps ds)" by auto
  have ne: "zip ps ds \<noteq> []" using assms(2,3) by (cases ps; cases ds) auto
  have "\<exists>list'. shift_many shift k list (mem s') = Inr list' \<and> peek list' (mem s') = Inr (ds ! (k mod length ds))" for k
  proof -
    obtain list' where l': "shift_many shift k list (mem s') = Inr list'" "node_list (mem s') list' (rotate k (zip ps ds))"
      using shift_many_spec [OF l(3) ne] by blast
    have "snd (hd (rotate k (zip ps ds))) = ds ! (k mod length ds)"
      using hd_rotate_conv_nth [OF ne, of k] assms(2,3) by simp
    then show ?thesis using l'(1) peek_law [OF l'(2)] ne by simp
  qed
  then show ?thesis using l(1,2) by blast
qed

end

interpretation thread_queue: node_queue push_thread_list shift_thread_list peek_thread_list
proof (unfold_locales, goal_cases)
  case (1 kend s p ps list ns d) then show ?case by (rule push_thread_list_law)
next
  case (2 m list ns) then show ?case by (rule shift_thread_list_law)
next
  case (3 m list ns) then show ?case by (rule peek_thread_list_law)
qed (simp_all add: node_list_def shift_thread_list_def peek_thread_list_def)

section \<open>Properties\<close>

text \<open>
  A thread list built by \<open>push_thread_list\<close> is a round-robin queue: it takes one page per thread, and
  shifting it \<open>k\<close> times and peeking yields the thread pushed at position \<open>k\<close> modulo their number.
\<close>

theorem thread_list_round_robin:
  assumes "kmem_inv kend s (ps @ qs)" "length ps = length ts" "ts \<noteq> []"
  shows "\<exists>list s'. push_all push_thread_list ts 0 s = (list, s') \<and> kmem_inv kend s' qs \<and>
     (\<forall>k. \<exists>list'. shift_many shift_thread_list k list (mem s') = Inr list' \<and>
        peek_thread_list list' (mem s') = Inr (ts ! (k mod length ts)))"
  by (rule thread_queue.queue_in_order [OF assms])

lemma demo_two_pages: "\<exists>s :: kstate. kmem_inv 0x100000 s [0x201000, 0x200000]"
proof -
  obtain s1 :: kstate where "kmem_inv 0x100000 s1 [0x200000]"
    using kfree_valid [of "0x100000" "\<lparr>mem = \<lambda>_. 0, freelist = 0\<rparr>" "[]" "0x200000"] by (auto simp: kmem_inv_def valid_page_def page_aligned_def)
  then show ?thesis
    using kfree_valid [of "0x100000" s1 "[0x200000]" "0x201000"] by (auto simp: valid_page_def page_aligned_def)
qed

theorem thread_list_round_robin_witness:
  "\<exists>(s :: kstate) list s'. push_all push_thread_list [0x300000, 0x301000] 0 s = (list, s') \<and> kmem_inv 0x100000 s' [] \<and>
     (\<forall>k. \<exists>list'. shift_many shift_thread_list k list (mem s') = Inr list' \<and>
        peek_thread_list list' (mem s') = Inr ([0x300000, 0x301000] ! (k mod length [0x300000 :: u64, 0x301000])))"
proof -
  obtain s :: kstate where s: "kmem_inv 0x100000 s ([0x201000, 0x200000] @ [])" using demo_two_pages by auto
  show ?thesis using thread_list_round_robin [OF s, of "[0x300000, 0x301000]"] by (intro exI [of _ s]) simp
qed

text \<open>
  C31. \<open>pop_thread_list\<close> on a list of any length returns the first thread but leaves the empty list: all
  other threads of the list are lost and only one page comes back, because the test for a single node is an
  assignment.
\<close>

theorem pop_thread_list_loses:
  assumes "node_list (mem s) list ns" "ns \<noteq> []" "kmem_inv kend s ps" "valid_page kend list" "list \<notin> set ps"
  shows "\<exists>s'. pop_thread_list kend list s = Inr (snd (hd ns), 0, s') \<and> kmem_inv kend s' (list # ps)"
proof -
  have l: "list \<noteq> 0" "fld (mem s) list N_DATA = snd (hd ns)" using node_list_hd [OF assms(1,2)] by simp_all
  have al: "page_aligned list" using assms(4) by (simp add: valid_page_def)
  define s1 where "s1 = s\<lparr>mem := set_fld (mem s) list N_NEXT list\<rparr>"
  have "only_pages {list} (mem s) (set_fld (mem s) list N_NEXT list)" using al by (intro only_pages_set_fld only_pages_refl) simp_all
  then have "kmem_inv kend s1 ps" unfolding s1_def using assms(5) by (intro only_pages_kmem_inv [OF assms(3)]) auto
  then show ?thesis using kfree_valid [OF _ assms(4,5)] l by (fastforce simp: pop_thread_list_def Let_def s1_def)
qed

theorem pop_thread_list_loses_witness:
  "\<exists>(s :: kstate) list s'. node_list (mem s) list [(0x201000, 0x300000), (0x200000, 0x301000)] \<and>
     pop_thread_list 0x100000 list s = Inr (0x300000, 0, s') \<and> kmem_inv 0x100000 s' [list]"
proof -
  obtain s :: kstate where s: "kmem_inv 0x100000 s ([0x201000, 0x200000] @ [])" using demo_two_pages by auto
  obtain list s' where l: "kmem_inv 0x100000 (s' :: kstate) []" "node_list (mem s') list [(0x201000, 0x300000), (0x200000, 0x301000)]"
    using thread_queue.push_all_spec [OF s, of "[0x300000, 0x301000]" 0 "[]"] by (auto simp: node_list_def)
  then have "valid_page 0x100000 list" by (simp add: node_list_def valid_page_def page_aligned_def)
  from pop_thread_list_loses [OF l(2) _ l(1) this] l(2) show ?thesis by auto
qed

end
