(* ===== verification/Percpu.thy ===== *)
theory Percpu
  imports Threads Format
begin

text \<open>
  Per-processor data (\<^verbatim>\<open>kernel/sched/percpu.c\<close>): the array of processor records, the lookup of the
  executing processor, descriptor tables and task state segments, and the nesting of interrupt disabling.
  The executing processor is named by its APIC id, an argument of the functions that read it
  (\<open>get_apic_id\<close> is a \<open>cpuid\<close> instruction); its interrupt flag and descriptor registers are hardware
  state indexed by that id. The address of the array \<open>percpus\<close> is a link-time constant, also an argument. The nesting depth \<open>ncli\<close> is
  an unbounded integer here: the 32-bit one of the code would overflow only after \<open>2\<^sup>3\<^sup>1\<close> nested calls.
\<close>

section \<open>Definitions\<close>

unbundle bit_operations_syntax

subsection \<open>Data\<close>

definition MAX_CPUS :: nat where
  [simp]: "MAX_CPUS = 64"

record tss64 =
  tss_reserved0 :: u32
  tss_rsp0 :: u64
  tss_rsp1 :: u64
  tss_rsp2 :: u64
  tss_reserved1 :: u64
  tss_ist1 :: u64
  tss_ist2 :: u64
  tss_ist3 :: u64
  tss_ist4 :: u64
  tss_ist5 :: u64
  tss_ist6 :: u64
  tss_ist7 :: u64
  tss_reserved2 :: u64
  tss_reserved3 :: u16
  tss_iopb_offset :: u16

definition tss_zero :: tss64 where
  "tss_zero = \<lparr>tss_reserved0 = 0, tss_rsp0 = 0, tss_rsp1 = 0, tss_rsp2 = 0, tss_reserved1 = 0, tss_ist1 = 0, tss_ist2 = 0,
     tss_ist3 = 0, tss_ist4 = 0, tss_ist5 = 0, tss_ist6 = 0, tss_ist7 = 0, tss_reserved2 = 0, tss_reserved3 = 0, tss_iopb_offset = 0\<rparr>"

record gdt_entry =
  ge_limit_low :: u16
  ge_base_low :: u16
  ge_base_middle :: u8
  ge_access :: u8
  ge_granularity :: u8
  ge_base_high :: u8

record gdt_tss_entry =
  gt_limit_low :: u16
  gt_base_low :: u16
  gt_base_middle1 :: u8
  gt_access :: u8
  gt_limit_high_flags :: u8
  gt_base_middle2 :: u8
  gt_base_high :: u32
  gt_reserved :: u32

record gdt_ptr =
  gp_limit :: u16
  gp_base :: u64

record percpu =
  cpu_self :: u64
  apic_id :: u32
  cpu_index :: u32
  is_bsp :: bool
  started :: bool
  ncli :: int
  intena :: int
  current_thread :: u64
  idle_thread :: u64
  run_queue :: u64
  scheduler_ctx :: u64
  num_threads :: u32
  scheduler_ready :: bool
  timer_ticks :: u64
  cpu_tss :: tss64
  int_stack :: u64
  kstack :: u64
  cpu_gdt :: "u8 list"
  cpu_gdt_ptr :: gdt_ptr

text \<open>Sizes and offsets of the packed structures.\<close>

definition sizeof_tss64 :: nat where [simp]: "sizeof_tss64 = 104"
definition sizeof_gdt :: nat where [simp]: "sizeof_gdt = 80"
definition sizeof_percpu :: u64 where [simp]: "sizeof_percpu = 384"
definition offset_tss :: u64 where [simp]: "offset_tss = 80"
definition offset_gdt :: u64 where [simp]: "offset_gdt = 208"

definition percpu_zero :: percpu where
  "percpu_zero = \<lparr>cpu_self = 0, apic_id = 0, cpu_index = 0, is_bsp = False, started = False, ncli = 0, intena = 0,
     current_thread = 0, idle_thread = 0, run_queue = 0, scheduler_ctx = 0, num_threads = 0, scheduler_ready = False,
     timer_ticks = 0, cpu_tss = tss_zero, int_stack = 0, kstack = 0, cpu_gdt = replicate sizeof_gdt 0,
     cpu_gdt_ptr = \<lparr>gp_limit = 0, gp_base = 0\<rparr>\<rparr>"

record cpu_hw =
  hw_if :: bool
  hw_gdtr :: gdt_ptr
  hw_cs :: u16
  hw_ds :: u16
  hw_es :: u16
  hw_ss :: u16
  hw_tr :: u16

record percpu_state = kstate +
  percpus :: "percpu list"
  ncpu :: u32
  apic_to_cpu :: "int list"
  early_bsp_percpu :: percpu
  percpu_fully_initialized :: bool
  hw :: "u32 \<Rightarrow> cpu_hw"

subsection \<open>Access\<close>

text \<open>A pointer to a processor record: the early boot record, or an element of the array.\<close>

datatype cpu_ref = Early | Cpu nat

definition the_cpu :: "cpu_ref \<Rightarrow> 'a percpu_state_scheme \<Rightarrow> percpu" where
  "the_cpu r s = (case r of Early \<Rightarrow> early_bsp_percpu s | Cpu i \<Rightarrow> percpus s ! i)"

definition upd_cpu :: "cpu_ref \<Rightarrow> (percpu \<Rightarrow> percpu) \<Rightarrow> 'a percpu_state_scheme \<Rightarrow> 'a percpu_state_scheme" where
  "upd_cpu r f s = (case r of
     Early \<Rightarrow> s\<lparr>early_bsp_percpu := f (early_bsp_percpu s)\<rparr>
   | Cpu i \<Rightarrow> s\<lparr>percpus := (percpus s)[i := f (percpus s ! i)]\<rparr>)"

definition get_apic_id :: "u32 \<Rightarrow> u32" where
  "get_apic_id ebx = drop_bit 24 ebx"

definition mycpu :: "u32 \<Rightarrow> 'a percpu_state_scheme \<Rightarrow> cpu_ref" where
  "mycpu me s =
     (if \<not> percpu_fully_initialized s then Early
      else
        let idx = apic_to_cpu s ! unat me
        in if idx < 0 \<or> idx \<ge> sint (ncpu s)
           then (case find (\<lambda>i. apic_id (percpus s ! i) = me) [0..<unat (ncpu s)] of Some i \<Rightarrow> Cpu i | None \<Rightarrow> Cpu 0)
           else Cpu (nat idx))"

definition cpu_by_index :: "u32 \<Rightarrow> 'a percpu_state_scheme \<Rightarrow> cpu_ref option" where
  "cpu_by_index index s = (if index \<ge> ncpu s then None else Some (Cpu (unat index)))"

definition cpu_by_apic_id :: "u32 \<Rightarrow> 'a percpu_state_scheme \<Rightarrow> cpu_ref option" where
  "cpu_by_apic_id apic s =
     (if apic > 255 then None
      else
        let idx = apic_to_cpu s ! unat apic
        in if idx < 0 \<or> idx \<ge> sint (ncpu s) then None else Some (Cpu (nat idx)))"

subsection \<open>Descriptor tables\<close>

definition GDT_KERNEL_CODE :: u16 where [simp]: "GDT_KERNEL_CODE = 0x08"
definition GDT_KERNEL_DATA :: u16 where [simp]: "GDT_KERNEL_DATA = 0x10"
definition GDT_TSS :: u16 where [simp]: "GDT_TSS = 0x28"
definition GDT_PRESENT :: u8 where [simp]: "GDT_PRESENT = push_bit 7 1"
definition GDT_DPL0 :: u8 where [simp]: "GDT_DPL0 = push_bit 5 0"
definition GDT_DPL3 :: u8 where [simp]: "GDT_DPL3 = push_bit 5 3"
definition GDT_CODE :: u8 where [simp]: "GDT_CODE = push_bit 4 1 OR push_bit 3 1"
definition GDT_DATA :: u8 where [simp]: "GDT_DATA = push_bit 4 1"
definition GDT_TSS_TYPE :: u8 where [simp]: "GDT_TSS_TYPE = 0x89"
definition GDT_LONG_MODE :: u8 where [simp]: "GDT_LONG_MODE = push_bit 5 1"
definition GDT_GRANULARITY :: u8 where [simp]: "GDT_GRANULARITY = push_bit 7 1"

definition set_gdt_entry :: "u32 \<Rightarrow> u32 \<Rightarrow> u8 \<Rightarrow> u8 \<Rightarrow> gdt_entry" where
  "set_gdt_entry base limit access flags =
     \<lparr>ge_limit_low = ucast (limit AND 0xFFFF), ge_base_low = ucast (base AND 0xFFFF),
      ge_base_middle = ucast (drop_bit 16 base AND 0xFF), ge_access = access,
      ge_granularity = ucast (drop_bit 16 limit AND 0x0F) OR (flags AND 0xF0),
      ge_base_high = ucast (drop_bit 24 base AND 0xFF)\<rparr>"

definition set_tss_entry :: "u64 \<Rightarrow> u32 \<Rightarrow> gdt_tss_entry" where
  "set_tss_entry base limit =
     \<lparr>gt_limit_low = ucast (limit AND 0xFFFF), gt_base_low = ucast (base AND 0xFFFF),
      gt_base_middle1 = ucast (drop_bit 16 base AND 0xFF), gt_access = GDT_TSS_TYPE,
      gt_limit_high_flags = ucast (drop_bit 16 limit AND 0x0F), gt_base_middle2 = ucast (drop_bit 24 base AND 0xFF),
      gt_base_high = ucast (drop_bit 32 base AND 0xFFFFFFFF), gt_reserved = 0\<rparr>"

text \<open>The packed layout of the entries in the byte array, little-endian.\<close>

definition bytes16 :: "u16 \<Rightarrow> u8 list" where
  "bytes16 w = [ucast w, ucast (drop_bit 8 w)]"

definition bytes32 :: "u32 \<Rightarrow> u8 list" where
  "bytes32 w = [ucast w, ucast (drop_bit 8 w), ucast (drop_bit 16 w), ucast (drop_bit 24 w)]"

definition gdt_entry_bytes :: "gdt_entry \<Rightarrow> u8 list" where
  "gdt_entry_bytes e = bytes16 (ge_limit_low e) @ bytes16 (ge_base_low e) @
     [ge_base_middle e, ge_access e, ge_granularity e, ge_base_high e]"

definition tss_entry_bytes :: "gdt_tss_entry \<Rightarrow> u8 list" where
  "tss_entry_bytes e = bytes16 (gt_limit_low e) @ bytes16 (gt_base_low e) @
     [gt_base_middle1 e, gt_access e, gt_limit_high_flags e, gt_base_middle2 e] @ bytes32 (gt_base_high e) @ bytes32 (gt_reserved e)"

definition put_bytes :: "nat \<Rightarrow> u8 list \<Rightarrow> u8 list \<Rightarrow> u8 list" where
  "put_bytes off bs gdt = take off gdt @ bs @ drop (off + length bs) gdt"

text \<open>\<open>percpu_setup_gdt\<close> for the record at the given address.\<close>

definition percpu_setup_gdt :: "u64 \<Rightarrow> percpu \<Rightarrow> percpu" where
  "percpu_setup_gdt addr cpu =
     (let gdt = cpu_gdt cpu;
          gdt = put_bytes 0 (replicate 8 0) gdt;
          gdt = put_bytes 8 (gdt_entry_bytes (set_gdt_entry 0 0xFFFFF (GDT_PRESENT OR GDT_DPL0 OR GDT_CODE OR 0x02) (GDT_LONG_MODE OR GDT_GRANULARITY))) gdt;
          gdt = put_bytes 16 (gdt_entry_bytes (set_gdt_entry 0 0xFFFFF (GDT_PRESENT OR GDT_DPL0 OR GDT_DATA OR 0x02) GDT_GRANULARITY)) gdt;
          gdt = put_bytes 24 (gdt_entry_bytes (set_gdt_entry 0 0xFFFFF (GDT_PRESENT OR GDT_DPL3 OR GDT_CODE OR 0x02) (GDT_LONG_MODE OR GDT_GRANULARITY))) gdt;
          gdt = put_bytes 32 (gdt_entry_bytes (set_gdt_entry 0 0xFFFFF (GDT_PRESENT OR GDT_DPL3 OR GDT_DATA OR 0x02) GDT_GRANULARITY)) gdt;
          gdt = put_bytes 40 (tss_entry_bytes (set_tss_entry (addr + offset_tss) (of_nat sizeof_tss64 - 1))) gdt
      in cpu\<lparr>cpu_gdt := gdt, cpu_gdt_ptr := \<lparr>gp_limit = of_nat sizeof_gdt - 1, gp_base = addr + offset_gdt\<rparr>\<rparr>)"

definition percpu_load_gdt :: "u32 \<Rightarrow> percpu \<Rightarrow> 'a percpu_state_scheme \<Rightarrow> 'a percpu_state_scheme" where
  "percpu_load_gdt me cpu s =
     s\<lparr>hw := (hw s)(me := (hw s me)\<lparr>hw_gdtr := cpu_gdt_ptr cpu, hw_ds := GDT_KERNEL_DATA, hw_es := GDT_KERNEL_DATA,
        hw_ss := GDT_KERNEL_DATA, hw_cs := GDT_KERNEL_CODE, hw_tr := GDT_TSS\<rparr>)\<rparr>"

definition setup_tss :: "percpu \<Rightarrow> percpu" where
  "setup_tss cpu =
     (let t = tss_zero;
          t = (if kstack cpu \<noteq> 0 then t\<lparr>tss_rsp0 := kstack cpu + 4096\<rparr> else t);
          t = (if int_stack cpu \<noteq> 0 then t\<lparr>tss_ist1 := int_stack cpu + 4096\<rparr> else t)
      in cpu\<lparr>cpu_tss := t\<lparr>tss_iopb_offset := of_nat sizeof_tss64\<rparr>\<rparr>)"

subsection \<open>Initialisation\<close>

definition percpu_init_bsp :: "u64 \<Rightarrow> u32 \<Rightarrow> u32 \<Rightarrow> 'a percpu_state_scheme \<Rightarrow> 'a percpu_state_scheme" where
  "percpu_init_bsp base me total_cpus s =
     (let s = s\<lparr>apic_to_cpu := map (\<lambda>_. -1) [0..<256]\<rparr>;
          s = s\<lparr>ncpu := total_cpus\<rparr>;
          s = (if ncpu s > of_nat MAX_CPUS then s\<lparr>ncpu := of_nat MAX_CPUS\<rparr> else s);
          bsp = percpu_zero\<lparr>cpu_self := base, apic_id := me, cpu_index := 0, is_bsp := True, started := True,
                  ncli := 0, intena := 0, current_thread := 0, idle_thread := 0\<rparr>;
          s = s\<lparr>percpus := (percpus s)[0 := bsp]\<rparr>;
          s = s\<lparr>apic_to_cpu := (apic_to_cpu s)[unat (apic_id bsp) := 0]\<rparr>
      in s\<lparr>percpu_fully_initialized := True\<rparr>)"

definition cpu_address :: "u64 \<Rightarrow> nat \<Rightarrow> u64" where
  "cpu_address base i = base + of_nat i * sizeof_percpu"

definition alloc_stack :: "'a percpu_state_scheme \<Rightarrow> u64 \<times> 'a percpu_state_scheme" where
  "alloc_stack s =
     (let (stack, s) = kalloc s
      in (stack, if stack \<noteq> 0 then s\<lparr>mem := memset (mem s) stack 0 4096\<rparr> else s))"

definition alloc_cpu_stacks :: "u64 \<Rightarrow> u32 \<Rightarrow> nat \<Rightarrow> 'a percpu_state_scheme \<Rightarrow> 'a percpu_state_scheme" where
  "alloc_cpu_stacks base me i s =
     (let (stack, s) = alloc_stack s;
          s = upd_cpu (Cpu i) (\<lambda>cpu. cpu\<lparr>int_stack := stack\<rparr>) s;
          (stack, s) = alloc_stack s;
          s = upd_cpu (Cpu i) (\<lambda>cpu. cpu\<lparr>kstack := stack\<rparr>) s;
          s = upd_cpu (Cpu i) setup_tss s
      in if i = 0 then
           let s = upd_cpu (Cpu i) (percpu_setup_gdt (cpu_address base i)) s
           in percpu_load_gdt me (the_cpu (Cpu i) s) s
         else s)"

definition percpu_alloc_stacks :: "u64 \<Rightarrow> u32 \<Rightarrow> 'a percpu_state_scheme \<Rightarrow> 'a percpu_state_scheme" where
  "percpu_alloc_stacks base me s = fold (alloc_cpu_stacks base me) [0..<unat (ncpu s)] s"

definition percpu_init_ap :: "u64 \<Rightarrow> u32 \<Rightarrow> u32 \<Rightarrow> 'a percpu_state_scheme \<Rightarrow> 'a percpu_state_scheme" where
  "percpu_init_ap base me index s =
     (if index \<ge> ncpu s \<or> index = 0 then s
      else
        let i = unat index;
            s = upd_cpu (Cpu i) (\<lambda>cpu. cpu\<lparr>cpu_self := cpu_address base i, apic_id := me, cpu_index := index, is_bsp := False,
                  ncli := 0, intena := 0, current_thread := 0, idle_thread := 0\<rparr>) s;
            s = s\<lparr>apic_to_cpu := (apic_to_cpu s)[unat (apic_id (the_cpu (Cpu i) s)) := int i]\<rparr>;
            s = upd_cpu (Cpu i) setup_tss s;
            s = upd_cpu (Cpu i) (percpu_setup_gdt (cpu_address base i)) s;
            s = percpu_load_gdt me (the_cpu (Cpu i) s) s
        in upd_cpu (Cpu i) (\<lambda>cpu. cpu\<lparr>started := True\<rparr>) s)"

subsection \<open>Logging\<close>

definition num_arg :: "u32 \<Rightarrow> vararg" where
  "num_arg n = ANum (ucast n)"

definition cpu_info_lines :: "u64 \<Rightarrow> nat \<Rightarrow> percpu \<Rightarrow> log_line list" where
  "cpu_info_lines base i cpu =
     [LOG_SERIAL ''PERCPU'' ''CPU %d: APIC ID=%d, %s, started=%d''
        [num_arg (cpu_index cpu), num_arg (apic_id cpu), AStr (Some (if is_bsp cpu then ''BSP'' else ''AP'')), ANum (if started cpu then 1 else 0)],
      LOG_SERIAL ''PERCPU'' ''  int_stack=%p, kstack=%p'' [ANum (int_stack cpu), ANum (kstack cpu)],
      LOG_SERIAL ''PERCPU'' ''  TSS RSP0=%p, IST1=%p'' [ANum (tss_rsp0 (cpu_tss cpu)), ANum (tss_ist1 (cpu_tss cpu))],
      LOG_SERIAL ''PERCPU'' ''  GDT at %p'' [ANum (cpu_address base i + offset_gdt)]]"

definition percpu_log_cpu_info :: "u64 \<Rightarrow> 'a percpu_state_scheme \<Rightarrow> log_line list" where
  "percpu_log_cpu_info base s =
     [LOG_SERIAL ''PERCPU'' ''=== Per-CPU Data Summary ==='' [], LOG_SERIAL ''PERCPU'' ''Total CPUs: %d'' [num_arg (ncpu s)]] @
     concat (map (\<lambda>i. cpu_info_lines base i (percpus s ! i)) [0..<unat (ncpu s)]) @
     [LOG_SERIAL ''PERCPU'' ''============================'' []]"

definition percpu_log_timer_ticks :: "'a percpu_state_scheme \<Rightarrow> log_line list" where
  "percpu_log_timer_ticks s =
     [LOG_SERIAL ''PERCPU'' ''=== Timer Interrupt Counts ==='' []] @
     map (\<lambda>i. let cpu = percpus s ! i
              in LOG_SERIAL ''PERCPU'' ''CPU %d (APIC %d): %llu ticks'' [num_arg (cpu_index cpu), num_arg (apic_id cpu), ANum (timer_ticks cpu)])
       [0..<unat (ncpu s)] @
     [LOG_SERIAL ''PERCPU'' ''=============================='' []]"

subsection \<open>Interrupt state\<close>

definition FL_IF :: int where
  [simp]: "FL_IF = 0x200"

definition set_if :: "u32 \<Rightarrow> bool \<Rightarrow> 'a percpu_state_scheme \<Rightarrow> 'a percpu_state_scheme" where
  "set_if me b s = s\<lparr>hw := (hw s)(me := (hw s me)\<lparr>hw_if := b\<rparr>)\<rparr>"

definition pushcli :: "u32 \<Rightarrow> 'a percpu_state_scheme \<Rightarrow> 'a percpu_state_scheme" where
  "pushcli me s =
     (let eflags_if = (if hw_if (hw s me) then FL_IF else 0);
          s = set_if me False s;
          cpu = mycpu me s;
          s = (if ncli (the_cpu cpu s) = 0 then upd_cpu cpu (\<lambda>c. c\<lparr>intena := eflags_if\<rparr>) s else s)
      in upd_cpu cpu (\<lambda>c. c\<lparr>ncli := ncli c + 1\<rparr>) s)"

definition popcli :: "u32 \<Rightarrow> 'a percpu_state_scheme \<Rightarrow> 'a percpu_state_scheme result" where
  "popcli me s =
     (if hw_if (hw s me) then Inl (Panic ''popcli with interrupts enabled'')
      else
        let cpu = mycpu me s;
            s = upd_cpu cpu (\<lambda>c. c\<lparr>ncli := ncli c - 1\<rparr>) s
        in if ncli (the_cpu cpu s) < 0 then Inl (Panic ''unbalanced popcli'')
           else Inr (if ncli (the_cpu cpu s) = 0 \<and> intena (the_cpu cpu s) \<noteq> 0 then set_if me True s else s))"

section \<open>Reference definitions\<close>

text \<open>
  A sequence of \<open>pushcli\<close> (\<open>True\<close>) and \<open>popcli\<close> (\<open>False\<close>) calls of one processor; its depth;
  sequences in which no call to \<open>popcli\<close> lacks its \<open>pushcli\<close>.
\<close>

primrec run_cli :: "u32 \<Rightarrow> bool list \<Rightarrow> 'a percpu_state_scheme \<Rightarrow> 'a percpu_state_scheme result" where
  "run_cli me [] s = Inr s"
| "run_cli me (push # w) s = bind_result (if push then Inr (pushcli me s) else popcli me s) (run_cli me w)"

primrec cli_depth :: "nat \<Rightarrow> bool list \<Rightarrow> nat" where
  "cli_depth n [] = n"
| "cli_depth n (push # w) = cli_depth (if push then Suc n else n - 1) w"

primrec cli_nested :: "nat \<Rightarrow> bool list \<Rightarrow> bool" where
  "cli_nested n [] \<longleftrightarrow> True"
| "cli_nested n (push # w) \<longleftrightarrow> (push \<or> 0 < n) \<and> cli_nested (if push then Suc n else n - 1) w"

definition ref_ok :: "cpu_ref \<Rightarrow> 'a percpu_state_scheme \<Rightarrow> bool" where
  "ref_ok r s = (case r of Early \<Rightarrow> True | Cpu i \<Rightarrow> i < length (percpus s))"

text \<open>The processor is \<open>n\<close> levels deep and had interrupts enabled outside iff \<open>b\<close>.\<close>

definition cli_at :: "u32 \<Rightarrow> bool \<Rightarrow> nat \<Rightarrow> 'a percpu_state_scheme \<Rightarrow> bool" where
  "cli_at me b n s \<longleftrightarrow>
     (let c = the_cpu (mycpu me s) s
      in ref_ok (mycpu me s) s \<and> ncli c = int n \<and> hw_if (hw s me) = (b \<and> n = 0) \<and>
         (n > 0 \<longrightarrow> intena c = (if b then FL_IF else 0)))"

text \<open>The boot processor, then the other processors in the order of their indices.\<close>

definition init_cpus :: "u64 \<Rightarrow> u32 list \<Rightarrow> 'a percpu_state_scheme \<Rightarrow> 'a percpu_state_scheme" where
  "init_cpus base ids s =
     fold (\<lambda>i. percpu_init_ap base (ids ! i) (of_nat i)) [1..<length ids] (percpu_init_bsp base (ids ! 0) (of_nat (length ids)) s)"

text \<open>The first \<open>n\<close> processors are registered.\<close>

definition registered :: "u32 list \<Rightarrow> nat \<Rightarrow> 'a percpu_state_scheme \<Rightarrow> bool" where
  "registered ids n s \<longleftrightarrow> percpu_fully_initialized s \<and> ncpu s = of_nat (length ids) \<and> length (percpus s) = MAX_CPUS \<and>
     apic_to_cpu s = fold (\<lambda>i m. m[unat (ids ! i) := int i]) [0..<n] (replicate 256 (-1))"

definition le64 :: "u8 list \<Rightarrow> u64" where
  "le64 bs = foldr (\<lambda>b w. ucast b OR push_bit 8 w) bs 0"

text \<open>The base address and the limit in the sixteen bytes of a system descriptor.\<close>

definition tss_base :: "u8 list \<Rightarrow> u64" where
  "tss_base bs = le64 [bs ! 2, bs ! 3, bs ! 4, bs ! 7, bs ! 8, bs ! 9, bs ! 10, bs ! 11]"

definition tss_limit :: "u8 list \<Rightarrow> u64" where
  "tss_limit bs = le64 [bs ! 0, bs ! 1, bs ! 6 AND 0x0F]"

definition gdt_slice :: "nat \<Rightarrow> nat \<Rightarrow> u8 list \<Rightarrow> u8 list" where
  "gdt_slice off n gdt = take n (drop off gdt)"

definition demo_percpu :: percpu_state where
  "demo_percpu = \<lparr>mem = \<lambda>_. 0, freelist = 0, percpus = replicate MAX_CPUS percpu_zero, ncpu = 0, apic_to_cpu = replicate 256 0,
     early_bsp_percpu = percpu_zero, percpu_fully_initialized = False,
     hw = \<lambda>_. \<lparr>hw_if = True, hw_gdtr = \<lparr>gp_limit = 0, gp_base = 0\<rparr>, hw_cs = 0, hw_ds = 0, hw_es = 0, hw_ss = 0, hw_tr = 0\<rparr>\<rparr>"

section \<open>Processor records\<close>

lemma the_cpu_upd [simp]: "ref_ok r s \<Longrightarrow> the_cpu r (upd_cpu r f s) = f (the_cpu r s)"
  by (cases r) (simp_all add: the_cpu_def upd_cpu_def ref_ok_def)

lemma the_cpu_set_if [simp]: "the_cpu r (set_if me b s) = the_cpu r s"
  by (cases r) (simp_all add: the_cpu_def set_if_def)

lemma ref_ok_upd [simp]: "ref_ok r (upd_cpu q f s) = ref_ok r s" "ref_ok r (set_if me b s) = ref_ok r s"
  by (cases r; cases q; simp add: ref_ok_def upd_cpu_def set_if_def)+

lemma hw_upd_cpu [simp]: "hw (upd_cpu r f s) = hw s"
  by (cases r) (simp_all add: upd_cpu_def)

lemma hw_if_set_if [simp]: "hw_if (hw (set_if me b s) me) = b"
  by (simp add: set_if_def)

lemma mycpu_set_if [simp]: "mycpu me (set_if me' b s) = mycpu me s"
  by (simp add: mycpu_def set_if_def Let_def)

lemma mycpu_upd [simp]:
  assumes "\<And>c. apic_id (f c) = apic_id c"
  shows "mycpu me (upd_cpu r f s) = mycpu me s"
proof -
  have "apic_id ((percpus s)[i := f (percpus s ! i)] ! j) = apic_id (percpus s ! j)" for i j
    using assms by (cases "i < length (percpus s)") (simp_all add: nth_list_update list_update_beyond)
  then show ?thesis by (cases r) (simp_all add: mycpu_def upd_cpu_def Let_def)
qed

lemma pushcli_at:
  assumes "cli_at me b n s"
  shows "cli_at me b (Suc n) (pushcli me s)"
  using assms unfolding cli_at_def pushcli_def Let_def by (cases "n = 0") simp_all

lemma popcli_at:
  assumes "cli_at me b (Suc n) s"
  shows "\<exists>s'. popcli me s = Inr s' \<and> cli_at me b n s'"
  using assms unfolding cli_at_def popcli_def Let_def by (cases "n = 0") simp_all

lemma run_cli_at: "\<lbrakk>cli_at me b n s; cli_nested n w\<rbrakk> \<Longrightarrow> \<exists>s'. run_cli me w s = Inr s' \<and> cli_at me b (cli_depth n w) s'"
proof (induction w arbitrary: n s)
  case (Cons push w)
  show ?case
  proof (cases push)
    case True
    then show ?thesis using Cons.IH [OF pushcli_at [OF Cons.prems(1)]] Cons.prems(2) by simp
  next
    case False
    then obtain m where n: "n = Suc m" using Cons.prems(2) by (cases n) auto
    obtain s' where s': "popcli me s = Inr s'" "cli_at me b m s'" using popcli_at Cons.prems(1) n by blast
    then show ?thesis using Cons.IH [OF s'(2)] Cons.prems(2) n False by simp
  qed
qed simp

section \<open>Lookup after initialisation\<close>

lemma fold_update_length: "length (fold (\<lambda>i m. m[f i := g i]) is m) = length m"
  by (induction "is" arbitrary: m) simp_all

lemma registered_bsp:
  assumes "length ids \<le> MAX_CPUS" "length (percpus s) = MAX_CPUS" "ids \<noteq> []"
  shows "registered ids 1 (percpu_init_bsp base (ids ! 0) (of_nat (length ids)) s)"
proof -
  have "\<not> (of_nat (length ids) :: u32) > of_nat MAX_CPUS" using assms(1) by (simp add: word_less_nat_alt unat_of_nat)
  then show ?thesis using assms by (simp add: registered_def percpu_init_bsp_def Let_def map_replicate_const)
qed

lemma registered_ap:
  assumes "registered ids i s" "0 < i" "i < length ids" "length ids \<le> MAX_CPUS"
  shows "registered ids (Suc i) (percpu_init_ap base (ids ! i) (of_nat i) s)"
proof -
  have u: "unat (of_nat i :: u32) = i" "unat (of_nat (length ids) :: u32) = length ids" using assms(3,4) by (simp_all add: unat_of_nat)
  have "\<not> ((of_nat i :: u32) \<ge> ncpu s \<or> (of_nat i :: u32) = 0)"
    using assms u by (auto simp: registered_def word_le_nat_alt unat_eq_zero [symmetric])
  moreover have "i < MAX_CPUS" using assms(3,4) by simp
  ultimately show ?thesis using assms(1) u
    by (simp add: registered_def percpu_init_ap_def Let_def upd_cpu_def the_cpu_def percpu_load_gdt_def)
qed

lemma registered_init:
  assumes "length ids \<le> MAX_CPUS" "length (percpus s) = MAX_CPUS" "ids \<noteq> []"
  shows "registered ids (length ids) (init_cpus base ids s)"
proof -
  have "\<lbrakk>0 < n; n \<le> length ids\<rbrakk> \<Longrightarrow> registered ids n (fold (\<lambda>i. percpu_init_ap base (ids ! i) (of_nat i)) [1..<n]
      (percpu_init_bsp base (ids ! 0) (of_nat (length ids)) s))" for n
  proof (induction n)
    case (Suc n)
    show ?case
    proof (cases "n = 0")
      case True
      then show ?thesis using registered_bsp [OF assms, of base] by simp
    next
      case False
      then show ?thesis using Suc registered_ap [of ids n] assms(1) by simp
    qed
  qed simp
  from this [of "length ids"] show ?thesis using assms(3) by (simp add: init_cpus_def)
qed

lemma fold_register_same:
  "\<lbrakk>distinct ids; \<forall>a \<in> set ids. unat a < 256; n \<le> length ids; j < n\<rbrakk> \<Longrightarrow>
    fold (\<lambda>i m. m[unat (ids ! i) := int i]) [0..<n] (replicate 256 (-1)) ! unat (ids ! j) = int j"
proof (induction n)
  case (Suc n)
  have len: "length (fold (\<lambda>i m. m[unat (ids ! i) := int i]) [0..<n] (replicate 256 (-1 :: int))) = 256"
    by (simp add: fold_update_length)
  have lt: "unat (ids ! n) < 256" "unat (ids ! j) < 256" using Suc.prems by simp_all
  show ?case
  proof (cases "j = n")
    case True
    then show ?thesis using len lt by simp
  next
    case False
    then have "ids ! n \<noteq> ids ! j" using Suc.prems by (simp add: nth_eq_iff_index_eq)
    then have "unat (ids ! n) \<noteq> unat (ids ! j)" by (simp add: word_unat_eq_iff)
    then show ?thesis using Suc False by simp
  qed
qed simp

lemma fold_register_other:
  "\<lbrakk>\<forall>j < n. unat (ids ! j) \<noteq> a; a < 256\<rbrakk> \<Longrightarrow> fold (\<lambda>i m. m[unat (ids ! i) := int i]) [0..<n] (replicate 256 (-1)) ! a = -1"
  by (induction n) simp_all

section \<open>Descriptors\<close>

lemma bit_le64:
  "bit (le64 bs) k \<longleftrightarrow> k < 64 \<and> k div 8 < length bs \<and> bit (bs ! (k div 8)) (k mod 8)"
proof (induction bs arbitrary: k)
  case (Cons b bs)
  have step: "le64 (b # bs) = ucast b OR push_bit 8 (le64 bs)" by (simp add: le64_def)
  show ?case
  proof (cases "k < 8")
    case True
    then show ?thesis unfolding step by (simp add: bit_simps)
  next
    case False
    then have "k div 8 = Suc ((k - 8) div 8)" "k mod 8 = (k - 8) mod 8" by (simp_all add: le_div_geq le_mod_geq)
    then show ?thesis unfolding step using False Cons [of "k - 8"] by (auto simp: bit_simps dest: bit_imp_le_length)
  qed
qed (simp add: le64_def)

lemma le64_bytes: "\<lbrakk>length bs = 8; \<And>j. j < 8 \<Longrightarrow> bs ! j = ucast (drop_bit (8 * j) w)\<rbrakk> \<Longrightarrow> le64 bs = w"
  by (rule bit_word_eqI) (auto simp: bit_le64 bit_simps div_less_iff_less_mult)

lemma less8_cases: "(j :: nat) < 8 \<Longrightarrow> j = 0 \<or> j = 1 \<or> j = 2 \<or> j = 3 \<or> j = 4 \<or> j = 5 \<or> j = 6 \<or> j = 7"
  by arith

lemma byte_of_field:
  fixes w :: u64
  shows "ucast (ucast (w AND 0xFFFF) :: u16) = (ucast w :: u8)"
    "ucast (drop_bit 8 (ucast (w AND 0xFFFF) :: u16)) = (ucast (drop_bit 8 w) :: u8)"
    "ucast (drop_bit n w AND 0xFF) = (ucast (drop_bit n w) :: u8)"
    "m + 8 \<le> 32 \<Longrightarrow> ucast (drop_bit m (ucast (drop_bit 32 w AND 0xFFFFFFFF) :: u32)) = (ucast (drop_bit (32 + m) w) :: u8)"
proof -
  have m: "(0xFFFF :: u64) = mask 16" "(0xFF :: u64) = mask 8" "(0xFFFFFFFF :: u64) = mask 32" by (simp_all add: mask_eq_exp_minus_1)
  show "ucast (ucast (w AND 0xFFFF) :: u16) = (ucast w :: u8)" "ucast (drop_bit 8 (ucast (w AND 0xFFFF) :: u16)) = (ucast (drop_bit 8 w) :: u8)"
    "ucast (drop_bit n w AND 0xFF) = (ucast (drop_bit n w) :: u8)" unfolding m by (rule bit_word_eqI; auto simp: bit_simps)+
  show "ucast (drop_bit m (ucast (drop_bit 32 w AND 0xFFFFFFFF) :: u32)) = (ucast (drop_bit (32 + m) w) :: u8)" if "m + 8 \<le> 32"
    unfolding m using that by (intro bit_word_eqI) (auto simp: bit_simps add.assoc)
qed

lemma tss_entry_base: "tss_base (tss_entry_bytes (set_tss_entry base limit)) = base"
  unfolding tss_base_def
proof (rule le64_bytes)
  fix j :: nat assume "j < 8"
  then show "[tss_entry_bytes (set_tss_entry base limit) ! 2, tss_entry_bytes (set_tss_entry base limit) ! 3,
      tss_entry_bytes (set_tss_entry base limit) ! 4, tss_entry_bytes (set_tss_entry base limit) ! 7,
      tss_entry_bytes (set_tss_entry base limit) ! 8, tss_entry_bytes (set_tss_entry base limit) ! 9,
      tss_entry_bytes (set_tss_entry base limit) ! 10, tss_entry_bytes (set_tss_entry base limit) ! 11] ! j =
      ucast (drop_bit (8 * j) base)"
    using byte_of_field(4) [of 0 base]
    by (auto dest!: less8_cases simp: tss_entry_bytes_def set_tss_entry_def bytes16_def bytes32_def byte_of_field)
qed simp

lemma put_bytes_append: "length xs = off \<Longrightarrow> put_bytes off bs (xs @ ys) = xs @ bs @ drop (length bs) ys"
  by (simp add: put_bytes_def)

lemma entry_lengths [simp]: "length (gdt_entry_bytes e) = 8" "length (tss_entry_bytes t) = 16"
  by (simp_all add: gdt_entry_bytes_def tss_entry_bytes_def bytes16_def bytes32_def)

text \<open>The four segment descriptors as quadwords.\<close>

lemma segment_descriptors:
  "le64 (gdt_entry_bytes (set_gdt_entry 0 0xFFFFF (GDT_PRESENT OR GDT_DPL0 OR GDT_CODE OR 0x02) (GDT_LONG_MODE OR GDT_GRANULARITY))) = 0x00AF9A000000FFFF"
  "le64 (gdt_entry_bytes (set_gdt_entry 0 0xFFFFF (GDT_PRESENT OR GDT_DPL0 OR GDT_DATA OR 0x02) GDT_GRANULARITY)) = 0x008F92000000FFFF"
  "le64 (gdt_entry_bytes (set_gdt_entry 0 0xFFFFF (GDT_PRESENT OR GDT_DPL3 OR GDT_CODE OR 0x02) (GDT_LONG_MODE OR GDT_GRANULARITY))) = 0x00AFFA000000FFFF"
  "le64 (gdt_entry_bytes (set_gdt_entry 0 0xFFFFF (GDT_PRESENT OR GDT_DPL3 OR GDT_DATA OR 0x02) GDT_GRANULARITY)) = 0x008FF2000000FFFF"
  by (simp_all add: le64_def gdt_entry_bytes_def set_gdt_entry_def bytes16_def)

lemma setup_gdt_layout:
  assumes "length (cpu_gdt cpu) = sizeof_gdt"
  shows "cpu_gdt (percpu_setup_gdt addr cpu) = replicate 8 0 @
     gdt_entry_bytes (set_gdt_entry 0 0xFFFFF (GDT_PRESENT OR GDT_DPL0 OR GDT_CODE OR 0x02) (GDT_LONG_MODE OR GDT_GRANULARITY)) @
     gdt_entry_bytes (set_gdt_entry 0 0xFFFFF (GDT_PRESENT OR GDT_DPL0 OR GDT_DATA OR 0x02) GDT_GRANULARITY) @
     gdt_entry_bytes (set_gdt_entry 0 0xFFFFF (GDT_PRESENT OR GDT_DPL3 OR GDT_CODE OR 0x02) (GDT_LONG_MODE OR GDT_GRANULARITY)) @
     gdt_entry_bytes (set_gdt_entry 0 0xFFFFF (GDT_PRESENT OR GDT_DPL3 OR GDT_DATA OR 0x02) GDT_GRANULARITY) @
     tss_entry_bytes (set_tss_entry (addr + offset_tss) (of_nat sizeof_tss64 - 1)) @ drop 56 (cpu_gdt cpu)"
proof -
  have 0: "put_bytes 0 (replicate 8 0) (cpu_gdt cpu) = replicate 8 0 @ drop 8 (cpu_gdt cpu)" by (simp add: put_bytes_def)
  have 1: "put_bytes 8 e1 (replicate 8 0 @ g) = replicate 8 0 @ e1 @ drop (length e1) g" for e1 g
    by (rule put_bytes_append) simp
  have 2: "put_bytes 16 e2 (replicate 8 0 @ gdt_entry_bytes a @ g) = replicate 8 0 @ gdt_entry_bytes a @ e2 @ drop (length e2) g" for e2 a g
    using put_bytes_append [of "replicate 8 0 @ gdt_entry_bytes a" 16 e2 g] by simp
  have 3: "put_bytes 24 e3 (replicate 8 0 @ gdt_entry_bytes a @ gdt_entry_bytes b @ g) =
      replicate 8 0 @ gdt_entry_bytes a @ gdt_entry_bytes b @ e3 @ drop (length e3) g" for e3 a b g
    using put_bytes_append [of "replicate 8 0 @ gdt_entry_bytes a @ gdt_entry_bytes b" 24 e3 g] by simp
  have 4: "put_bytes 32 e4 (replicate 8 0 @ gdt_entry_bytes a @ gdt_entry_bytes b @ gdt_entry_bytes c @ g) =
      replicate 8 0 @ gdt_entry_bytes a @ gdt_entry_bytes b @ gdt_entry_bytes c @ e4 @ drop (length e4) g" for e4 a b c g
    using put_bytes_append [of "replicate 8 0 @ gdt_entry_bytes a @ gdt_entry_bytes b @ gdt_entry_bytes c" 32 e4 g] by simp
  have 5: "put_bytes 40 e5 (replicate 8 0 @ gdt_entry_bytes a @ gdt_entry_bytes b @ gdt_entry_bytes c @ gdt_entry_bytes d @ g) =
      replicate 8 0 @ gdt_entry_bytes a @ gdt_entry_bytes b @ gdt_entry_bytes c @ gdt_entry_bytes d @ e5 @ drop (length e5) g" for e5 a b c d g
    using put_bytes_append [of "replicate 8 0 @ gdt_entry_bytes a @ gdt_entry_bytes b @ gdt_entry_bytes c @ gdt_entry_bytes d" 40 e5 g] by simp
  show ?thesis unfolding percpu_setup_gdt_def Let_def 0 1 2 3 4 5 by simp
qed

section \<open>Properties\<close>

text \<open>
  C33. In every sequence of \<open>pushcli\<close> and \<open>popcli\<close> calls of a processor in which each \<open>popcli\<close> has its
  \<open>pushcli\<close>, no call panics, interrupts are off while the nesting is not zero, and at depth zero they are
  enabled exactly if they were before the sequence.
\<close>

theorem pushcli_popcli_nest:
  assumes "cli_at me b 0 s" "cli_nested 0 w"
  shows "\<exists>s'. run_cli me w s = Inr s' \<and> ncli (the_cpu (mycpu me s') s') = int (cli_depth 0 w) \<and>
     hw_if (hw s' me) = (hw_if (hw s me) \<and> cli_depth 0 w = 0)"
  using run_cli_at [OF assms] assms(1) by (auto simp: cli_at_def Let_def)

theorem pushcli_popcli_nest_witness:
  "\<exists>s'. run_cli 0 [True, True, False, False] demo_percpu = Inr s' \<and> ncli (the_cpu (mycpu 0 s') s') = int (cli_depth 0 [True, True, False, False]) \<and>
     hw_if (hw s' 0) = (hw_if (hw demo_percpu 0) \<and> cli_depth 0 [True, True, False, False] = 0)"
  by (rule pushcli_popcli_nest [of _ True])
    (simp_all add: cli_at_def Let_def demo_percpu_def mycpu_def the_cpu_def ref_ok_def percpu_zero_def)

text \<open>
  C34. After the boot processor and then each other processor have registered, with different APIC ids below 256, every
  processor finds its own record, \<open>cpu_by_apic_id\<close> finds the record of each, and it answers null for every other
  id.
\<close>

theorem percpu_lookup:
  assumes "ids \<noteq> []" "length ids \<le> MAX_CPUS" "distinct ids" "\<forall>a \<in> set ids. a < 256" "length (percpus s) = MAX_CPUS"
  shows "(\<forall>i < length ids. mycpu (ids ! i) (init_cpus base ids s) = Cpu i \<and>
       cpu_by_apic_id (ids ! i) (init_cpus base ids s) = Some (Cpu i)) \<and>
     (\<forall>a. a \<notin> set ids \<longrightarrow> cpu_by_apic_id a (init_cpus base ids s) = None)"
proof -
  let ?s = "init_cpus base ids s"
  have r: "registered ids (length ids) ?s" by (rule registered_init [OF assms(2,5,1)])
  have lt: "\<forall>a \<in> set ids. unat a < 256" using assms(4) by (simp add: word_less_nat_alt)
  have n: "sint (ncpu ?s) = int (length ids)"
    using r assms(2) by (simp add: registered_def signed_of_nat signed_take_bit_int_eq_self)
  have at: "apic_to_cpu ?s ! unat (ids ! i) = int i" if "i < length ids" for i
    using r fold_register_same [OF assms(3) lt le_refl that] by (simp add: registered_def)
  have none: "apic_to_cpu ?s ! unat a = -1" if "a \<notin> set ids" "unat a < 256" for a
    using r fold_register_other [of "length ids" ids "unat a"] that by (simp add: registered_def) (metis nth_mem word_unat_eq_iff)
  show ?thesis
  proof (intro conjI allI impI)
    fix i assume i: "i < length ids"
    have "unat (ids ! i) < 256" using lt i by simp
    then have "\<not> ids ! i > 255" by (simp add: word_less_nat_alt not_less)
    then show "cpu_by_apic_id (ids ! i) ?s = Some (Cpu i)" using at [OF i] n i by (simp add: cpu_by_apic_id_def)
    show "mycpu (ids ! i) ?s = Cpu i" using at [OF i] n i r by (simp add: mycpu_def registered_def)
  next
    fix a assume a: "a \<notin> set ids"
    show "cpu_by_apic_id a ?s = None"
    proof (cases "a > 255")
      case False
      then have "unat a < 256" by (simp add: word_less_nat_alt not_less)
      then show ?thesis using none [OF a] by (simp add: cpu_by_apic_id_def)
    qed (simp add: cpu_by_apic_id_def)
  qed
qed

theorem percpu_lookup_witness:
  "mycpu 5 (init_cpus 0 [0, 5] demo_percpu) = Cpu 1 \<and> cpu_by_apic_id 7 (init_cpus 0 [0, 5] demo_percpu) = None"
proof -
  have "length (percpus demo_percpu) = MAX_CPUS" by (simp add: demo_percpu_def)
  from percpu_lookup [of "[0, 5]", OF _ _ _ _ this, of 0] show ?thesis by (auto dest: spec [of _ 1])
qed

text \<open>
  C35. The descriptor table of a processor has the null descriptor, 64-bit code and data descriptors for rings 0
  and 3 at the selectors the code loads, and a TSS descriptor whose base is the address of the processor's own
  TSS, all 64 bits of it, and whose limit is its size less one, with the access byte of a present 64-bit TSS that is
  not busy; the table register covers the table.
\<close>

theorem percpu_gdt_descriptors:
  assumes "length (cpu_gdt cpu) = sizeof_gdt"
  shows "(let c = percpu_setup_gdt addr cpu; gdt = cpu_gdt c
     in length gdt = sizeof_gdt \<and> le64 (gdt_slice 0 8 gdt) = 0 \<and>
        le64 (gdt_slice (unat GDT_KERNEL_CODE) 8 gdt) = 0x00AF9A000000FFFF \<and>
        le64 (gdt_slice (unat GDT_KERNEL_DATA) 8 gdt) = 0x008F92000000FFFF \<and>
        le64 (gdt_slice 24 8 gdt) = 0x00AFFA000000FFFF \<and> le64 (gdt_slice 32 8 gdt) = 0x008FF2000000FFFF \<and>
        tss_base (gdt_slice (unat GDT_TSS) 16 gdt) = addr + offset_tss \<and> tss_limit (gdt_slice (unat GDT_TSS) 16 gdt) = 103 \<and>
        gdt_slice (unat GDT_TSS) 16 gdt ! 5 = 0x89 \<and> gdt_slice (unat GDT_TSS) 16 gdt ! 6 = 0 \<and>
        gp_base (cpu_gdt_ptr c) = addr + offset_gdt \<and> gp_limit (cpu_gdt_ptr c) = 79)"
proof -
  note l = setup_gdt_layout [OF assms, of addr]
  have ptr: "cpu_gdt_ptr (percpu_setup_gdt addr cpu) = \<lparr>gp_limit = 79, gp_base = addr + offset_gdt\<rparr>"
    by (simp add: percpu_setup_gdt_def Let_def)
  have lim: "tss_limit (tss_entry_bytes (set_tss_entry b (of_nat sizeof_tss64 - 1))) = 103" for b
    by (simp add: tss_limit_def tss_entry_bytes_def set_tss_entry_def bytes16_def le64_def)
  have acc: "tss_entry_bytes (set_tss_entry b (of_nat sizeof_tss64 - 1)) ! 5 = 0x89" "tss_entry_bytes (set_tss_entry b (of_nat sizeof_tss64 - 1)) ! 6 = 0" for b
    by (simp_all add: tss_entry_bytes_def set_tss_entry_def bytes16_def)
  have zero: "le64 (replicate 8 0) = 0" by (simp add: le64_def numeral_eq_Suc)
  show ?thesis unfolding Let_def ptr l gdt_slice_def
    using assms zero lim [of "addr + offset_tss"] acc [of "addr + offset_tss"] tss_entry_base [of "addr + offset_tss" "of_nat sizeof_tss64 - 1"] segment_descriptors
    by simp
qed

theorem percpu_gdt_descriptors_witness:
  "(let c = percpu_setup_gdt 0x123456789000 percpu_zero; gdt = cpu_gdt c
     in length gdt = sizeof_gdt \<and> le64 (gdt_slice 0 8 gdt) = 0 \<and>
        le64 (gdt_slice (unat GDT_KERNEL_CODE) 8 gdt) = 0x00AF9A000000FFFF \<and>
        le64 (gdt_slice (unat GDT_KERNEL_DATA) 8 gdt) = 0x008F92000000FFFF \<and>
        le64 (gdt_slice 24 8 gdt) = 0x00AFFA000000FFFF \<and> le64 (gdt_slice 32 8 gdt) = 0x008FF2000000FFFF \<and>
        tss_base (gdt_slice (unat GDT_TSS) 16 gdt) = 0x123456789000 + offset_tss \<and> tss_limit (gdt_slice (unat GDT_TSS) 16 gdt) = 103 \<and>
        gdt_slice (unat GDT_TSS) 16 gdt ! 5 = 0x89 \<and> gdt_slice (unat GDT_TSS) 16 gdt ! 6 = 0 \<and>
        gp_base (cpu_gdt_ptr c) = 0x123456789000 + offset_gdt \<and> gp_limit (cpu_gdt_ptr c) = 79)"
  by (rule percpu_gdt_descriptors) (simp add: percpu_zero_def)

end
