(* ===== verification/Sync.thy ===== *)
theory Sync
  imports Percpu
begin

text \<open>
  Spinlocks and mutexes (\<^verbatim>\<open>kernel/sync\<close>). Both live in the byte memory: a spinlock has the byte
  \<open>is_locked\<close> at offset 0 and its name at offset 8, a mutex the pointer to its spinlock and the list of waiting threads.
  The exchange that takes a lock is a 32-bit access to that byte and the three padding bytes after it. The spinning
  loop of a processor that runs alone is a partial function (\<open>None\<close> if it never ends); the interleaving of
  several processors is the relation \<open>spin_step\<close>.
\<close>

section \<open>Definitions\<close>

definition init_spinlock :: "u64 \<Rightarrow> u64 \<Rightarrow> memory \<Rightarrow> memory" where
  "init_spinlock lock name m = (let m = m(lock := 0) in store64 m (lock + 8) name)"

definition xchg :: "u64 \<Rightarrow> u32 \<Rightarrow> memory \<Rightarrow> u32 \<times> memory" where
  "xchg addr newval m = (load32 m addr, store32 m addr newval)"

partial_function (option) acquire_loop :: "u64 \<Rightarrow> memory \<Rightarrow> memory option" where
  "acquire_loop lk m = (let (r, m) = xchg lk 1 m in if r \<noteq> 0 then acquire_loop lk m else Some m)"

definition acquire_spinlock :: "u32 \<Rightarrow> u64 \<Rightarrow> 'a percpu_state_scheme \<Rightarrow> 'a percpu_state_scheme option" where
  "acquire_spinlock me lk s =
     (let s = pushcli me s
      in map_option (\<lambda>m. s\<lparr>mem := m\<rparr>) (acquire_loop lk (mem s)))"

definition holding_spinlock :: "u32 \<Rightarrow> u64 \<Rightarrow> 'a percpu_state_scheme \<Rightarrow> (u8 \<times> 'a percpu_state_scheme) result" where
  "holding_spinlock me lock s =
     (let s = pushcli me s;
          r = mem s lock
      in bind_result (popcli me s) (\<lambda>s. Inr (r, s)))"

definition unlock_word :: "u64 \<Rightarrow> memory \<Rightarrow> memory" where
  "unlock_word lk m = store32 m lk 0"

definition release_spinlock :: "u32 \<Rightarrow> u64 \<Rightarrow> 'a percpu_state_scheme \<Rightarrow> 'a percpu_state_scheme result" where
  "release_spinlock me lk s =
     bind_result (holding_spinlock me lk s) (\<lambda>(r, s).
       if r = 0 then Inl (Panic ''release_spinlock'')
       else popcli me (s\<lparr>mem := unlock_word lk (mem s)\<rparr>))"

subsection \<open>Mutexes\<close>

definition mutex_spinlock :: "u64 \<Rightarrow> memory \<Rightarrow> u64" where
  "mutex_spinlock lk m = load64 m lk"

definition mutex_threads :: "u64 \<Rightarrow> memory \<Rightarrow> u64" where
  "mutex_threads lk m = load64 m (lk + 8)"

definition init_mutex :: "u64 \<Rightarrow> u64 \<Rightarrow> 'a kstate_scheme \<Rightarrow> 'a kstate_scheme" where
  "init_mutex lk name s =
     (let (lock, s) = kalloc s;
          m = store64 (mem s) lk lock;
          m = store64 m (lk + 8) 0
      in s\<lparr>mem := init_spinlock (mutex_spinlock lk m) name m\<rparr>)"

text \<open>
  \<open>acquire_mutex\<close>: the \<open>goto\<close> is the recursion. \<open>yield\<close> runs other threads until this one is scheduled again; what they do is
  a parameter.
\<close>

partial_function (option) check_mutex ::
  "('a percpu_state_scheme \<Rightarrow> 'a percpu_state_scheme) \<Rightarrow> u32 \<Rightarrow> u64 \<Rightarrow> 'a percpu_state_scheme \<Rightarrow> 'a percpu_state_scheme result option" where
  "check_mutex yield me lk s =
     (case holding_spinlock me (mutex_spinlock lk (mem s)) s of
        Inl e \<Rightarrow> Some (Inl e)
      | Inr (locked, s) \<Rightarrow>
          if locked = 0 then map_option Inr (acquire_spinlock me (mutex_spinlock lk (mem s)) s)
          else
            let self = current_thread (the_cpu (mycpu me s) s);
                (list, s) = push_thread_list (mutex_threads lk (mem s)) self s;
                m = store64 (mem s) (lk + 8) list;
                s = s\<lparr>mem := change_thread_state self WAIT m\<rparr>;
                s = yield s
            in (case holding_spinlock me (mutex_spinlock lk (mem s)) s of
                  Inl e \<Rightarrow> Some (Inl e)
                | Inr (locked, s) \<Rightarrow>
                    if locked \<noteq> 0 then Some (Inl (Panic ''acquire_mutex: spinlock in not free''))
                    else check_mutex yield me lk s))"

definition acquire_mutex ::
  "('a percpu_state_scheme \<Rightarrow> 'a percpu_state_scheme) \<Rightarrow> u32 \<Rightarrow> u64 \<Rightarrow> 'a percpu_state_scheme \<Rightarrow> 'a percpu_state_scheme result option" where
  "acquire_mutex yield me lk s =
     (if lk = 0 then Some (Inl (Panic ''panic in acquire_mutex'')) else check_mutex yield me lk s)"

definition release_mutex :: "u64 \<Rightarrow> u32 \<Rightarrow> u64 \<Rightarrow> 'a percpu_state_scheme \<Rightarrow> 'a percpu_state_scheme result" where
  "release_mutex kend me lk s =
     (if mem s (mutex_spinlock lk (mem s)) = 0 then Inl (Panic ''release_mutex'')
      else if mutex_threads lk (mem s) = 0 then release_spinlock me (mutex_spinlock lk (mem s)) s
      else bind_result (pop_thread_list kend (mutex_threads lk (mem s)) s) (\<lambda>(thread, list, s).
        let m = store64 (mem s) (lk + 8) list
        in Inr (s\<lparr>mem := change_thread_state thread RUNNABLE m\<rparr>)))"

definition destroy_mutex :: "u64 \<Rightarrow> u64 \<Rightarrow> 'a kstate_scheme \<Rightarrow> 'a kstate_scheme result" where
  "destroy_mutex kend lk s = kfree kend lk s"

subsection \<open>Several processors on one spinlock\<close>

text \<open>
  Where a processor is: outside, in the loop of \<open>acquire_spinlock\<close>, between the two calls, past the check of
  \<open>release_spinlock\<close>, past the store; or stopped by a panic. The critical section may do anything to the memory except
  to the lock word. The check of \<open>release_spinlock\<close> reads the shared memory once, so it is one step.
\<close>

datatype spin_pc = Outside | Spin | Critical | Unlock | Leave | Stopped

record smp_state = percpu_state +
  cpu_pc :: "u32 \<Rightarrow> spin_pc"

definition set_pc :: "u32 \<Rightarrow> spin_pc \<Rightarrow> smp_state \<Rightarrow> smp_state" where
  "set_pc me pc s = s\<lparr>cpu_pc := (cpu_pc s)(me := pc)\<rparr>"

inductive spin_step :: "u64 \<Rightarrow> u32 set \<Rightarrow> smp_state \<Rightarrow> smp_state \<Rightarrow> bool" for lk cpus where
  enter: "\<lbrakk>me \<in> cpus; cpu_pc s me = Outside\<rbrakk> \<Longrightarrow> spin_step lk cpus s (set_pc me Spin (pushcli me s))"
| spin: "\<lbrakk>me \<in> cpus; cpu_pc s me = Spin; xchg lk 1 (mem s) = (r, m); r \<noteq> 0\<rbrakk> \<Longrightarrow> spin_step lk cpus s (s\<lparr>mem := m\<rparr>)"
| take: "\<lbrakk>me \<in> cpus; cpu_pc s me = Spin; xchg lk 1 (mem s) = (0, m)\<rbrakk> \<Longrightarrow> spin_step lk cpus s (set_pc me Critical (s\<lparr>mem := m\<rparr>))"
| work: "\<lbrakk>me \<in> cpus; cpu_pc s me = Critical; load32 m lk = load32 (mem s) lk\<rbrakk> \<Longrightarrow> spin_step lk cpus s (s\<lparr>mem := m\<rparr>)"
| check: "\<lbrakk>me \<in> cpus; cpu_pc s me = Critical; holding_spinlock me lk s = Inr (r, s'); r \<noteq> 0\<rbrakk> \<Longrightarrow> spin_step lk cpus s (set_pc me Unlock s')"
| check_fails: "\<lbrakk>me \<in> cpus; cpu_pc s me = Critical; holding_spinlock me lk s = Inr (0, s')\<rbrakk> \<Longrightarrow> spin_step lk cpus s (set_pc me Stopped s')"
| check_panics: "\<lbrakk>me \<in> cpus; cpu_pc s me = Critical; holding_spinlock me lk s = Inl e\<rbrakk> \<Longrightarrow> spin_step lk cpus s (set_pc me Stopped s)"
| unlock: "\<lbrakk>me \<in> cpus; cpu_pc s me = Unlock\<rbrakk> \<Longrightarrow> spin_step lk cpus s (set_pc me Leave (s\<lparr>mem := unlock_word lk (mem s)\<rparr>))"
| leave: "\<lbrakk>me \<in> cpus; cpu_pc s me = Leave; popcli me s = Inr s'\<rbrakk> \<Longrightarrow> spin_step lk cpus s (set_pc me Outside s')"
| leave_panics: "\<lbrakk>me \<in> cpus; cpu_pc s me = Leave; popcli me s = Inl e\<rbrakk> \<Longrightarrow> spin_step lk cpus s (set_pc me Stopped s)"

subsection \<open>Specification\<close>

text \<open>The change from \<open>s\<close> to \<open>s'\<close> is confined to the record and the registers of the processor \<open>me\<close>.\<close>

definition cpu_local :: "u32 \<Rightarrow> 'a percpu_state_scheme \<Rightarrow> 'a percpu_state_scheme \<Rightarrow> bool" where
  "cpu_local me s s' \<longleftrightarrow>
     (\<forall>a. mycpu a s' = mycpu a s) \<and> (\<forall>r. ref_ok r s' = ref_ok r s) \<and> (\<forall>r. r \<noteq> mycpu me s \<longrightarrow> the_cpu r s' = the_cpu r s) \<and>
     (\<forall>a. a \<noteq> me \<longrightarrow> hw s' a = hw s a) \<and> mem s' = mem s \<and> percpu_state.more s' = percpu_state.more s"

definition holds_lock :: "smp_state \<Rightarrow> u32 \<Rightarrow> bool" where
  "holds_lock s me \<longleftrightarrow> cpu_pc s me = Critical \<or> cpu_pc s me = Unlock"

definition spin_inv :: "u64 \<Rightarrow> u32 set \<Rightarrow> (u32 \<Rightarrow> bool) \<Rightarrow> smp_state \<Rightarrow> bool" where
  "spin_inv lk cpus b s \<longleftrightarrow>
     (\<forall>me \<in> cpus. cpu_pc s me \<noteq> Stopped \<and> cli_at me (b me) (if cpu_pc s me = Outside then 0 else 1) s) \<and>
     inj_on (\<lambda>me. mycpu me s) cpus \<and>
     (\<forall>x \<in> cpus. \<forall>y \<in> cpus. holds_lock s x \<longrightarrow> holds_lock s y \<longrightarrow> x = y) \<and>
     load32 (mem s) lk = (if \<exists>x \<in> cpus. holds_lock s x then 1 else 0)"

definition demo_smp :: smp_state where
  "demo_smp = percpu_state.extend
     (demo_percpu\<lparr>percpu_fully_initialized := True, ncpu := 2, apic_to_cpu := (replicate 256 0)[1 := 1]\<rparr>)
     (smp_state.fields (\<lambda>_. Outside))"

section \<open>Steps of one processor leave the others alone\<close>

lemma cpu_local_trans: "\<lbrakk>cpu_local me s s'; cpu_local me s' s''\<rbrakk> \<Longrightarrow> cpu_local me s s''"
  by (simp add: cpu_local_def)

lemma cpu_local_set_if: "cpu_local me s (set_if me b s)"
  by (simp add: cpu_local_def) (simp add: set_if_def)

lemma the_cpu_upd_other: "r \<noteq> q \<Longrightarrow> the_cpu r (upd_cpu q f s) = the_cpu r s"
  by (cases r; cases q) (simp_all add: the_cpu_def upd_cpu_def)

lemma cpu_local_upd: "\<lbrakk>\<And>c. apic_id (f c) = apic_id c; q = mycpu me s\<rbrakk> \<Longrightarrow> cpu_local me s (upd_cpu q f s)"
  by (simp add: cpu_local_def the_cpu_upd_other) (cases "mycpu me s"; simp add: upd_cpu_def)

lemma cpu_local_pushcli: "cpu_local me s (pushcli me s)"
proof -
  let ?s1 = "set_if me False s" and ?c = "mycpu me s"
  let ?u = "upd_cpu ?c (\<lambda>c. c\<lparr>intena := if hw_if (hw s me) then FL_IF else 0\<rparr>) ?s1"
  let ?s2 = "if ncli (the_cpu ?c ?s1) = 0 then ?u else ?s1"
  have l: "cpu_local me s ?s1" by (rule cpu_local_set_if)
  have "cpu_local me ?s1 ?u" by (rule cpu_local_upd) simp_all
  from l cpu_local_trans [OF l this] have l2: "cpu_local me s ?s2" by simp
  have "cpu_local me ?s2 (upd_cpu ?c (\<lambda>c. c\<lparr>ncli := ncli c + 1\<rparr>) ?s2)"
    by (rule cpu_local_upd) (use l2 in \<open>simp_all add: cpu_local_def\<close>)
  from cpu_local_trans [OF l2 this] show ?thesis unfolding pushcli_def Let_def mycpu_set_if .
qed

lemma cpu_local_popcli:
  assumes "popcli me s = Inr s'"
  shows "cpu_local me s s'"
proof -
  let ?s1 = "upd_cpu (mycpu me s) (\<lambda>c. c\<lparr>ncli := ncli c - 1\<rparr>) s"
  have "cpu_local me s ?s1" by (rule cpu_local_upd) simp_all
  moreover have "s' = ?s1 \<or> s' = set_if me True ?s1" using assms by (auto simp: popcli_def Let_def split: if_splits)
  ultimately show ?thesis using cpu_local_set_if cpu_local_trans by blast
qed

lemma cli_at_local:
  assumes "cpu_local me s s'" "a \<noteq> me" "mycpu a s \<noteq> mycpu me s"
  shows "cli_at a b n s' = cli_at a b n s"
  using assms by (simp add: cpu_local_def cli_at_def Let_def)

lemma holding_spinlock_at:
  assumes "cli_at me b n s"
  shows "\<exists>s'. holding_spinlock me lk s = Inr (mem s lk, s') \<and> cli_at me b n s' \<and> cpu_local me s s'"
proof -
  obtain s' where s': "popcli me (pushcli me s) = Inr s'" "cli_at me b n s'"
    using popcli_at [OF pushcli_at [OF assms]] by blast
  have "cpu_local me s s'" using cpu_local_pushcli cpu_local_popcli [OF s'(1)] cpu_local_trans by blast
  moreover have "mem (pushcli me s) lk = mem s lk" using cpu_local_pushcli [of me s] by (simp add: cpu_local_def)
  ultimately show ?thesis using s' by (simp add: holding_spinlock_def)
qed

section \<open>The lock word\<close>

lemma load32_byte: "ucast (load32 m a) = m a"
  by (rule bit_word_eqI) (simp add: load32_def bit_load_le bit_simps)

lemma load32_one: "load32 m a = 1 \<Longrightarrow> m a = 1"
  using load32_byte [of m a] by simp

section \<open>Mutual exclusion\<close>

lemma set_pc_simps [simp]:
  "cpu_pc (set_pc me pc s) = (cpu_pc s)(me := pc)" "mem (set_pc me pc s) = mem s" "mycpu a (set_pc me pc s) = mycpu a s"
  "cli_at a b n (set_pc me pc s) = cli_at a b n s"
  by (simp_all add: set_pc_def mycpu_def cli_at_def the_cpu_def ref_ok_def Let_def split: cpu_ref.split)

lemma mem_upd_simps [simp]: "mycpu a (s\<lparr>mem := m\<rparr>) = mycpu a s" "cli_at a b n (s\<lparr>mem := m\<rparr>) = cli_at a b n s"
  by (simp_all add: mycpu_def cli_at_def the_cpu_def ref_ok_def Let_def split: cpu_ref.split)

text \<open>A step of processor \<open>me\<close> that changes its own record and program counter.\<close>

lemma cpu_local_pc: "cpu_local me s s' \<Longrightarrow> cpu_pc s' = cpu_pc s"
  by (cases s; cases s') (simp add: cpu_local_def)

lemma spin_inv_local:
  assumes inv: "spin_inv lk cpus b s" and me: "me \<in> cpus" and l: "cpu_local me s s'" and pc: "pc \<noteq> Stopped"
    and cli: "cli_at me (b me) (if pc = Outside then 0 else 1) s'"
    and hold: "pc = Critical \<or> pc = Unlock \<longleftrightarrow> holds_lock s me"
  shows "spin_inv lk cpus b (set_pc me pc s')"
proof -
  note pcs = cpu_local_pc [OF l]
  have m: "mem s' = mem s" "\<And>a. mycpu a s' = mycpu a s" using l by (auto simp: cpu_local_def)
  have h: "holds_lock (set_pc me pc s') x = holds_lock s x" for x
    using hold by (simp add: holds_lock_def pcs)
  have "cli_at x (b x) (if cpu_pc s x = Outside then 0 else 1) s'" if "x \<in> cpus" "x \<noteq> me" for x
  proof -
    have "mycpu x s \<noteq> mycpu me s" using inv me that by (auto simp: spin_inv_def inj_on_def)
    with inv that show ?thesis by (simp add: cli_at_local [OF l] spin_inv_def)
  qed
  with cli have "cli_at x (b x) (if ((cpu_pc s)(me := pc)) x = Outside then 0 else 1) s'" if "x \<in> cpus" for x
    using that by (cases "x = me") simp_all
  with inv pc show ?thesis unfolding spin_inv_def h by (auto simp: pcs m)
qed

text \<open>A step of processor \<open>me\<close> that only writes the memory and moves its program counter: taking the lock, giving it back.\<close>

lemma spin_inv_mem:
  assumes inv: "spin_inv lk cpus b s" and me: "me \<in> cpus" and pc: "pc \<noteq> Stopped"
    and "pc \<noteq> Outside" "cpu_pc s me \<noteq> Outside"
    and one: "\<And>x y. x \<in> cpus \<Longrightarrow> y \<in> cpus \<Longrightarrow> holds_lock (set_pc me pc s) x \<Longrightarrow> holds_lock (set_pc me pc s) y \<Longrightarrow> x = y"
    and word: "load32 m lk = (if \<exists>x \<in> cpus. holds_lock (set_pc me pc s) x then 1 else 0)"
  shows "spin_inv lk cpus b (set_pc me pc (s\<lparr>mem := m\<rparr>))"
proof -
  have h: "holds_lock (set_pc me pc (s\<lparr>mem := m\<rparr>)) x = holds_lock (set_pc me pc s) x" for x
    by (simp add: holds_lock_def)
  have "cli_at x (b x) (if ((cpu_pc s)(me := pc)) x = Outside then 0 else 1) s" if "x \<in> cpus" for x
    using inv assms(4,5) that by (cases "x = me") (auto simp: spin_inv_def)
  with inv pc one word show ?thesis unfolding spin_inv_def h by auto
qed

lemma spin_inv_step:
  assumes "spin_step lk cpus s s'" "spin_inv lk cpus b s"
  shows "spin_inv lk cpus b s'"
  using assms
proof (induction rule: spin_step.induct)
  case (enter me s)
  then have "cli_at me (b me) 0 s" by (auto simp: spin_inv_def)
  from pushcli_at [OF this] enter show ?case
    by (intro spin_inv_local [OF enter(3,1) cpu_local_pushcli]) (simp_all add: holds_lock_def)
next
  case (spin me s r m)
  then have "load32 m lk = load32 (mem s) lk"
    by (auto simp: xchg_def load32_store32_same spin_inv_def split: if_splits)
  with spin show ?case by (simp add: spin_inv_def holds_lock_def)
next
  case (take me s m)
  then have none: "\<forall>x \<in> cpus. \<not> holds_lock s x" and m: "load32 m lk = 1"
    by (auto simp: xchg_def load32_store32_same spin_inv_def split: if_splits)
  then have "holds_lock (set_pc me Critical s) x \<longleftrightarrow> x = me" if "x \<in> cpus" for x
    using that by (auto simp: holds_lock_def)
  with take m show ?case by (intro spin_inv_mem) auto
next
  case (work me s m)
  then show ?case by (simp add: spin_inv_def holds_lock_def)
next
  case (check me s r s')
  from check have "cli_at me (b me) 1 s" by (auto simp: spin_inv_def)
  from holding_spinlock_at [OF this, of lk] check have "cli_at me (b me) 1 s'" "cpu_local me s s'" by auto
  with check show ?case by (intro spin_inv_local [of lk cpus b s]) (simp_all add: holds_lock_def)
next
  case (check_fails me s s')
  then have "cli_at me (b me) 1 s" "holds_lock s me" by (auto simp: spin_inv_def holds_lock_def)
  moreover from this check_fails have "mem s lk = 1" by (intro load32_one) (auto simp: spin_inv_def)
  ultimately show ?case using check_fails holding_spinlock_at [of me "b me" 1 s lk] by simp
next
  case (check_panics me s e)
  then have "cli_at me (b me) 1 s" by (auto simp: spin_inv_def)
  from holding_spinlock_at [OF this, of lk] check_panics show ?case by simp
next
  case (unlock me s)
  then have "\<not> holds_lock (set_pc me Leave s) x" if "x \<in> cpus" for x
    using that by (auto simp: holds_lock_def spin_inv_def)
  with unlock show ?case by (intro spin_inv_mem) (auto simp: unlock_word_def load32_store32_same)
next
  case (leave me s s')
  from leave have "cli_at me (b me) 1 s" by (auto simp: spin_inv_def)
  with popcli_at [of me "b me" 0 s] leave have "cli_at me (b me) 0 s'" by simp
  with leave show ?case
    by (intro spin_inv_local [OF leave(4,1) cpu_local_popcli]) (simp_all add: holds_lock_def)
next
  case (leave_panics me s e)
  from leave_panics have "cli_at me (b me) 1 s" by (auto simp: spin_inv_def)
  with popcli_at [of me "b me" 0 s] leave_panics show ?case by simp
qed

lemma spin_inv_reach:
  assumes "(spin_step lk cpus)\<^sup>*\<^sup>* s s'" "spin_inv lk cpus b s"
  shows "spin_inv lk cpus b s'"
  using assms by (induction rule: rtranclp_induct) (auto intro: spin_inv_step)


section \<open>The spinning loop\<close>

lemma acquire_loop_free: "load32 m lk = 0 \<Longrightarrow> acquire_loop lk m = Some (store32 m lk 1)"
  by (subst acquire_loop.simps) (simp add: xchg_def)

lemma acquire_loop_returns:
  assumes "acquire_loop lk m = Some m'"
  shows "load32 m lk = 0"
proof (rule acquire_loop.raw_induct [OF _ assms, of "\<lambda>lk m m'. load32 m lk = 0"])
  fix f lk m m'
  assume "\<And>lk m m'. f lk m = Some m' \<Longrightarrow> load32 m lk = 0"
    and "(let (r, m) = xchg lk 1 m in if r \<noteq> 0 then f lk m else Some m) = Some m'"
  from this(1) [of lk "store32 m lk 1" m'] this(2) show "load32 m lk = 0"
    by (auto simp: xchg_def load32_store32_same split: if_splits)
qed

lemma acquire_loop_taken: "load32 m lk \<noteq> 0 \<Longrightarrow> acquire_loop lk m = None"
  using acquire_loop_returns by (cases "acquire_loop lk m") blast+

section \<open>A new mutex\<close>

lemma load32_byte1: "m (a + 1) = 5 \<Longrightarrow> load32 m a \<noteq> 0"
proof
  assume "m (a + 1) = 5" "load32 m a = 0"
  moreover have "bit (load32 m a) 8 = bit (m (a + 1)) 0"
    by (simp add: load32_def bit_load_le bit_simps)
  ultimately show False by simp
qed

lemma init_mutex_word:
  assumes inv: "kmem_inv kend s (p # ps)" and lk: "\<forall>x. unat (x - lk) < 16 \<longrightarrow> \<not> in_page p x"
  shows "mutex_spinlock lk (mem (init_mutex lk name s)) = p \<and> mem (init_mutex lk name s) p = 0 \<and>
     load32 (mem (init_mutex lk name s)) p \<noteq> 0"
proof -
  obtain s' where s': "kalloc s = (p, s')" "mem s' = memset (mem s) p 5 4096"
    using inv kalloc_cons [OF inv] by (auto simp: kalloc_def Let_def kmem_inv_def)
  define m0 where "m0 = store64 (store64 (mem s') lk p) (lk + 8) 0"
  have p: "page_aligned p" using inv by (simp add: kmem_inv_def valid_page_def)
  have in_lk: "unat (x - lk) < 16" if "unat (x - lk) < 8 \<or> unat (x - (lk + 8)) < 8" for x
  proof -
    have "unat (x - lk) \<le> unat (x - (lk + 8)) + 8"
      using unat_word_ariths(1) [of "x - (lk + 8)" 8] by (simp add: mod_less_eq_dividend)
    with that show ?thesis by auto
  qed
  have sp: "load64 m0 lk = p"
    by (simp add: m0_def load64_store64_disjoint disjoint8_def load64_store64_same)
  then have m: "mem (init_mutex lk name s) = store64 (m0(p := 0)) (p + 8) name"
    by (simp add: init_mutex_def s'(1) mutex_spinlock_def init_spinlock_def Let_def flip: m0_def)
  have five: "m0 x = 5" if "in_page p x" for x
    using that lk in_lk [of x] by (auto simp: m0_def store64_apply s' memset_page)
  have "mem (init_mutex lk name s) (lk + of_nat i) = m0 (lk + of_nat i)" if "i < 8" for i
  proof -
    have "\<not> in_page p (lk + of_nat i)" using lk that by (simp add: unat_of_nat take_bit_nat_eq_self)
    moreover from this have "lk + of_nat i \<noteq> p" using p by (auto simp: in_page_def)
    ultimately show ?thesis using store64_outside_page [OF p, of 1] by (simp add: m)
  qed
  then have "load64 (mem (init_mutex lk name s)) lk = p" using sp load64_cong by metis
  moreover have "in_page p (p + 1)" using p by (simp add: in_page_def)
  then have "mem (init_mutex lk name s) (p + 1) = 5" using five by (simp add: m store64_apply)
  ultimately show ?thesis using load32_byte1 by (simp add: mutex_spinlock_def m store64_apply)
qed


lemma freelist_upd_simps [simp]: "mycpu a (s\<lparr>freelist := f\<rparr>) = mycpu a s" "cli_at a b n (s\<lparr>freelist := f\<rparr>) = cli_at a b n s"
  by (simp_all add: mycpu_def cli_at_def the_cpu_def ref_ok_def Let_def split: cpu_ref.split)

lemma cli_at_kalloc: "kalloc s = (p, s') \<Longrightarrow> cli_at a b n s' = cli_at a b n s"
  by (cases "freelist s = 0") (auto simp: kalloc_def Let_def)

lemma cli_at_init_mutex [simp]: "cli_at a b n (init_mutex lk name s) = cli_at a b n s"
  by (cases "kalloc s") (simp add: init_mutex_def cli_at_kalloc Let_def)

section \<open>Properties\<close>

text \<open>
  C36. Mutual exclusion of \<open>acquire_spinlock\<close> and \<open>release_spinlock\<close>, for any number of processors and any
  interleaving of their steps, from a lock word that is zero: no two processors are between the two calls, no call
  panics, a processor has interrupts off from the start of \<open>acquire_spinlock\<close> to the end of \<open>release_spinlock\<close> and
  as before outside, and when no one holds the lock every processor that spins can take it with its next exchange.
\<close>

theorem spinlock_mutual_exclusion:
  assumes "load32 (mem s) lk = 0" "\<forall>me \<in> cpus. cpu_pc s me = Outside \<and> cli_at me (hw_if (hw s me)) 0 s"
    and "inj_on (\<lambda>me. mycpu me s) cpus" "(spin_step lk cpus)\<^sup>*\<^sup>* s s'"
  shows "(\<forall>x \<in> cpus. \<forall>y \<in> cpus. cpu_pc s' x = Critical \<longrightarrow> cpu_pc s' y = Critical \<longrightarrow> x = y) \<and>
     (\<forall>me \<in> cpus. cpu_pc s' me \<noteq> Stopped \<and> hw_if (hw s' me) = (hw_if (hw s me) \<and> cpu_pc s' me = Outside)) \<and>
     (\<forall>me \<in> cpus. cpu_pc s' me = Spin \<longrightarrow> (\<forall>x \<in> cpus. \<not> holds_lock s' x) \<longrightarrow>
        (\<exists>s''. spin_step lk cpus s' s'' \<and> cpu_pc s'' me = Critical))"
proof -
  have "spin_inv lk cpus (\<lambda>me. hw_if (hw s me)) s" using assms(1-3) by (simp add: spin_inv_def holds_lock_def)
  from spin_inv_reach [OF assms(4) this] have inv: "spin_inv lk cpus (\<lambda>me. hw_if (hw s me)) s'" .
  show ?thesis
  proof (intro conjI ballI impI)
    fix me assume me: "me \<in> cpus" "cpu_pc s' me = Spin" "\<forall>x \<in> cpus. \<not> holds_lock s' x"
    then have "xchg lk 1 (mem s') = (0, store32 (mem s') lk 1)" using inv by (simp add: xchg_def spin_inv_def)
    from spin_step.take [OF me(1,2) this] show "\<exists>s''. spin_step lk cpus s' s'' \<and> cpu_pc s'' me = Critical" by fastforce
  qed (use inv in \<open>auto simp: spin_inv_def holds_lock_def cli_at_def Let_def split: if_splits\<close>)
qed

theorem spinlock_mutual_exclusion_witness:
  "\<exists>s'. cpu_pc s' 0 = Critical \<and> cpu_pc s' 1 \<noteq> Critical \<and> (spin_step 0x1000 {0, 1})\<^sup>*\<^sup>* demo_smp s'"
proof -
  let ?s1 = "set_pc 0 Spin (pushcli 0 demo_smp)" and ?cpus = "{0, 1} :: u32 set"
  let ?s2 = "set_pc 0 Critical (?s1\<lparr>mem := store32 (mem ?s1) 0x1000 1\<rparr>)"
  have word: "load32 (mem demo_smp) 0x1000 = 0"
    by (simp add: demo_smp_def demo_percpu_def percpu_state.defs smp_state.defs load32_def numeral_eq_Suc)
  have pcs: "cpu_pc demo_smp = (\<lambda>_. Outside)" by (simp add: demo_smp_def percpu_state.defs smp_state.defs)
  have my: "mycpu 0 demo_smp = Cpu 0" "mycpu 1 demo_smp = Cpu 1"
    by (simp_all add: demo_smp_def demo_percpu_def percpu_state.defs smp_state.defs mycpu_def)
  have cli: "\<forall>me \<in> ?cpus. cpu_pc demo_smp me = Outside \<and> cli_at me (hw_if (hw demo_smp me)) 0 demo_smp"
    by (simp add: pcs my cli_at_def Let_def)
      (simp add: demo_smp_def demo_percpu_def percpu_state.defs smp_state.defs the_cpu_def ref_ok_def percpu_zero_def)
  have "spin_step 0x1000 ?cpus demo_smp ?s1" by (rule spin_step.enter) (simp_all add: pcs)
  moreover have "mem ?s1 = mem demo_smp" using cpu_local_pushcli [of 0 demo_smp] by (simp add: cpu_local_def)
  then have "spin_step 0x1000 ?cpus ?s1 ?s2"
    using word by (intro spin_step.take) (simp_all add: xchg_def)
  ultimately have reach: "(spin_step 0x1000 ?cpus)\<^sup>*\<^sup>* demo_smp ?s2" by (meson r_into_rtranclp rtranclp_trans)
  have "cpu_pc ?s2 1 \<noteq> Critical"
    using spinlock_mutual_exclusion [OF word cli _ reach] my by (auto simp: inj_on_def)
  with reach show ?thesis by (intro exI [of _ ?s2]) simp
qed

text \<open>
  C37. A mutex that \<open>init_mutex\<close> has just set up can never be acquired: \<open>acquire_mutex\<close> does not return. The page of its
  spinlock is filled with 5, \<open>init_spinlock\<close> clears only the byte \<open>is_locked\<close>, so \<open>holding_spinlock\<close> answers
  that the lock is free, and the 32-bit exchange of \<open>acquire_spinlock\<close> then finds the padding bytes not zero and, from
  then on, its own 1.
\<close>

theorem new_mutex_never_acquired:
  assumes "kmem_inv kend s (p # ps)" "lk \<noteq> 0" "\<forall>x. unat (x - lk) < 16 \<longrightarrow> \<not> in_page p x" "cli_at me b n s"
  shows "acquire_mutex yield me lk (init_mutex lk name s) = None"
proof -
  let ?s = "init_mutex lk name s"
  note w = init_mutex_word [OF assms(1,3), of name]
  have "cli_at me b n ?s" using assms(4) by simp
  from holding_spinlock_at [OF this, of p] obtain s'
    where h: "holding_spinlock me p ?s = Inr (0, s')" "mem s' = mem ?s" using w by (auto simp: cpu_local_def)
  have "mem (pushcli me s') = mem s'" using cpu_local_pushcli [of me s'] by (simp add: cpu_local_def)
  then have "acquire_spinlock me p s' = None" using w h by (simp add: acquire_spinlock_def acquire_loop_taken Let_def)
  with w h assms(2) show ?thesis by (simp add: acquire_mutex_def check_mutex.simps [of yield me lk ?s])
qed

theorem new_mutex_never_acquired_witness:
  "acquire_mutex id 0 0x5000 (init_mutex 0x5000 0 (demo_percpu\<lparr>freelist := 0x200000\<rparr>)) = None"
proof (rule new_mutex_never_acquired [where kend = "0x150000" and p = "0x200000" and ps = "[]" and b = True and n = 0])
  have "mem demo_percpu = (\<lambda>_. 0)" by (simp only: demo_percpu_def kstate.select_convs)
  moreover have "chain (\<lambda>_. 0) 0x200000 [0x200000]" by simp
  moreover have "valid_page 0x150000 0x200000" by (simp add: valid_page_def page_aligned_def)
  ultimately show "kmem_inv 0x150000 (demo_percpu\<lparr>freelist := 0x200000\<rparr>) [0x200000]" by (simp add: kmem_inv_def)
  show "\<forall>x. unat (x - 0x5000) < 16 \<longrightarrow> \<not> in_page 0x200000 x" 
  proof (intro allI impI notI)
    fix x :: u64
    assume "unat (x - 0x5000) < 16" "in_page 0x200000 x"
    then show False using pages_disjoint [of "0x5000" "0x200000" x] by (simp add: in_page_def page_aligned_def)
  qed
  show "cli_at 0 True 0 (demo_percpu\<lparr>freelist := 0x200000\<rparr>)"
    by (simp add: cli_at_def Let_def demo_percpu_def mycpu_def the_cpu_def ref_ok_def percpu_zero_def)
qed simp

end
