(* ===== verification/Proc.thy ===== *)
theory Proc
  imports Threads
begin

text \<open>
  Processes and the single-processor scheduler (\<^verbatim>\<open>kernel/sched/proc.c\<close>,
  \<^verbatim>\<open>kernel/sched/scheduler.c\<close>). The state extends the page allocator's by the global variables of the two files.
  A process is a page; its thread list hangs off a field. The locks around the process list and the
  process counter only order callers, so the sections they protect are plain steps here; the
  \<open>LOG\<close> lines do not touch this state. The addresses of static variables and of the thread function are link-time
  constants, the context switch is assembly: both are parameters.
\<close>

section \<open>Definitions\<close>

record sched_state = kstate +
  proc_list :: u64
  current_pid :: u64
  current_proc_rounds :: u32
  running_thread :: u64
  kcontext_ptr :: u64

text \<open>The fields of \<open>struct proc\<close> and \<open>struct argument\<close>.\<close>

definition P_PID :: nat where [simp]: "P_PID = 0"
definition P_KILLED :: nat where [simp]: "P_KILLED = 1"
definition P_THREADS :: nat where [simp]: "P_THREADS = 2"

definition ROUNDS_PER_PROC :: u32 where [simp]: "ROUNDS_PER_PROC = 5"

definition generate_pid :: "'a sched_state_scheme \<Rightarrow> u64 \<times> 'a sched_state_scheme" where
  "generate_pid s =
     (let local_pid = ucast (current_pid s) :: u32;
          s = s\<lparr>current_pid := current_pid s + 1\<rparr>
      in (scast local_pid, s))"

definition push_proc_list :: "u64 \<Rightarrow> u64 \<Rightarrow> 'a kstate_scheme \<Rightarrow> u64 \<times> 'a kstate_scheme" where
  "push_proc_list list proc s =
     (let (new_node, s) = kalloc s;
          m = set_fld (mem s) new_node N_DATA proc
      in if list \<noteq> 0 then
           let m = set_fld m new_node N_NEXT list;
               m = set_fld m new_node N_PREV (fld m list N_PREV);
               m = set_fld m (fld m list N_PREV) N_NEXT new_node;
               m = set_fld m list N_PREV new_node
           in (list, s\<lparr>mem := m\<rparr>)
         else
           let m = set_fld m new_node N_PREV new_node;
               m = set_fld m new_node N_NEXT new_node
           in (new_node, s\<lparr>mem := m\<rparr>))"

definition pop_proc_list :: "u64 \<Rightarrow> u64 \<Rightarrow> 'a kstate_scheme \<Rightarrow> (u64 \<times> u64 \<times> 'a kstate_scheme) result" where
  "pop_proc_list kend list s =
     (if list = 0 then Inl (Panic (''Empty proc list while popping'' @ [CHR 0x0A]))
      else
        let p = fld (mem s) list N_DATA;
            s = s\<lparr>mem := set_fld (mem s) list N_NEXT list\<rparr>
        in if list \<noteq> 0 then bind_result (kfree kend list s) (\<lambda>s. Inr (p, 0, s))
           else
             let m = mem s;
                 m = set_fld m (fld m list N_PREV) N_NEXT (fld m list N_NEXT);
                 m = set_fld m (fld m list N_NEXT) N_PREV (fld m list N_PREV)
             in bind_result (kfree kend list (s\<lparr>mem := m\<rparr>)) (\<lambda>s. Inr (p, list, s)))"

definition shift_proc_list :: "u64 \<Rightarrow> memory \<Rightarrow> u64 result" where
  "shift_proc_list list m =
     (if list = 0 then Inl (Panic (''Empty proc list while shifting'' @ [CHR 0x0A])) else Inr (fld m list N_NEXT))"

definition peek_proc_list :: "u64 \<Rightarrow> memory \<Rightarrow> u64 result" where
  "peek_proc_list list m =
     (if list = 0 then Inl (Panic (''Empty proc list while peeking'' @ [CHR 0x0A])) else Inr (fld m list N_DATA))"

definition allocproc :: "'a sched_state_scheme \<Rightarrow> (u64 \<times> 'a sched_state_scheme) result" where
  "allocproc s =
     (let (proc, s) = kalloc s
      in if proc = 0 then Inl (Panic (''Failed to alloc proc'' @ [CHR 0x0A]))
         else
           let (pid, s) = generate_pid s;
               s = s\<lparr>mem := set_fld (mem s) proc P_THREADS 0\<rparr>;
               s = s\<lparr>mem := set_fld32 (mem s) proc P_KILLED 0\<rparr>;
               (list, s) = push_proc_list (proc_list s) proc s
           in Inr (proc, s\<lparr>proc_list := list\<rparr>))"

definition push_proc_thread :: "u64 \<Rightarrow> u64 \<Rightarrow> 'a kstate_scheme \<Rightarrow> 'a kstate_scheme" where
  "push_proc_thread proc thread s =
     (let (list, s) = push_thread_list (fld (mem s) proc P_THREADS) thread s
      in s\<lparr>mem := set_fld (mem s) proc P_THREADS list\<rparr>)"

definition procinit ::
  "u64 \<Rightarrow> u64 \<Rightarrow> u64 \<Rightarrow> u64 \<Rightarrow> u64 \<Rightarrow> 'a sched_state_scheme \<Rightarrow> (u64 \<times> 'a sched_state_scheme) result" where
  "procinit thread_function arg_value1 arg_value2 arg1 arg2 s =
     bind_result (allocproc s) (\<lambda>(init_proc, s).
       let m = store64 (mem s) (arg1 + 8) 4;
           m = store64 m arg1 arg_value1;
           m = store64 m (arg2 + 8) 4;
           m = store64 m arg2 arg_value2;
           s = s\<lparr>mem := m\<rparr>;
           (new_thread1, s) = create_thread thread_function 1 arg1 s;
           (new_thread2, s) = create_thread thread_function 1 arg2 s;
           s = s\<lparr>mem := change_thread_state new_thread1 RUNNABLE (mem s)\<rparr>;
           s = s\<lparr>mem := change_thread_state new_thread2 RUNNABLE (mem s)\<rparr>;
           s = push_proc_thread init_proc new_thread1 s;
           s = push_proc_thread init_proc new_thread2 s
       in Inr (proc_list s, s))"

text \<open>
  The two loops of \<open>get_next_thread\<close>. \<open>None\<close> is an endless loop; the inner loop yields the thread it found, if
  any.
\<close>

partial_function (option) next_thread_loop ::
  "u64 \<Rightarrow> u64 \<Rightarrow> 'a sched_state_scheme \<Rightarrow> (u64 option \<times> 'a sched_state_scheme) result option" where
  "next_thread_loop first_thread current_proc s =
     (case peek_thread_list (fld (mem s) current_proc P_THREADS) (mem s) of
        Inl e \<Rightarrow> Some (Inl e)
      | Inr current_thread \<Rightarrow>
          (case shift_thread_list (fld (mem s) current_proc P_THREADS) (mem s) of
             Inl e \<Rightarrow> Some (Inl e)
           | Inr list \<Rightarrow>
               let s = s\<lparr>mem := set_fld (mem s) current_proc P_THREADS list\<rparr>
               in if thread_state (mem s) current_thread = state_code RUNNABLE then Some (Inr (Some current_thread, s))
                  else (case peek_thread_list (fld (mem s) current_proc P_THREADS) (mem s) of
                          Inl e \<Rightarrow> Some (Inl e)
                        | Inr t \<Rightarrow> if t \<noteq> first_thread then next_thread_loop first_thread current_proc s
                                 else Some (Inr (None, s)))))"

partial_function (option) next_proc_loop ::
  "u64 \<Rightarrow> 'a sched_state_scheme \<Rightarrow> (u64 \<times> 'a sched_state_scheme) result option" where
  "next_proc_loop first_proc s =
     (case peek_proc_list (proc_list s) (mem s) of
        Inl e \<Rightarrow> Some (Inl e)
      | Inr current_proc \<Rightarrow>
          if fld (mem s) current_proc P_THREADS = 0 then Some (Inl (Panic (''schedule: proc with no threads'' @ [CHR 0x0A])))
          else
            (case peek_thread_list (fld (mem s) current_proc P_THREADS) (mem s) of
               Inl e \<Rightarrow> Some (Inl e)
             | Inr first_thread \<Rightarrow>
                 Option.bind (next_thread_loop first_thread current_proc s) (\<lambda>r.
                   case r of
                     Inl e \<Rightarrow> Some (Inl e)
                   | Inr (Some t, s) \<Rightarrow> Some (Inr (t, s))
                   | Inr (None, s) \<Rightarrow>
                       let s = s\<lparr>current_proc_rounds := 0\<rparr>
                       in (case shift_proc_list (proc_list s) (mem s) of
                             Inl e \<Rightarrow> Some (Inl e)
                           | Inr list \<Rightarrow>
                               let s = s\<lparr>proc_list := list\<rparr>
                               in (case peek_proc_list (proc_list s) (mem s) of
                                     Inl e \<Rightarrow> Some (Inl e)
                                   | Inr p \<Rightarrow> if p \<noteq> first_proc then next_proc_loop first_proc s
                                            else Some (Inl (Panic (''shcedule: no available threads'' @ [CHR 0x0A]))))))))"

definition get_next_thread :: "'a sched_state_scheme \<Rightarrow> (u64 \<times> 'a sched_state_scheme) result option" where
  "get_next_thread s =
     (if proc_list s = 0 then Some (Inl (Panic ''schedule: no procs''))
      else
        (case peek_proc_list (proc_list s) (mem s) of
           Inl e \<Rightarrow> Some (Inl e)
         | Inr first_proc \<Rightarrow>
             if current_proc_rounds s \<ge> ROUNDS_PER_PROC
             then
               let s = s\<lparr>current_proc_rounds := 0\<rparr>
               in (case shift_proc_list (proc_list s) (mem s) of
                     Inl e \<Rightarrow> Some (Inl e)
                   | Inr list \<Rightarrow> next_proc_loop first_proc (s\<lparr>proc_list := list\<rparr>))
             else next_proc_loop first_proc s))"

text \<open>One round of \<open>scheduler\<close>, and \<open>yield\<close>: the arguments of the switch are where the old context pointer is kept and
  the new context.\<close>

datatype switch_slot = KContext | ThreadContext u64

definition scheduler_round ::
  "(switch_slot \<Rightarrow> u64 \<Rightarrow> 'a sched_state_scheme \<Rightarrow> 'a sched_state_scheme) \<Rightarrow> 'a sched_state_scheme \<Rightarrow> 'a sched_state_scheme result option" where
  "scheduler_round switch_context s =
     Option.bind (get_next_thread s) (\<lambda>r. Some (bind_result r (\<lambda>(next_thread, s).
       let s = s\<lparr>running_thread := next_thread\<rparr>
       in Inr (switch_context KContext (fld (mem s) next_thread T_CONTEXT) s))))"

definition yield :: "(switch_slot \<Rightarrow> u64 \<Rightarrow> 'a sched_state_scheme \<Rightarrow> 'a sched_state_scheme) \<Rightarrow> 'a sched_state_scheme \<Rightarrow> 'a sched_state_scheme" where
  "yield switch_context s = switch_context (ThreadContext (running_thread s)) (kcontext_ptr s) s"

section \<open>Invariant\<close>

text \<open>
  The process list with every process's thread list: the node, the process, the nodes and threads of
  its list. All nodes and processes are different pages.
\<close>

type_synonym proc_view = "u64 \<times> u64 \<times> (u64 \<times> u64) list"

definition proc_entry :: "proc_view \<Rightarrow> u64 \<times> u64" where
  "proc_entry v = (fst v, fst (snd v))"

definition proc_threads :: "proc_view \<Rightarrow> u64 list" where
  "proc_threads v = map snd (snd (snd v))"

definition proc_pages :: "proc_view \<Rightarrow> u64 list" where
  "proc_pages v = fst v # fst (snd v) # map fst (snd (snd v))"

definition proc_ok :: "memory \<Rightarrow> proc_view \<Rightarrow> bool" where
  "proc_ok m v = (case v of (n, p, ts) \<Rightarrow>
     page_aligned p \<and> ts \<noteq> [] \<and> node_list m (fld m p P_THREADS) ts \<and> distinct (map snd ts) \<and> (\<forall>t \<in> set (map snd ts). page_aligned t))"

definition sched_ok :: "'a sched_state_scheme \<Rightarrow> proc_view list \<Rightarrow> bool" where
  "sched_ok s vs \<longleftrightarrow> vs \<noteq> [] \<and> node_list (mem s) (proc_list s) (map proc_entry vs) \<and>
     (\<forall>v \<in> set vs. proc_ok (mem s) v) \<and> distinct (concat (map proc_pages vs))"

definition runnable :: "memory \<Rightarrow> u64 \<Rightarrow> bool" where
  "runnable m t \<longleftrightarrow> thread_state m t = state_code RUNNABLE"

text \<open>What a search leaves alone: the processes, their nodes and the set of their threads.\<close>

definition view_set :: "proc_view list \<Rightarrow> (u64 \<times> u64 \<times> (u64 \<times> u64) set) set" where
  "view_set vs = (\<lambda>(n, p, ts). (n, p, set ts)) ` set vs"

text \<open>One process with one runnable thread.\<close>

definition demo_sched :: "sched_state" where
  "demo_sched =
     (let m = (\<lambda>_. 0);
          m = set_fld m 0x200000 N_DATA 0x201000;
          m = set_fld m 0x200000 N_NEXT 0x200000;
          m = set_fld m 0x200000 N_PREV 0x200000;
          m = set_fld m 0x201000 P_THREADS 0x202000;
          m = set_fld m 0x202000 N_DATA 0x203000;
          m = set_fld m 0x202000 N_NEXT 0x202000;
          m = set_fld m 0x202000 N_PREV 0x202000;
          m = set_fld32 m 0x203000 T_STATE (state_code RUNNABLE)
      in \<lparr>mem = m, freelist = 0, proc_list = 0x200000, current_pid = 1, current_proc_rounds = 0, running_thread = 0, kcontext_ptr = 0\<rparr>)"

section \<open>Process lists\<close>

lemma proc_list_ops: "push_proc_list = push_thread_list"
  by (intro ext) (simp add: push_proc_list_def push_thread_list_def)

interpretation proc_queue: node_queue push_proc_list shift_proc_list peek_proc_list
proof (unfold_locales, goal_cases)
  case (1 kend s p ps list ns d) then show ?case unfolding proc_list_ops by (rule push_thread_list_law)
next
  case (2 m list ns)
  then show ?case using shift_thread_list_law [OF 2] node_list_hd(2) [OF 2] by (simp add: shift_proc_list_def shift_thread_list_def)
next
  case (3 m list ns)
  then show ?case using peek_thread_list_law [OF 3] node_list_hd(2) [OF 3] by (simp add: peek_proc_list_def peek_thread_list_def)
qed (simp_all add: node_list_def shift_proc_list_def peek_proc_list_def)

section \<open>The inner loop\<close>

lemma set_fld_twice: "set_fld (set_fld m p i a) p i b = set_fld m p i b"
  by (rule ext) (simp add: set_fld_def store64_apply)

lemma set_fld_same: "set_fld m p i (fld m p i) = m"
proof
  fix x
  show "set_fld m p i (fld m p i) x = m x"
  proof (cases "unat (x - (p + 8 * of_nat i)) < 8")
    case True
    define k where "k = unat (x - (p + 8 * of_nat i))"
    have x: "x = p + 8 * of_nat i + of_nat k" by (simp add: k_def)
    have k: "k < 8" using True by (simp add: k_def)
    have "ucast (drop_bit (8 * k) (load64 m (p + 8 * of_nat i))) = m x"
    proof (rule bit_word_eqI)
      fix j assume "j < LENGTH(8)"
      then have "j < 8" "(8 * k + j) div 8 = k" "(8 * k + j) mod 8 = j" by simp_all
      then show "bit (ucast (drop_bit (8 * k) (load64 m (p + 8 * of_nat i))) :: u8) j = bit (m x) j"
        using k by (simp add: load64_def bit_load_le bit_simps x)
    qed
    then show ?thesis using True by (simp add: set_fld_def fld_def store64_apply k_def)
  qed (simp add: set_fld_def store64_apply)
qed

lemma runnable_set_fld: "\<lbrakk>page_aligned p; page_aligned t; i < T_STATE\<rbrakk> \<Longrightarrow> runnable (set_fld m p i l) t = runnable m t"
  by (simp add: runnable_def thread_state_def fld32_set_fld)

lemma node_list_set_fld:
  assumes "node_list m list ns" "page_aligned p" "p \<notin> set (map fst ns)" "i < 512"
  shows "node_list (set_fld m p i v) list ns"
proof (rule node_list_frame [OF assms(1)])
  show "only_pages {p} m (set_fld m p i v)" using assms(2,4) by (intro only_pages_set_fld only_pages_refl) simp_all
qed (use assms(3) in auto)

text \<open>One round of the loop with the list at the node \<open>n\<close> of thread \<open>t\<close>.\<close>

lemma next_thread_loop_step:
  fixes s :: "'a sched_state_scheme"
  assumes "page_aligned p" "p \<notin> set (map fst ((n, t) # ns))" "page_aligned t"
    and "node_list (mem s) (fld (mem s) p P_THREADS) ((n, t) # ns)"
  shows "\<exists>l s1. s1 = s\<lparr>mem := set_fld (mem s) p P_THREADS l\<rparr> \<and> node_list (mem s) l (ns @ [(n, t)]) \<and>
     node_list (mem s1) (fld (mem s1) p P_THREADS) (ns @ [(n, t)]) \<and>
     next_thread_loop first p s =
       (if runnable (mem s) t then Some (Inr (Some t, s1))
        else if snd (hd (ns @ [(n, t)])) \<noteq> first then next_thread_loop first p s1 else Some (Inr (None, s1)))"
proof -
  let ?l = "fld (mem s) p P_THREADS"
  have peek: "peek_thread_list ?l (mem s) = Inr t" using thread_queue.peek_law [OF assms(4)] by simp
  obtain l where l: "shift_thread_list ?l (mem s) = Inr l" "node_list (mem s) l (ns @ [(n, t)])"
    using thread_queue.shift_law [OF assms(4)] by auto
  define s1 where "s1 = s\<lparr>mem := set_fld (mem s) p P_THREADS l\<rparr>"
  have p: "p \<notin> set (map fst (ns @ [(n, t)]))" using assms(2) by auto
  have l1: "fld (mem s1) p P_THREADS = l" "node_list (mem s1) l (ns @ [(n, t)])"
    using node_list_set_fld [OF l(2) assms(1) p] assms(1) by (simp_all add: s1_def fld_set_fld)
  have peek1: "peek_thread_list l (mem s1) = Inr (snd (hd (ns @ [(n, t)])))" using thread_queue.peek_law [OF l1(2)] by simp
  have "runnable (mem s1) t = runnable (mem s) t" using runnable_set_fld [OF assms(1,3), of P_THREADS] by (simp add: s1_def)
  then have "next_thread_loop first p s =
       (if runnable (mem s) t then Some (Inr (Some t, s1))
        else if snd (hd (ns @ [(n, t)])) \<noteq> first then next_thread_loop first p s1 else Some (Inr (None, s1)))"
    by (subst next_thread_loop.simps)
      (simp only: peek l(1) sum.case Let_def s1_def [symmetric] l1(1) peek1 runnable_def)
  then show ?thesis using l(2) l1 s1_def by blast
qed

lemma next_thread_loop_spec:
  fixes s :: "'a sched_state_scheme"
  assumes "page_aligned p" "p \<notin> set (map fst (ds @ rs))" "distinct (map snd (ds @ rs))" "rs \<noteq> []"
    and "\<forall>t \<in> set (map snd (ds @ rs)). page_aligned t"
    and "node_list (mem s) (fld (mem s) p P_THREADS) (rs @ ds)" "first = snd (hd (ds @ rs))"
  shows "\<exists>l k. next_thread_loop first p s =
      Some (Inr (find (runnable (mem s)) (map snd rs), s\<lparr>mem := set_fld (mem s) p P_THREADS l\<rparr>)) \<and>
    node_list (mem s) l (rotate k (rs @ ds))"
  using assms
proof (induction rs arbitrary: ds s)
  case (Cons r rs)
  note prems = Cons.prems and IH = Cons.IH
  obtain n t where r: "r = (n, t)" by force
  have t: "page_aligned t" "p \<notin> set (map fst ((n, t) # rs @ ds))" using prems(2,5) r by auto
  obtain l s1 where s1: "s1 = s\<lparr>mem := set_fld (mem s) p P_THREADS l\<rparr>" and l: "node_list (mem s) l ((rs @ ds) @ [(n, t)])"
    and l1: "node_list (mem s1) (fld (mem s1) p P_THREADS) ((rs @ ds) @ [(n, t)])"
    and step: "next_thread_loop first p s = (if runnable (mem s) t then Some (Inr (Some t, s1))
        else if snd (hd ((rs @ ds) @ [(n, t)])) \<noteq> first then next_thread_loop first p s1 else Some (Inr (None, s1)))"
    using next_thread_loop_step [OF prems(1) t(2,1), of s first] prems(6) r by auto
  have rot: "(rs @ ds) @ [(n, t)] = rotate 1 ((r # rs) @ ds)" by (simp add: r)
  consider (found) "runnable (mem s) t" | (last) "\<not> runnable (mem s) t" "rs = []"
    | (more) r' rs' where "\<not> runnable (mem s) t" "rs = r' # rs'" by (cases rs) auto
  then show ?case
  proof cases
    case found
    then show ?thesis using step s1 l r unfolding rot by (intro exI [of _ l] exI [of _ 1]) simp
  next
    case last
    then have "snd (hd ((rs @ ds) @ [(n, t)])) = first" using prems(7) r by simp
    then show ?thesis using last step s1 l r unfolding rot by (intro exI [of _ l] exI [of _ 1]) simp
  next
    case more
    have "snd r' \<noteq> first" using prems(3,7) r more(2) by (cases ds) auto
    then have eq: "next_thread_loop first p s = next_thread_loop first p s1" using step more by simp
    have "\<exists>l' k. next_thread_loop first p s1 =
        Some (Inr (find (runnable (mem s1)) (map snd rs), s1\<lparr>mem := set_fld (mem s1) p P_THREADS l'\<rparr>)) \<and>
      node_list (mem s1) l' (rotate k (rs @ ds @ [r]))"
      using prems l1 r more(2) by (intro IH) (auto simp: hd_append)
    then obtain l' k where l': "next_thread_loop first p s1 =
        Some (Inr (find (runnable (mem s1)) (map snd rs), s1\<lparr>mem := set_fld (mem s1) p P_THREADS l'\<rparr>))"
      "node_list (mem s1) l' (rotate k (rs @ ds @ [r]))" by blast
    have "find (runnable (mem s1)) (map snd rs) = find (runnable (mem s)) (map snd rs)"
      using prems(1,5) by (intro find_cong refl) (auto simp: s1 runnable_set_fld)
    moreover have "set_fld (mem s1) p P_THREADS (fld (mem s) p P_THREADS) = mem s" by (simp add: s1 set_fld_twice set_fld_same)
    moreover have "p \<notin> set (map fst (rotate k (rs @ ds @ [r])))" using prems(2) by auto
    ultimately have "node_list (mem s) l' (rotate k (rs @ ds @ [r]))" "find (runnable (mem s1)) (map snd rs) = find (runnable (mem s)) (map snd rs)"
      using node_list_set_fld [OF l'(2) prems(1), of P_THREADS "fld (mem s) p P_THREADS"] by simp_all
    moreover have "rotate k (rs @ ds @ [r]) = rotate (Suc k) ((r # rs) @ ds)" by (simp add: rotate1_rotate_swap)
    ultimately show ?thesis using eq l'(1) more(1) r by (intro exI [of _ l'] exI [of _ "Suc k"]) (simp add: s1 set_fld_twice)
  qed
qed simp

section \<open>The outer loop\<close>

lemma sched_ok_hd:
  assumes "sched_ok s ((n, p, ts) # vs)"
  shows "page_aligned p" "ts \<noteq> []" "node_list (mem s) (fld (mem s) p P_THREADS) ts" "distinct (map snd ts)"
    "\<forall>t \<in> set (map snd ts). page_aligned t" "p \<notin> set (map fst ts)" "peek_proc_list (proc_list s) (mem s) = Inr p"
proof -
  have ok: "proc_ok (mem s) (n, p, ts)" and nl: "node_list (mem s) (proc_list s) (map proc_entry ((n, p, ts) # vs))"
    and d: "distinct (concat (map proc_pages ((n, p, ts) # vs)))" using assms by (simp_all add: sched_ok_def)
  show "page_aligned p" "ts \<noteq> []" "node_list (mem s) (fld (mem s) p P_THREADS) ts" "distinct (map snd ts)"
    "\<forall>t \<in> set (map snd ts). page_aligned t" using ok by (simp_all add: proc_ok_def)
  show "p \<notin> set (map fst ts)" using d by (auto simp: proc_pages_def)
  show "peek_proc_list (proc_list s) (mem s) = Inr p" using proc_queue.peek_law [OF nl] by (simp add: proc_entry_def)
qed

lemma sched_ok_update:
  assumes "sched_ok s ((n, p, ts) # vs)" "node_list (mem s) l (rotate k ts)"
  shows "sched_ok (s\<lparr>mem := set_fld (mem s) p P_THREADS l\<rparr>) ((n, p, rotate k ts) # vs)"
proof -
  let ?m = "set_fld (mem s) p P_THREADS l"
  note hd = sched_ok_hd [OF assms(1)]
  have d: "distinct (concat (map proc_pages ((n, p, ts) # vs)))" using assms(1) by (simp add: sched_ok_def)
  have only: "only_pages {p} (mem s) ?m" using hd(1) by (intro only_pages_set_fld only_pages_refl) simp_all
  have "p \<notin> set (map fst (map proc_entry ((n, p, ts) # vs)))" using d by (auto simp: proc_pages_def proc_entry_def)
  then have list: "node_list ?m (proc_list s) (map proc_entry ((n, p, ts) # vs))"
    using assms(1) by (intro node_list_frame [OF _ only]) (auto simp: sched_ok_def)
  have this_ok: "proc_ok ?m (n, p, rotate k ts)"
    using hd node_list_set_fld [OF assms(2) hd(1), of P_THREADS l] by (simp add: proc_ok_def fld_set_fld rotate_map [symmetric])
  have "proc_ok ?m (n', p', ts')" if v: "(n', p', ts') \<in> set vs" for n' p' ts'
  proof -
    have ok: "proc_ok (mem s) (n', p', ts')" using assms(1) v by (auto simp: sched_ok_def)
    have "set (proc_pages (n', p', ts')) \<subseteq> set (concat (map proc_pages vs))" using v by auto
    moreover have "p \<notin> set (concat (map proc_pages vs))" using d by (auto simp: proc_pages_def)
    ultimately have "p \<notin> set (proc_pages (n', p', ts'))" by blast
    then have ne: "p' \<noteq> p" "p \<notin> set (map fst ts')" by (auto simp: proc_pages_def)
    then have "fld ?m p' P_THREADS = fld (mem s) p' P_THREADS" using hd(1) ok by (simp add: proc_ok_def fld_set_fld)
    then show ?thesis using ok node_list_set_fld [OF _ hd(1) ne(2), of "mem s" _ P_THREADS l] by (simp add: proc_ok_def)
  qed
  then have "\<forall>v \<in> set vs. proc_ok ?m v" by auto
  moreover have "distinct (concat (map proc_pages ((n, p, rotate k ts) # vs)))"
    using d by (simp add: proc_pages_def rotate_map [symmetric])
  ultimately show ?thesis using list this_ok by (simp add: sched_ok_def proc_entry_def)
qed

lemma sched_ok_shift:
  assumes "sched_ok s (v # vs)"
  shows "\<exists>l. shift_proc_list (proc_list s) (mem s) = Inr l \<and> sched_ok (s\<lparr>current_proc_rounds := r, proc_list := l\<rparr>) (vs @ [v])"
proof -
  have nl: "node_list (mem s) (proc_list s) (map proc_entry (v # vs))" using assms by (simp add: sched_ok_def)
  obtain l where "shift_proc_list (proc_list s) (mem s) = Inr l" "node_list (mem s) l (map proc_entry (vs @ [v]))"
    using proc_queue.shift_law [OF nl] by auto
  then show ?thesis using assms by (auto simp: sched_ok_def)
qed

lemma next_proc_loop_step:
  fixes s :: "'a sched_state_scheme"
  assumes "sched_ok s ((n, p, ts) # vs)"
  shows "\<exists>s1 s2 k. sched_ok s1 ((n, p, rotate k ts) # vs) \<and> sched_ok s2 (vs @ [(n, p, rotate k ts)]) \<and>
     current_proc_rounds s1 = current_proc_rounds s \<and> current_proc_rounds s2 = 0 \<and>
     (\<forall>t. page_aligned t \<longrightarrow> runnable (mem s2) t = runnable (mem s) t) \<and>
     next_proc_loop first s =
       (case find (runnable (mem s)) (map snd ts) of Some t \<Rightarrow> Some (Inr (t, s1))
        | None \<Rightarrow> if fst (snd (hd (vs @ [(n, p, ts)]))) \<noteq> first then next_proc_loop first s2
                  else Some (Inl (Panic (''shcedule: no available threads'' @ [CHR 0x0A]))))"
proof -
  note hd = sched_ok_hd [OF assms]
  let ?l = "fld (mem s) p P_THREADS"
  have peek: "?l \<noteq> 0" "peek_thread_list ?l (mem s) = Inr (snd (List.hd ts))"
    using node_list_hd(2) [OF hd(3,2)] thread_queue.peek_law [OF hd(3,2)] by simp_all
  obtain l k where l: "next_thread_loop (snd (List.hd ts)) p s =
      Some (Inr (find (runnable (mem s)) (map snd ts), s\<lparr>mem := set_fld (mem s) p P_THREADS l\<rparr>))" "node_list (mem s) l (rotate k ts)"
    using next_thread_loop_spec [of p "[]" ts s] hd by auto
  define s1 where "s1 = s\<lparr>mem := set_fld (mem s) p P_THREADS l\<rparr>"
  have ok1: "sched_ok s1 ((n, p, rotate k ts) # vs)" unfolding s1_def by (rule sched_ok_update [OF assms l(2)])
  obtain l2 where l2: "shift_proc_list (proc_list s1) (mem s1) = Inr l2"
    "sched_ok (s1\<lparr>current_proc_rounds := 0, proc_list := l2\<rparr>) (vs @ [(n, p, rotate k ts)])"
    using sched_ok_shift [OF ok1] by blast
  define s2 where "s2 = s1\<lparr>current_proc_rounds := 0, proc_list := l2\<rparr>"
  have peek2: "peek_proc_list (proc_list s2) (mem s2) = Inr (fst (snd (List.hd (vs @ [(n, p, ts)]))))"
  proof (cases vs)
    case Nil
    then show ?thesis using sched_ok_hd(7) [of s2 n p "rotate k ts" "[]"] l2(2) by (simp add: s2_def)
  next
    case (Cons v vs')
    then show ?thesis using sched_ok_hd(7) [of s2 "fst v" "fst (snd v)" "snd (snd v)"] l2(2) by (simp add: s2_def)
  qed
  have "next_proc_loop first s =
       (case find (runnable (mem s)) (map snd ts) of Some t \<Rightarrow> Some (Inr (t, s1))
        | None \<Rightarrow> if fst (snd (List.hd (vs @ [(n, p, ts)]))) \<noteq> first then next_proc_loop first s2
                  else Some (Inl (Panic (''shcedule: no available threads'' @ [CHR 0x0A]))))"
    using l2(1) peek2 unfolding s2_def
    by (subst next_proc_loop.simps) (simp add: hd(7) peek [simplified] l(1) [folded s1_def, simplified] split: option.split)
  then show ?thesis using ok1 l2(2) hd(1) by (intro exI [of _ s1] exI [of _ s2] exI [of _ k]) (simp add: s2_def s1_def runnable_set_fld)
qed

lemma find_append: "find P (xs @ ys) = (case find P xs of None \<Rightarrow> find P ys | Some x \<Rightarrow> Some x)"
  by (induction xs) simp_all

lemma view_set_simps: "view_set (v # vs) = insert (fst v, fst (snd v), set (snd (snd v))) (view_set vs)" "view_set [] = {}"
  "view_set (vs @ ws) = view_set vs \<union> view_set ws"
  by (simp_all add: view_set_def image_Un case_prod_beta)

lemma next_proc_loop_spec:
  fixes s :: "'a sched_state_scheme"
  assumes "sched_ok s (rs @ ds)" "rs \<noteq> []" "first = fst (snd (hd (ds @ rs)))"
  shows "case find (runnable (mem s)) (concat (map proc_threads rs)) of
     None \<Rightarrow> next_proc_loop first s = Some (Inl (Panic (''shcedule: no available threads'' @ [CHR 0x0A])))
   | Some t \<Rightarrow> \<exists>s' vs. next_proc_loop first s = Some (Inr (t, s')) \<and> sched_ok s' vs \<and> view_set vs = view_set (rs @ ds) \<and>
       current_proc_rounds s' \<le> current_proc_rounds s"
  using assms
proof (induction rs arbitrary: ds s)
  case (Cons r rs)
  note prems = Cons.prems and IH = Cons.IH
  obtain n p ts where r: "r = (n, p, ts)" by (cases r) auto
  obtain s1 s2 k where s1: "sched_ok s1 ((n, p, rotate k ts) # rs @ ds)" "current_proc_rounds s1 = current_proc_rounds s"
    and s2: "sched_ok s2 ((rs @ ds) @ [(n, p, rotate k ts)])" "current_proc_rounds s2 = 0" "\<And>t. page_aligned t \<Longrightarrow> runnable (mem s2) t = runnable (mem s) t"
    and step: "next_proc_loop first s = (case find (runnable (mem s)) (map snd ts) of Some t \<Rightarrow> Some (Inr (t, s1))
        | None \<Rightarrow> if fst (snd (hd ((rs @ ds) @ [(n, p, ts)]))) \<noteq> first then next_proc_loop first s2
                  else Some (Inl (Panic (''shcedule: no available threads'' @ [CHR 0x0A]))))"
    using next_proc_loop_step [of s n p ts "rs @ ds" first] prems(1) r by auto
  have find: "find (runnable (mem s)) (concat (map proc_threads (r # rs))) =
      (case find (runnable (mem s)) (map snd ts) of None \<Rightarrow> find (runnable (mem s)) (concat (map proc_threads rs)) | Some t \<Rightarrow> Some t)"
    by (simp add: find_append proc_threads_def r)
  consider (found) t where "find (runnable (mem s)) (map snd ts) = Some t" | (last) "find (runnable (mem s)) (map snd ts) = None" "rs = []"
    | (more) "find (runnable (mem s)) (map snd ts) = None" "rs \<noteq> []" by fastforce
  then show ?case
  proof cases
    case found
    then show ?thesis using find step s1 r by (auto simp: view_set_simps intro!: exI [of _ s1] exI [of _ "(n, p, rotate k ts) # rs @ ds"])
  next
    case last
    then have "fst (snd (hd ((rs @ ds) @ [(n, p, ts)]))) = first" using prems(3) r by (cases ds) auto
    then show ?thesis using find last step by simp
  next
    case more
    have d: "distinct (concat (map proc_pages ((r # rs) @ ds)))" using prems(1) by (simp add: sched_ok_def)
    have "fst (snd (hd rs)) \<noteq> first" using d prems(3) more(2) r by (cases ds; cases rs) (auto simp: proc_pages_def)
    then have eq: "next_proc_loop first s = next_proc_loop first s2" using step more by simp
    have "find (runnable (mem s2)) (concat (map proc_threads rs)) = find (runnable (mem s)) (concat (map proc_threads rs))"
    proof (intro find_cong refl s2(3))
      fix t assume "t \<in> set (concat (map proc_threads rs))"
      then obtain v where v: "v \<in> set rs" "t \<in> set (map snd (snd (snd v)))" by (auto simp: proc_threads_def)
      have "proc_ok (mem s) v" using prems(1) v(1) by (simp add: sched_ok_def)
      then show "page_aligned t" using v(2) by (auto simp: proc_ok_def case_prod_beta)
    qed
    moreover have "first = fst (snd (hd ((ds @ [(n, p, rotate k ts)]) @ rs)))" using prems(3) r by (cases ds) simp_all
    moreover have "view_set (rs @ ds @ [(n, p, rotate k ts)]) = view_set ((r # rs) @ ds)" by (auto simp: view_set_simps r)
    ultimately show ?thesis using IH [of s2 "ds @ [(n, p, rotate k ts)]"] s2(1,2) more find eq by (auto split: option.splits)
  qed
qed simp

section \<open>Properties\<close>

text \<open>
  C32. \<open>get_next_thread\<close> always returns: over a process list whose processes all have threads, it picks the
  first runnable thread in the order of the process list and of each process's thread list, and panics
  exactly when no thread is runnable. The lists keep their processes and threads.
\<close>

theorem get_next_thread_picks:
  fixes s :: "'a sched_state_scheme"
  assumes "sched_ok s vs" "current_proc_rounds s < ROUNDS_PER_PROC"
  shows "case find (runnable (mem s)) (concat (map proc_threads vs)) of
     None \<Rightarrow> get_next_thread s = Some (Inl (Panic (''shcedule: no available threads'' @ [CHR 0x0A])))
   | Some t \<Rightarrow> \<exists>s' vs'. get_next_thread s = Some (Inr (t, s')) \<and> sched_ok s' vs' \<and> view_set vs' = view_set vs \<and>
       current_proc_rounds s' < ROUNDS_PER_PROC"
proof -
  obtain n p ts vs' where vs: "vs = (n, p, ts) # vs'" using assms(1) by (cases vs) (auto simp: sched_ok_def)
  have "\<not> ROUNDS_PER_PROC \<le> current_proc_rounds s" using assms(2) by (simp only: not_le)
  moreover have "proc_list s \<noteq> 0" using node_list_hd(2) assms(1) by (fastforce simp: sched_ok_def)
  ultimately have "get_next_thread s = next_proc_loop p s"
    using sched_ok_hd(7) [OF assms(1) [unfolded vs]] by (simp add: get_next_thread_def)
  moreover have "current_proc_rounds s' \<le> current_proc_rounds s \<Longrightarrow> current_proc_rounds s' < ROUNDS_PER_PROC" for s' :: "'a sched_state_scheme"
    using assms(2) by (blast intro: le_less_trans)
  ultimately show ?thesis using next_proc_loop_spec [of s vs "[]" p] assms(1) vs by (force split: option.splits)
qed

lemma demo_sched_ok: "sched_ok demo_sched [(0x200000, 0x201000, [(0x202000, 0x203000)])]" "runnable (mem demo_sched) 0x203000"
  by (simp_all add: demo_sched_def sched_ok_def proc_ok_def proc_entry_def proc_pages_def node_list_def ring_single
      fld_set_fld fld_set_fld32 fld32_set_fld32 page_aligned_def runnable_def thread_state_def)

theorem get_next_thread_picks_witness:
  "\<exists>s' vs'. get_next_thread demo_sched = Some (Inr (0x203000, s')) \<and> sched_ok s' vs' \<and>
     view_set vs' = view_set [(0x200000, 0x201000, [(0x202000, 0x203000)])] \<and> current_proc_rounds s' < ROUNDS_PER_PROC"
proof -
  have "current_proc_rounds demo_sched < ROUNDS_PER_PROC" by (simp add: demo_sched_def)
  from get_next_thread_picks [OF demo_sched_ok(1) this] show ?thesis
    using demo_sched_ok(2) by (simp add: proc_threads_def)
qed

end
