(* ===== verification/SmpSched.thy ===== *)
theory SmpSched
  imports Sync Proc
begin

text \<open>
  The scheduler for several processors (\<^verbatim>\<open>kernel/sched/smp_sched.c\<close>): a circular run queue per processor,
  the operations that add, remove, pick and migrate threads, and their log lines. The queue pointer and the thread count
  are fields of the processor's record, the nodes are pages of the byte memory. The executing processor, the address of
  the static lock and the end of the kernel image are arguments; the context switch and the wait for an interrupt are
  parameters, and the endless loops are modelled by their rounds. A walk over a queue is a partial function
  (\<open>None\<close> if it never ends), and so is an operation that takes the lock.
\<close>

section \<open>Definitions\<close>

record smp_sched = percpu_state +
  sched_initialized :: bool
  sched_log :: "log_line list"

text \<open>Where \<open>switch_context\<close> keeps the context it leaves: the scheduler's pointer of a processor, or a thread's.\<close>

datatype ctx_slot = SchedulerCtx cpu_ref | ThreadCtx u64

definition LOAD_BALANCE_THRESHOLD :: u32 where
  [simp]: "LOAD_BALANCE_THRESHOLD = 2"

definition log_sched :: "string \<Rightarrow> vararg list \<Rightarrow> 'a smp_sched_scheme \<Rightarrow> 'a smp_sched_scheme" where
  "log_sched format args s = s\<lparr>sched_log := sched_log s @ [LOG_SERIAL ''SCHED'' format args]\<rparr>"

subsection \<open>Idle threads\<close>

definition idle_yield :: "(ctx_slot \<Rightarrow> u64 \<Rightarrow> 'a smp_sched_scheme \<Rightarrow> 'a smp_sched_scheme) \<Rightarrow> u32 \<Rightarrow> 'a smp_sched_scheme \<Rightarrow> 'a smp_sched_scheme" where
  "idle_yield switch_context me s =
     (let cpu = the_cpu (mycpu me s) s;
          idle = idle_thread cpu
      in switch_context (ThreadCtx idle) (scheduler_ctx cpu) s)"

text \<open>One round of the loop of \<open>idle_thread_func\<close>; \<open>hlt\<close> is what happens until the next interrupt has returned.\<close>

definition idle_thread_round ::
  "('a smp_sched_scheme \<Rightarrow> 'a smp_sched_scheme) \<Rightarrow> (ctx_slot \<Rightarrow> u64 \<Rightarrow> 'a smp_sched_scheme \<Rightarrow> 'a smp_sched_scheme) \<Rightarrow>
   u32 \<Rightarrow> 'a smp_sched_scheme \<Rightarrow> 'a smp_sched_scheme" where
  "idle_thread_round hlt switch_context me s = idle_yield switch_context me (hlt (set_if me True s))"

definition create_idle_thread :: "u64 \<Rightarrow> 'a kstate_scheme \<Rightarrow> u64 \<times> 'a kstate_scheme" where
  "create_idle_thread idle_thread_func s =
     (let (idle, s) = create_thread idle_thread_func 0 0 s
      in (idle, if idle \<noteq> 0 then s\<lparr>mem := set_fld32 (mem s) idle T_STATE (state_code RUNNABLE)\<rparr> else s))"

subsection \<open>Run queues\<close>

definition runqueue_add_unlocked :: "cpu_ref \<Rightarrow> u64 \<Rightarrow> 'a percpu_state_scheme \<Rightarrow> 'a percpu_state_scheme" where
  "runqueue_add_unlocked cpu thread s =
     (let (list, s) = push_thread_list (run_queue (the_cpu cpu s)) thread s;
          s = upd_cpu cpu (\<lambda>c. c\<lparr>run_queue := list\<rparr>) s
      in upd_cpu cpu (\<lambda>c. c\<lparr>num_threads := num_threads c + 1\<rparr>) s)"

definition runqueue_unlink :: "cpu_ref \<Rightarrow> u64 \<Rightarrow> 'a percpu_state_scheme \<Rightarrow> 'a percpu_state_scheme" where
  "runqueue_unlink cpu current s =
     (if fld (mem s) current N_NEXT = current then upd_cpu cpu (\<lambda>c. c\<lparr>run_queue := 0\<rparr>) s
      else
        let m = mem s;
            m = set_fld m (fld m current N_PREV) N_NEXT (fld m current N_NEXT);
            m = set_fld m (fld m current N_NEXT) N_PREV (fld m current N_PREV);
            s = s\<lparr>mem := m\<rparr>
        in if run_queue (the_cpu cpu s) = current then upd_cpu cpu (\<lambda>c. c\<lparr>run_queue := fld m current N_NEXT\<rparr>) s else s)"

partial_function (option) runqueue_remove_loop ::
  "u64 \<Rightarrow> cpu_ref \<Rightarrow> u64 \<Rightarrow> u64 \<Rightarrow> u64 \<Rightarrow> 'a percpu_state_scheme \<Rightarrow> (bool \<times> 'a percpu_state_scheme) result option" where
  "runqueue_remove_loop kend cpu thread start current s =
     (if fld (mem s) current N_DATA = thread then
        Some (bind_result (kfree kend current (runqueue_unlink cpu current s))
          (\<lambda>s. Inr (True, upd_cpu cpu (\<lambda>c. c\<lparr>num_threads := num_threads c - 1\<rparr>) s)))
      else
        let current = fld (mem s) current N_NEXT
        in if current \<noteq> start then runqueue_remove_loop kend cpu thread start current s else Some (Inr (False, s)))"

definition runqueue_remove_unlocked ::
  "u64 \<Rightarrow> cpu_ref \<Rightarrow> u64 \<Rightarrow> 'a percpu_state_scheme \<Rightarrow> (bool \<times> 'a percpu_state_scheme) result option" where
  "runqueue_remove_unlocked kend cpu thread s =
     (let start = run_queue (the_cpu cpu s)
      in if start = 0 then Some (Inr (False, s)) else runqueue_remove_loop kend cpu thread start start s)"

partial_function (option) runqueue_next_loop :: "cpu_ref \<Rightarrow> u64 \<Rightarrow> u64 \<Rightarrow> 'a percpu_state_scheme \<Rightarrow> (u64 \<times> 'a percpu_state_scheme) option" where
  "runqueue_next_loop cpu start current s =
     (let t = fld (mem s) current N_DATA
      in if thread_state (mem s) t = state_code RUNNABLE
         then Some (t, upd_cpu cpu (\<lambda>c. c\<lparr>run_queue := fld (mem s) current N_NEXT\<rparr>) s)
         else
           let current = fld (mem s) current N_NEXT
           in if current \<noteq> start then runqueue_next_loop cpu start current s else Some (0, s))"

definition runqueue_get_next :: "cpu_ref \<Rightarrow> 'a percpu_state_scheme \<Rightarrow> (u64 \<times> 'a percpu_state_scheme) option" where
  "runqueue_get_next cpu s =
     (let start = run_queue (the_cpu cpu s)
      in if start = 0 then Some (0, s) else runqueue_next_loop cpu start start s)"

subsection \<open>Initialisation\<close>

definition sched_init :: "u64 \<Rightarrow> u64 \<Rightarrow> 'a smp_sched_scheme \<Rightarrow> 'a smp_sched_scheme" where
  "sched_init sched_lock name s =
     (let s = s\<lparr>mem := init_spinlock sched_lock name (mem s)\<rparr>;
          s = s\<lparr>sched_initialized := True\<rparr>
      in log_sched ''SMP scheduler initialized'' [] s)"

definition sched_init_cpu :: "u64 \<Rightarrow> u32 \<Rightarrow> 'a smp_sched_scheme \<Rightarrow> 'a smp_sched_scheme result" where
  "sched_init_cpu idle_thread_func me s =
     (let cpu = mycpu me s;
          s = upd_cpu cpu (\<lambda>c. c\<lparr>run_queue := 0\<rparr>) s;
          s = upd_cpu cpu (\<lambda>c. c\<lparr>num_threads := 0\<rparr>) s;
          s = upd_cpu cpu (\<lambda>c. c\<lparr>scheduler_ready := False\<rparr>) s;
          (sched_stack, s) = kalloc s
      in if sched_stack = 0 then Inl (Panic ''sched_init_cpu: failed to allocate scheduler stack'')
         else
           let s = s\<lparr>mem := memset (mem s) sched_stack 0 PGSIZE\<rparr>;
               sched_stack = sched_stack + PGSIZE;
               sched_stack = sched_stack - CTX_SIZE;
               s = upd_cpu cpu (\<lambda>c. c\<lparr>scheduler_ctx := sched_stack\<rparr>) s;
               s = s\<lparr>mem := memset (mem s) (scheduler_ctx (the_cpu cpu s)) 0 CTX_SIZE\<rparr>;
               (idle, s) = create_idle_thread idle_thread_func s;
               s = upd_cpu cpu (\<lambda>c. c\<lparr>idle_thread := idle\<rparr>) s
           in if idle_thread (the_cpu cpu s) = 0 then Inl (Panic ''sched_init_cpu: failed to create idle thread'')
              else
                let s = upd_cpu cpu (\<lambda>c. c\<lparr>current_thread := 0\<rparr>) s
                in Inr (log_sched ''CPU %d scheduler initialized (idle=%p)''
                     [num_arg (cpu_index (the_cpu cpu s)), ANum (idle_thread (the_cpu cpu s))] s))"

subsection \<open>Loads\<close>

definition least_loaded_step :: "'a percpu_state_scheme \<Rightarrow> nat \<Rightarrow> u32 \<times> u32 \<Rightarrow> u32 \<times> u32" where
  "least_loaded_step s i = (\<lambda>(min_load, min_cpu).
     if started (percpus s ! i) \<and> num_threads (percpus s ! i) < min_load
     then (num_threads (percpus s ! i), of_nat i) else (min_load, min_cpu))"

definition sched_find_least_loaded :: "'a percpu_state_scheme \<Rightarrow> u32" where
  "sched_find_least_loaded s = snd (fold (least_loaded_step s) [0..<unat (ncpu s)] (-1, 0))"

subsection \<open>Threads\<close>

definition sched_add_thread :: "u64 \<Rightarrow> u32 \<Rightarrow> u64 \<Rightarrow> int \<Rightarrow> 'a smp_sched_scheme \<Rightarrow> 'a smp_sched_scheme result option" where
  "sched_add_thread sched_lock me thread cpu_idx s =
     (if thread = 0 then Some (Inl (Panic ''sched_add_thread: null thread''))
      else Option.bind (acquire_spinlock me sched_lock s) (\<lambda>s.
        if cpu_idx \<ge> 0 \<and> word_of_int cpu_idx \<ge> ncpu s then
          Some (bind_result (release_spinlock me sched_lock s) (\<lambda>s. Inl (Panic ''sched_add_thread: invalid cpu_index'')))
        else
          let target_cpu = Cpu (if cpu_idx < 0 then unat (sched_find_least_loaded s) else nat cpu_idx);
              s = s\<lparr>mem := set_fld32 (mem s) thread T_STATE (state_code RUNNABLE)\<rparr>;
              s = runqueue_add_unlocked target_cpu thread s;
              s = log_sched ''Added thread %p to CPU %d (now has %d threads)''
                    [ANum thread, num_arg (cpu_index (the_cpu target_cpu s)), num_arg (num_threads (the_cpu target_cpu s))] s
          in Some (release_spinlock me sched_lock s)))"

primrec remove_from_cpus ::
  "u64 \<Rightarrow> u64 \<Rightarrow> nat list \<Rightarrow> 'a smp_sched_scheme \<Rightarrow> 'a smp_sched_scheme result option" where
  "remove_from_cpus kend thread [] s = Some (Inr s)"
| "remove_from_cpus kend thread (i # is) s =
     Option.bind (runqueue_remove_unlocked kend (Cpu i) thread s) (\<lambda>r. case r of
       Inl e \<Rightarrow> Some (Inl e)
     | Inr (found, s) \<Rightarrow>
         if found then Some (Inr (log_sched ''Removed thread %p from CPU %d'' [ANum thread, num_arg (of_nat i)] s))
         else remove_from_cpus kend thread is s)"

definition sched_remove_thread :: "u64 \<Rightarrow> u64 \<Rightarrow> u32 \<Rightarrow> u64 \<Rightarrow> 'a smp_sched_scheme \<Rightarrow> 'a smp_sched_scheme result option" where
  "sched_remove_thread kend sched_lock me thread s =
     (if thread = 0 then Some (Inr s)
      else Option.bind (acquire_spinlock me sched_lock s) (\<lambda>s.
        Option.bind (remove_from_cpus kend thread [0..<unat (ncpu s)] s) (\<lambda>r.
          Some (bind_result r (release_spinlock me sched_lock)))))"

definition sched_get_next :: "u32 \<Rightarrow> 'a percpu_state_scheme \<Rightarrow> (u64 \<times> 'a percpu_state_scheme) option" where
  "sched_get_next me s =
     (let cpu = mycpu me s
      in map_option (\<lambda>(next, s). (if next \<noteq> 0 then next else idle_thread (the_cpu cpu s), s)) (runqueue_get_next cpu s))"

subsection \<open>Context switches\<close>

definition sched_yield :: "(ctx_slot \<Rightarrow> u64 \<Rightarrow> 'a smp_sched_scheme \<Rightarrow> 'a smp_sched_scheme) \<Rightarrow> u32 \<Rightarrow> 'a smp_sched_scheme \<Rightarrow> 'a smp_sched_scheme" where
  "sched_yield switch_context me s =
     (let cpu = mycpu me s;
          current = current_thread (the_cpu cpu s)
      in if current = 0 \<or> current = idle_thread (the_cpu cpu s) then s
         else
           let s = s\<lparr>mem := set_fld32 (mem s) current T_STATE (state_code RUNNABLE)\<rparr>
           in switch_context (ThreadCtx current) (scheduler_ctx (the_cpu cpu s)) s)"

text \<open>\<open>sched_exit\<close> up to its context switch: the state in which it switches, or the state in which it returns.\<close>

definition sched_exit_to ::
  "u64 \<Rightarrow> u32 \<Rightarrow> 'a smp_sched_scheme \<Rightarrow> ((ctx_slot \<times> u64) option \<times> 'a smp_sched_scheme) result option" where
  "sched_exit_to kend me s =
     (let cpu = mycpu me s;
          current = current_thread (the_cpu cpu s)
      in if current = 0 \<or> current = idle_thread (the_cpu cpu s) then Some (Inr (None, s))
         else
           let s = s\<lparr>mem := set_fld32 (mem s) current T_STATE (state_code EXIT)\<rparr>
           in Option.bind (runqueue_remove_unlocked kend cpu current s) (\<lambda>r. Some (bind_result r (\<lambda>(_, s).
                let s = upd_cpu cpu (\<lambda>c. c\<lparr>current_thread := 0\<rparr>) s;
                    s = log_sched ''Thread %p exited on CPU %d'' [ANum current, num_arg (cpu_index (the_cpu cpu s))] s
                in Inr (Some (ThreadCtx current, scheduler_ctx (the_cpu cpu s)), s)))))"

definition sched_exit ::
  "(ctx_slot \<Rightarrow> u64 \<Rightarrow> 'a smp_sched_scheme \<Rightarrow> 'a smp_sched_scheme) \<Rightarrow> u64 \<Rightarrow> u32 \<Rightarrow> 'a smp_sched_scheme \<Rightarrow> 'a smp_sched_scheme result option" where
  "sched_exit switch_context kend me s =
     Option.bind (sched_exit_to kend me s) (\<lambda>r. Some (bind_result r (\<lambda>(sw, s). case sw of
       None \<Rightarrow> Inr s
     | Some (slot, ctx) \<Rightarrow> let s = switch_context slot ctx s in Inl (Panic ''sched_exit returned''))))"

text \<open>The entry of \<open>sched_run\<close> and one round of its endless loop, up to the context switch.\<close>

definition sched_run_enter :: "u32 \<Rightarrow> 'a smp_sched_scheme \<Rightarrow> cpu_ref \<times> 'a smp_sched_scheme" where
  "sched_run_enter me s =
     (let cpu = mycpu me s;
          s = upd_cpu cpu (\<lambda>c. c\<lparr>scheduler_ready := True\<rparr>) s
      in (cpu, log_sched ''CPU %d entering scheduler loop'' [num_arg (cpu_index (the_cpu cpu s))] s))"

definition sched_run_pick :: "u32 \<Rightarrow> cpu_ref \<Rightarrow> 'a percpu_state_scheme \<Rightarrow> (u64 \<times> 'a percpu_state_scheme) option" where
  "sched_run_pick me cpu s =
     map_option (\<lambda>(next, s).
         (next,
          if next \<noteq> 0 then
            let s = upd_cpu cpu (\<lambda>c. c\<lparr>current_thread := next\<rparr>) s
            in s\<lparr>mem := set_fld32 (mem s) next T_STATE (state_code ON_CPU)\<rparr>
          else s))
       (sched_get_next me (set_if me True s))"

definition sched_run_round ::
  "(ctx_slot \<Rightarrow> u64 \<Rightarrow> 'a smp_sched_scheme \<Rightarrow> 'a smp_sched_scheme) \<Rightarrow> u32 \<Rightarrow> cpu_ref \<Rightarrow> 'a smp_sched_scheme \<Rightarrow> 'a smp_sched_scheme option" where
  "sched_run_round switch_context me cpu s =
     map_option (\<lambda>(next, s). if next \<noteq> 0 then switch_context (SchedulerCtx cpu) (fld (mem s) next T_CONTEXT) s else s)
       (sched_run_pick me cpu s)"

definition sched_tick :: "u32 \<Rightarrow> 'a percpu_state_scheme \<Rightarrow> 'a percpu_state_scheme" where
  "sched_tick me s = (let cpu = mycpu me s in if \<not> scheduler_ready (the_cpu cpu s) then s else s)"

subsection \<open>Load balancing\<close>

text \<open>The scan of the loads: \<open>max_load\<close>, \<open>max_cpu\<close>, \<open>min_load\<close>, \<open>min_cpu\<close>.\<close>

definition balance_step :: "'a percpu_state_scheme \<Rightarrow> nat \<Rightarrow> u32 \<times> u32 \<times> u32 \<times> u32 \<Rightarrow> u32 \<times> u32 \<times> u32 \<times> u32" where
  "balance_step s i = (\<lambda>(max_load, max_cpu, min_load, min_cpu).
     if \<not> started (percpus s ! i) then (max_load, max_cpu, min_load, min_cpu)
     else
       let load = num_threads (percpus s ! i);
           (max_load, max_cpu) = (if load > max_load then (load, of_nat i) else (max_load, max_cpu));
           (min_load, min_cpu) = (if load < min_load then (load, of_nat i) else (min_load, min_cpu))
       in (max_load, max_cpu, min_load, min_cpu))"

partial_function (option) migrate_loop ::
  "u64 \<Rightarrow> u32 \<Rightarrow> u32 \<Rightarrow> u64 \<Rightarrow> u64 \<Rightarrow> 'a smp_sched_scheme \<Rightarrow> 'a smp_sched_scheme result option" where
  "migrate_loop kend max_cpu min_cpu start current s =
     (let src = Cpu (unat max_cpu);
          dst = Cpu (unat min_cpu);
          t = fld (mem s) current N_DATA
      in if t \<noteq> current_thread (the_cpu src s) \<and> t \<noteq> idle_thread (the_cpu src s) \<and>
            thread_state (mem s) t = state_code RUNNABLE then
           Option.bind (runqueue_remove_unlocked kend src t s) (\<lambda>r. Some (bind_result r (\<lambda>(_, s).
             let s = runqueue_add_unlocked dst t s
             in Inr (log_sched ''Migrated thread %p from CPU %d to CPU %d'' [ANum t, num_arg max_cpu, num_arg min_cpu] s))))
         else
           let current = fld (mem s) current N_NEXT
           in if current \<noteq> start then migrate_loop kend max_cpu min_cpu start current s else Some (Inr s))"

definition sched_balance :: "u64 \<Rightarrow> u64 \<Rightarrow> u32 \<Rightarrow> 'a smp_sched_scheme \<Rightarrow> 'a smp_sched_scheme result option" where
  "sched_balance kend sched_lock me s =
     (let (max_load, max_cpu, min_load, min_cpu) = fold (balance_step s) [0..<unat (ncpu s)] (0, 0, -1, 0)
      in if max_load - min_load < LOAD_BALANCE_THRESHOLD then Some (Inr s)
         else Option.bind (acquire_spinlock me sched_lock s) (\<lambda>s.
           let src = the_cpu (Cpu (unat max_cpu)) s
           in Option.bind
             (if run_queue src \<noteq> 0 \<and> num_threads src > 1
              then migrate_loop kend max_cpu min_cpu (run_queue src) (run_queue src) s
              else Some (Inr s))
             (\<lambda>r. Some (bind_result r (release_spinlock me sched_lock)))))"

definition sched_log_state :: "'a smp_sched_scheme \<Rightarrow> 'a smp_sched_scheme" where
  "sched_log_state s =
     (let s = log_sched ''=== Scheduler State ==='' [] s;
          s = fold (\<lambda>i s. let cpu = percpus s ! i
                in if \<not> started cpu then s
                   else log_sched ''CPU %d: %d threads, current=%p, ready=%d''
                     [num_arg (of_nat i), num_arg (num_threads cpu), ANum (current_thread cpu), ANum (if scheduler_ready cpu then 1 else 0)] s)
            [0..<unat (ncpu s)] s
      in log_sched ''======================='' [] s)"

section \<open>Reference definitions\<close>

text \<open>The stores that take a node out of a queue of several.\<close>

definition unlink_node :: "u64 \<Rightarrow> memory \<Rightarrow> memory" where
  "unlink_node n m = (let m = set_fld m (fld m n N_PREV) N_NEXT (fld m n N_NEXT) in set_fld m (fld m n N_NEXT) N_PREV (fld m n N_PREV))"

type_synonym queue_view = "(u64 \<times> u64) list"

text \<open>
  A processor's queue: the nodes and threads in order, their number in the record. Nodes are allocated pages, threads
  are other pages; the page \<open>L\<close> holds the lock.
\<close>

definition queue_ok :: "u64 \<Rightarrow> u64 \<Rightarrow> u64 list \<Rightarrow> memory \<Rightarrow> percpu \<Rightarrow> queue_view \<Rightarrow> bool" where
  "queue_ok kend L fl m c q \<longleftrightarrow> node_list m (run_queue c) q \<and> num_threads c = of_nat (length q) \<and>
     (\<forall>n \<in> set (map fst q). valid_page kend n \<and> n \<notin> set fl \<and> n \<noteq> L) \<and>
     (\<forall>t \<in> set (map snd q). page_aligned t \<and> t \<noteq> 0 \<and> t \<notin> set fl \<and> t \<noteq> L)"

definition rq_ok :: "u64 \<Rightarrow> u64 \<Rightarrow> 'a percpu_state_scheme \<Rightarrow> queue_view list \<Rightarrow> u64 list \<Rightarrow> bool" where
  "rq_ok kend L s qs fl \<longleftrightarrow> kmem_inv kend s fl \<and> page_aligned L \<and> L \<notin> set fl \<and>
     length qs = unat (ncpu s) \<and> unat (ncpu s) \<le> length (percpus s) \<and>
     (\<forall>i < length qs. queue_ok kend L fl (mem s) (percpus s ! i) (qs ! i)) \<and>
     (\<forall>i < length qs. \<forall>j < length qs. i \<noteq> j \<longrightarrow> set (map fst (qs ! i)) \<inter> set (map fst (qs ! j)) = {}) \<and>
     (\<forall>i < length qs. \<forall>j < length qs. set (map snd (qs ! i)) \<inter> set (map fst (qs ! j)) = {})"

text \<open>The threads of every processor, in the order in which they will be considered.\<close>

definition threads_of :: "queue_view list \<Rightarrow> u64 list list" where
  "threads_of qs = map (map snd) qs"

text \<open>The state \<open>s\<close> with another queue at processor \<open>i\<close>.\<close>

definition set_queue :: "nat \<Rightarrow> memory \<Rightarrow> u64 \<Rightarrow> u64 \<Rightarrow> u32 \<Rightarrow> 'a percpu_state_scheme \<Rightarrow> 'a percpu_state_scheme" where
  "set_queue i m f list n s =
     s\<lparr>mem := m, freelist := f, percpus := (percpus s)[i := (percpus s ! i)\<lparr>run_queue := list, num_threads := n\<rparr>]\<rparr>"

text \<open>What \<open>runqueue_remove_loop\<close> does at the node it has found.\<close>

definition remove_at :: "u64 \<Rightarrow> cpu_ref \<Rightarrow> 'a percpu_state_scheme \<Rightarrow> u64 \<Rightarrow> (bool \<times> 'a percpu_state_scheme) result" where
  "remove_at kend cpu s n = bind_result (kfree kend n (runqueue_unlink cpu n s))
     (\<lambda>s. Inr (True, upd_cpu cpu (\<lambda>c. c\<lparr>num_threads := num_threads c - 1\<rparr>) s))"

definition queue_fields :: "percpu \<Rightarrow> u64 \<times> u32 \<times> u64 \<times> u64 \<times> bool" where
  "queue_fields c = (run_queue c, num_threads c, current_thread c, idle_thread c, started c)"

definition rq_same :: "u64 set \<Rightarrow> 'a percpu_state_scheme \<Rightarrow> 'a percpu_state_scheme \<Rightarrow> bool" where
  "rq_same Q s s' \<longleftrightarrow> only_pages Q (mem s) (mem s') \<and> freelist s' = freelist s \<and> ncpu s' = ncpu s \<and>
     map queue_fields (percpus s') = map queue_fields (percpus s)"

text \<open>The lock word lies in the page \<open>L\<close>.\<close>

definition lock_in :: "u64 \<Rightarrow> u64 \<Rightarrow> bool" where
  "lock_in L lk \<longleftrightarrow> page_aligned L \<and> (\<forall>k < 4. in_page L (lk + of_nat k))"

text \<open>The lock is free (0) or taken (1) and the processor is \<open>n\<close> levels deep.\<close>

definition lock_state :: "u64 \<Rightarrow> u32 \<Rightarrow> u32 \<Rightarrow> bool \<Rightarrow> nat \<Rightarrow> 'a percpu_state_scheme \<Rightarrow> bool" where
  "lock_state lk me w b n s \<longleftrightarrow> load32 (mem s) lk = w \<and> cli_at me b n s"

text \<open>
  A round of \<open>sched_run\<close> in which the thread picked runs until it calls \<open>sched_yield\<close>; what the thread itself does in
  between is left out. Several rounds, with the threads that ran.
\<close>

definition coop_round :: "u32 \<Rightarrow> cpu_ref \<Rightarrow> 'a smp_sched_scheme \<Rightarrow> (u64 \<times> 'a smp_sched_scheme) option" where
  "coop_round me cpu s = map_option (\<lambda>(t, s). (t, sched_yield (\<lambda>_ _ s. s) me s)) (sched_run_pick me cpu s)"

primrec coop_rounds :: "nat \<Rightarrow> u32 \<Rightarrow> cpu_ref \<Rightarrow> 'a smp_sched_scheme \<Rightarrow> (u64 list \<times> 'a smp_sched_scheme) option" where
  "coop_rounds 0 me cpu s = Some ([], s)"
| "coop_rounds (Suc k) me cpu s = Option.bind (coop_round me cpu s) (\<lambda>(t, s).
     map_option (\<lambda>(ts, s). (t # ts, s)) (coop_rounds k me cpu s))"

text \<open>The abstract operation: the first queue that has the thread loses its first occurrence.\<close>

primrec drop_thread :: "u64 \<Rightarrow> u64 list list \<Rightarrow> u64 list list" where
  "drop_thread t [] = []"
| "drop_thread t (q # qs) = (if t \<in> set q then remove1 t q # qs else q # drop_thread t qs)"

text \<open>The thread \<open>sched_balance\<close> may move: not running, not the idle thread, runnable.\<close>

definition migratable :: "'a percpu_state_scheme \<Rightarrow> nat \<Rightarrow> u64 \<Rightarrow> bool" where
  "migratable s i t \<longleftrightarrow> t \<noteq> current_thread (percpus s ! i) \<and> t \<noteq> idle_thread (percpus s ! i) \<and> runnable (mem s) t"

text \<open>The abstract operation: the first migratable thread of \<open>src\<close> goes to the end of \<open>dst\<close>.\<close>

definition move_thread :: "(u64 \<Rightarrow> bool) \<Rightarrow> nat \<Rightarrow> nat \<Rightarrow> u64 list list \<Rightarrow> u64 list list" where
  "move_thread P src dst ts =
     (case find P (ts ! src) of None \<Rightarrow> ts | Some t \<Rightarrow> ts[src := remove1 t (ts ! src), dst := ts ! dst @ [t]])"

text \<open>Processors \<open>src\<close> and \<open>dst\<close> are started, with the longest and the shortest queue of the started processors.\<close>

definition extremes :: "'a percpu_state_scheme \<Rightarrow> u64 list list \<Rightarrow> nat \<Rightarrow> nat \<Rightarrow> bool" where
  "extremes s ts src dst \<longleftrightarrow> src < length ts \<and> dst < length ts \<and> started (percpus s ! src) \<and> started (percpus s ! dst) \<and>
     (\<forall>j < length ts. started (percpus s ! j) \<longrightarrow> length (ts ! dst) \<le> length (ts ! j) \<and> length (ts ! j) \<le> length (ts ! src))"

definition imbalanced :: "'a percpu_state_scheme \<Rightarrow> u64 list list \<Rightarrow> bool" where
  "imbalanced s ts \<longleftrightarrow> (\<exists>i < length ts. \<exists>j < length ts. started (percpus s ! i) \<and> started (percpus s ! j) \<and> length (ts ! j) + 2 \<le> length (ts ! i))"

definition scan_ok :: "'a percpu_state_scheme \<Rightarrow> nat \<Rightarrow> u32 \<times> u32 \<times> u32 \<times> u32 \<Rightarrow> bool" where
  "scan_ok s k = (\<lambda>(max_load, max_cpu, min_load, min_cpu).
     (\<forall>j < k. started (percpus s ! j) \<longrightarrow> num_threads (percpus s ! j) \<le> max_load \<and> min_load \<le> num_threads (percpus s ! j)) \<and>
     (max_load = 0 \<or> unat max_cpu < k \<and> started (percpus s ! unat max_cpu) \<and> num_threads (percpus s ! unat max_cpu) = max_load) \<and>
     (min_load = -1 \<or> unat min_cpu < k \<and> started (percpus s ! unat min_cpu) \<and> num_threads (percpus s ! unat min_cpu) = min_load))"

text \<open>What \<open>migrate_loop\<close> does at the node it has found.\<close>

definition migrate_at :: "u64 \<Rightarrow> u32 \<Rightarrow> u32 \<Rightarrow> 'a smp_sched_scheme \<Rightarrow> u64 \<Rightarrow> 'a smp_sched_scheme result option" where
  "migrate_at kend max_cpu min_cpu s n =
     (let t = fld (mem s) n N_DATA
      in Option.bind (runqueue_remove_unlocked kend (Cpu (unat max_cpu)) t s) (\<lambda>r. Some (bind_result r (\<lambda>(_, s).
           let s = runqueue_add_unlocked (Cpu (unat min_cpu)) t s
           in Inr (log_sched ''Migrated thread %p from CPU %d to CPU %d'' [ANum t, num_arg max_cpu, num_arg min_cpu] s)))))"

text \<open>Two started processors and two free pages; then both pages hold nodes of the first queue.\<close>

definition demo_rq :: smp_sched where
  "demo_rq = percpu_state.extend
     (demo_percpu\<lparr>mem := set_fld32 (set_fld32 (set_fld (\<lambda>_. 0) 0x201000 0 0x200000) 0x300000 T_STATE 1) 0x301000 T_STATE 1,
        freelist := 0x201000, percpu_fully_initialized := True, ncpu := 2, apic_to_cpu := (replicate 256 0)[1 := 1],
        percpus := replicate MAX_CPUS (percpu_zero\<lparr>started := True\<rparr>)\<rparr>)
     (smp_sched.fields True [])"

section \<open>Walks over a queue\<close>

text \<open>
  A loop over a circular list that acts at the first node whose datum satisfies \<open>P\<close>, and otherwise stops when it is
  back at the start.
\<close>

lemma node_list_distinct: "node_list m list ns \<Longrightarrow> distinct (map fst ns)"
  using ring_distinct [of "node_next m" "node_prev m" "map fst ns"] by (cases "ns = []") (simp_all add: node_list_def)

lemma node_list_data: "\<lbrakk>node_list m list ns; (n, d) \<in> set ns\<rbrakk> \<Longrightarrow> page_aligned n \<and> n \<noteq> 0 \<and> fld m n N_DATA = d"
  by (auto simp: node_list_def)

lemma node_next_at:
  assumes "node_list m list (us @ (n, d) # vs)"
  shows "fld m n N_NEXT = fst (hd (vs @ us @ [(n, d)]))"
proof -
  have "ring (node_next m) (node_prev m) (map fst us @ (n # map fst vs))" using assms by (simp add: node_list_def)
  from ring_next_hd [OF ring_append_commute [OF this, simplified]] show ?thesis by (cases vs; cases us) auto
qed

lemma node_next_start:
  assumes "node_list m list (us @ (n, d) # vs)"
  shows "fld m n N_NEXT = list \<longleftrightarrow> vs = []"
proof (cases vs)
  case Nil
  then show ?thesis using node_next_at [OF assms] assms by (cases us) (auto simp: node_list_def)
next
  case (Cons x xs)
  have "distinct (map fst (us @ (n, d) # vs))" "list = fst (hd (us @ (n, d) # vs))"
    using node_list_distinct [OF assms] node_list_hd(1) [OF assms] by simp_all
  then have "fst x \<noteq> list" using Cons by (cases us) auto
  then show ?thesis using node_next_at [OF assms] Cons by simp
qed

lemma queue_walk_from:
  assumes q: "node_list m list q"
    and step: "\<And>n. n \<in> set (map fst q) \<Longrightarrow> f n = (if P (fld m n N_DATA) then A n else if fld m n N_NEXT \<noteq> list then f (fld m n N_NEXT) else B)"
    and "q = us @ vs" "vs \<noteq> []"
  shows "f (fst (hd vs)) = (case find (\<lambda>x. P (snd x)) vs of Some x \<Rightarrow> A (fst x) | None \<Rightarrow> B)"
  using assms(3,4)
proof (induction vs arbitrary: us)
  case (Cons x xs)
  obtain n d where x: "x = (n, d)" by (cases x)
  have nl: "node_list m list (us @ (n, d) # xs)" using q Cons.prems x by simp
  have "fld m n N_DATA = d" "n \<in> set (map fst q)" using nl Cons.prems x by (auto simp: node_list_def)
  moreover have "fld m n N_NEXT = fst (hd xs)" if "xs \<noteq> []" using node_next_at [OF nl] that by simp
  moreover have "f (fst (hd xs)) = (case find (\<lambda>x. P (snd x)) xs of Some x \<Rightarrow> A (fst x) | None \<Rightarrow> B)" if "xs \<noteq> []"
    using Cons.IH [of "us @ [x]"] Cons.prems that by simp
  ultimately show ?case using step [of n] node_next_start [OF nl] x by (cases "xs = []") simp_all
qed simp

lemma queue_walk:
  assumes "node_list m list q" "q \<noteq> []"
    and "\<And>n. n \<in> set (map fst q) \<Longrightarrow> f n = (if P (fld m n N_DATA) then A n else if fld m n N_NEXT \<noteq> list then f (fld m n N_NEXT) else B)"
  shows "f list = (case find (\<lambda>x. P (snd x)) q of Some x \<Rightarrow> A (fst x) | None \<Rightarrow> B)"
  using queue_walk_from [OF assms(1,3), of "[]" q] assms(2) node_list_hd(1) [OF assms(1,2)] by simp

lemma find_split: "find P xs = Some x \<Longrightarrow> \<exists>us vs. xs = us @ x # vs \<and> P x \<and> (\<forall>y \<in> set us. \<not> P y)"
proof (induction xs)
  case (Cons y ys)
  show ?case
  proof (cases "P y")
    case True
    then have "y # ys = [] @ x # ys \<and> P x" using Cons.prems by simp
    then show ?thesis by fastforce
  next
    case False
    then obtain us vs where "ys = us @ x # vs" "P x" "\<forall>y \<in> set us. \<not> P y" using Cons by auto
    then show ?thesis using False by (intro exI [of _ "y # us"] exI [of _ vs]) simp
  qed
qed simp

section \<open>Unlinking a node\<close>

lemma unlink_node_list:
  assumes nl: "node_list m list (us @ (n, d) # vs)" and ne: "us @ vs \<noteq> []"
  shows "node_list (unlink_node n m) (fst (hd (us @ vs))) (us @ vs)" "fld (unlink_node n m) n N_NEXT = fld m n N_NEXT"
    "only_pages (set (map fst (us @ vs))) m (unlink_node n m)"
proof -
  let ?xs = "map fst us" and ?ys = "map fst vs"
  have r: "ring (node_next m) (node_prev m) (?xs @ n # ?ys)" using nl by (simp add: node_list_def)
  have al: "page_aligned x" if "x \<in> set (?xs @ n # ?ys)" for x using node_list_aligned [OF nl] that by auto
  have r': "ring (node_next m) (node_prev m) (n # ?ys @ ?xs)" using ring_append_commute [OF r] by simp
  have self: "fld m n N_NEXT \<noteq> n" "fld m n N_PREV \<noteq> n" using ring_self [OF r'] ne by auto
  have nx: "fld m n N_NEXT \<in> set (?xs @ ?ys)" "fld m n N_PREV \<in> set (?xs @ ?ys)"
    using ring_closed [OF r, of n] self by auto
  have pa: "page_aligned n" "page_aligned (fld m n N_NEXT)" "page_aligned (fld m n N_PREV)" using al nx by auto
  have eq: "unlink_node n m = set_fld (set_fld m (fld m n N_PREV) N_NEXT (fld m n N_NEXT)) (fld m n N_NEXT) N_PREV (fld m n N_PREV)"
    using pa self by (simp add: unlink_node_def Let_def fld_set_fld)
  have f: "fld (unlink_node n m) x i =
      (if i = N_NEXT then ((node_next m)(fld m n N_PREV := fld m n N_NEXT)) x
       else if i = N_PREV then ((node_prev m)(fld m n N_NEXT := fld m n N_PREV)) x else fld m x i)" if "page_aligned x" "i < 512" for x i
    using that pa unfolding eq by (auto simp: fld_set_fld)
  show "fld (unlink_node n m) n N_NEXT = fld m n N_NEXT" using f [OF pa(1)] self by simp
  have al': "\<forall>q \<in> set (?xs @ ?ys). page_aligned q" using al by auto
  show "only_pages (set (map fst (us @ vs))) m (unlink_node n m)"
    unfolding eq using nx al' by (intro only_pages_set_fld only_pages_refl) simp_all
  have "ring (node_next (unlink_node n m)) (node_prev (unlink_node n m)) (?xs @ ?ys)"
  proof (rule ring_cong [OF ring_remove [OF r]])
    fix x assume "x \<in> set (?xs @ ?ys)"
    then have "page_aligned x" using al' by blast
    then show "node_next (unlink_node n m) x = ((node_next m)(fld m n N_PREV := fld m n N_NEXT)) x"
      "node_prev (unlink_node n m) x = ((node_prev m)(fld m n N_NEXT := fld m n N_PREV)) x" by (simp_all add: f)
  qed (use ne in simp)
  moreover have "page_aligned x \<and> x \<noteq> 0 \<and> fld (unlink_node n m) x N_DATA = e" if "(x, e) \<in> set (us @ vs)" for x e
    using node_list_data [OF nl, of x e] that f [of x N_DATA] by auto
  ultimately show "node_list (unlink_node n m) (fst (hd (us @ vs))) (us @ vs)"
    unfolding node_list_def using ne by auto
qed

section \<open>Invariant\<close>

lemma queue_ok_frame:
  assumes "queue_ok kend L fl m c q" "only_pages Q m m'" "set (map fst q) \<inter> Q = {}" "set fl' \<inter> set (map fst q @ map snd q) = {}"
    and "run_queue c' = run_queue c" "num_threads c' = num_threads c"
  shows "queue_ok kend L fl' m' c' q"
  using assms node_list_frame [OF _ assms(2,3), of "run_queue c"] unfolding queue_ok_def by auto

lemma rq_ok_disjoint:
  assumes "rq_ok kend L s qs fl" "i < length qs" "j < length qs" "i \<noteq> j"
  shows "set (map fst (qs ! i)) \<inter> set (map fst (qs ! j)) = {}"
  using assms unfolding rq_ok_def by blast

lemma rq_ok_threads:
  assumes "rq_ok kend L s qs fl" "i < length qs" "j < length qs"
  shows "set (map snd (qs ! i)) \<inter> set (map fst (qs ! j)) = {}"
  using assms unfolding rq_ok_def by blast

lemma rq_ok_queue:
  assumes "rq_ok kend L s qs fl" "i < length qs"
  shows "queue_ok kend L fl (mem s) (percpus s ! i) (qs ! i)"
  using assms unfolding rq_ok_def by blast

lemma rq_ok_fl: "\<lbrakk>rq_ok kend L s qs fl; i < length qs\<rbrakk> \<Longrightarrow> set fl \<inter> set (map fst (qs ! i) @ map snd (qs ! i)) = {}"
  using rq_ok_queue [of kend L s qs fl i] by (auto simp: queue_ok_def)

text \<open>Replacing the queue of one processor.\<close>

lemma rq_ok_set:
  assumes inv: "rq_ok kend L s qs fl" and i: "i < length qs"
    and frame: "only_pages Q (mem s) m" and Q: "\<And>j. j < length qs \<Longrightarrow> j \<noteq> i \<Longrightarrow> set (map fst (qs ! j)) \<inter> Q = {}"
    and kmem: "kmem_inv kend (s\<lparr>mem := m, freelist := f\<rparr>) fl'" and L: "L \<notin> set fl'"
    and q: "queue_ok kend L fl' m ((percpus s ! i)\<lparr>run_queue := list, num_threads := n\<rparr>) q"
    and fl': "\<And>j. j < length qs \<Longrightarrow> j \<noteq> i \<Longrightarrow> set fl' \<inter> set (map fst (qs ! j) @ map snd (qs ! j)) = {}"
    and nodes: "\<And>j. j < length qs \<Longrightarrow> j \<noteq> i \<Longrightarrow> set (map fst q) \<inter> set (map fst (qs ! j) @ map snd (qs ! j)) = {}"
    and threads: "\<And>j. j < length qs \<Longrightarrow> j \<noteq> i \<Longrightarrow> set (map snd q) \<inter> set (map fst (qs ! j)) = {}"
    and own: "set (map snd q) \<inter> set (map fst q) = {}"
  shows "rq_ok kend L (set_queue i m f list n s) (qs[i := q]) fl'"
proof -
  let ?s = "set_queue i m f list n s" and ?qs = "qs[i := q]"
  have len: "length qs = unat (ncpu s)" "unat (ncpu s) \<le> length (percpus s)" "page_aligned L" using inv by (auto simp: rq_ok_def)
  have "kmem_inv kend ?s fl'" using kmem by (simp add: kmem_inv_def set_queue_def)
  moreover have "queue_ok kend L fl' (mem ?s) (percpus ?s ! j) (?qs ! j)" if "j < length qs" for j
  proof (cases "j = i")
    case True
    then show ?thesis using q i len by (simp add: set_queue_def)
  next
    case False
    then have "queue_ok kend L fl' m (percpus s ! j) (qs ! j)"
      using queue_ok_frame [OF rq_ok_queue [OF inv that] frame Q [OF that False] fl' [OF that False]] by simp
    then show ?thesis using False by (simp add: set_queue_def)
  qed
  moreover have "set (map fst (?qs ! j)) \<inter> set (map fst (?qs ! k)) = {}" if "j < length qs" "k < length qs" "j \<noteq> k" for j k
    using nodes [of j] nodes [of k] rq_ok_disjoint [OF inv that] that i
    by (cases "j = i"; cases "k = i") (simp_all, blast+)
  moreover have "set (map snd (?qs ! j)) \<inter> set (map fst (?qs ! k)) = {}" if "j < length qs" "k < length qs" for j k
    using nodes [of j] threads [of k] rq_ok_threads [OF inv that] own that i
    by (cases "j = i"; cases "k = i") (simp_all, blast+)
  ultimately show ?thesis using len L unfolding rq_ok_def by (simp add: set_queue_def)
qed

section \<open>Operations on one queue\<close>

lemma kalloc_shape: "\<exists>m f. kalloc s = (freelist s, s\<lparr>mem := m, freelist := f\<rparr>)"
proof (cases "freelist s = 0")
  case True
  then have "kalloc s = (freelist s, s\<lparr>mem := mem s, freelist := freelist s\<rparr>)" by (simp add: kalloc_def Let_def)
  then show ?thesis by blast
next
  case False
  then have "kalloc s = (freelist s, s\<lparr>mem := memset (mem s) (freelist s) 5 PGSIZE, freelist := load64 (mem s) (freelist s)\<rparr>)"
    by (simp add: kalloc_def Let_def)
  then show ?thesis by blast
qed

lemma push_thread_list_shape: "\<exists>m f. push_thread_list list t s = (if list \<noteq> 0 then list else freelist s, s\<lparr>mem := m, freelist := f\<rparr>)"
proof -
  obtain m f where "kalloc s = (freelist s, s\<lparr>mem := m, freelist := f\<rparr>)" using kalloc_shape by blast
  then have "push_thread_list list t s =
      (if list \<noteq> 0 then list else freelist s,
       s\<lparr>mem := if list \<noteq> 0 then link_node list (freelist s) t m
               else set_fld (set_fld (set_fld m (freelist s) N_DATA t) (freelist s) N_PREV (freelist s)) (freelist s) N_NEXT (freelist s),
         freelist := f\<rparr>)"
    by (simp add: push_thread_list_link Let_def)
  then show ?thesis by blast
qed

lemma kfree_shape: "kfree kend p s = Inr s' \<Longrightarrow> \<exists>m. s' = s\<lparr>mem := m, freelist := p\<rparr>"
  by (auto simp: kfree_def Let_def split: if_splits)

lemma queue_update_Cpu:
  assumes "i < length (percpus s)"
  shows "upd_cpu (Cpu i) (\<lambda>c. c\<lparr>num_threads := g (num_threads c)\<rparr>) (upd_cpu (Cpu i) (\<lambda>c. c\<lparr>run_queue := list\<rparr>) (s\<lparr>mem := m, freelist := f\<rparr>)) =
     set_queue i m f list (g (num_threads (percpus s ! i))) s"
  using assms by (simp add: upd_cpu_def set_queue_def)

lemma runqueue_add_spec:
  assumes inv: "rq_ok kend L s qs (p # fl)" and i: "i < length qs"
    and t: "page_aligned t" "t \<noteq> 0" "t \<notin> set (p # fl)" "t \<noteq> L" "\<And>j. j < length qs \<Longrightarrow> t \<notin> set (map fst (qs ! j))"
  shows "\<exists>m f list. runqueue_add_unlocked (Cpu i) t s = set_queue i m f list (num_threads (percpus s ! i) + 1) s \<and>
     rq_ok kend L (set_queue i m f list (num_threads (percpus s ! i) + 1) s) (qs[i := qs ! i @ [(p, t)]]) fl \<and>
     only_pages (set (map fst (qs ! i) @ [p])) (mem s) m"
proof -
  note q = rq_ok_queue [OF inv i] and d = rq_ok_fl [OF inv]
  have kmem: "kmem_inv kend s (p # fl)" and lens: "i < length (percpus s)" using inv i by (auto simp: rq_ok_def)
  have p: "valid_page kend p" "p \<notin> set fl" "p \<noteq> L" using inv by (auto simp: rq_ok_def kmem_inv_def)
  have nl: "node_list (mem s) (run_queue (percpus s ! i)) (qs ! i)" using q by (simp add: queue_ok_def)
  have dp: "set (p # fl) \<inter> set (map fst (qs ! i)) = {}" using d [OF i] by auto
  obtain m f where push: "push_thread_list (run_queue (percpus s ! i)) t s =
      (if run_queue (percpus s ! i) \<noteq> 0 then run_queue (percpus s ! i) else freelist s, s\<lparr>mem := m, freelist := f\<rparr>)"
    using push_thread_list_shape by blast
  define list where "list = (if run_queue (percpus s ! i) \<noteq> 0 then run_queue (percpus s ! i) else freelist s)"
  from push_thread_list_law [OF kmem nl dp, of t] push
  have r: "kmem_inv kend (s\<lparr>mem := m, freelist := f\<rparr>) fl" "node_list m list (qs ! i @ [(p, t)])"
    "only_pages (set (map fst (qs ! i) @ [p])) (mem s) m" by (auto simp: list_def)
  have eq: "runqueue_add_unlocked (Cpu i) t s = set_queue i m f list (num_threads (percpus s ! i) + 1) s"
    using queue_update_Cpu [OF lens, of "\<lambda>x. x + 1"] by (simp add: runqueue_add_unlocked_def the_cpu_def push list_def)
  have "rq_ok kend L (set_queue i m f list (num_threads (percpus s ! i) + 1) s) (qs[i := qs ! i @ [(p, t)]]) fl"
  proof (rule rq_ok_set [OF inv i r(3)])
    show "queue_ok kend L fl m ((percpus s ! i)\<lparr>run_queue := list, num_threads := num_threads (percpus s ! i) + 1\<rparr>) (qs ! i @ [(p, t)])"
      using q r(2) t p by (auto simp: queue_ok_def)
    show "kmem_inv kend (s\<lparr>mem := m, freelist := f\<rparr>) fl" by (rule r(1))
    show "L \<notin> set fl" using inv by (simp add: rq_ok_def)
    show "set (map snd (qs ! i @ [(p, t)])) \<inter> set (map fst (qs ! i @ [(p, t)])) = {}"
      using t(3) t(5) [OF i] d [OF i] rq_ok_threads [OF inv i i] by auto
  next
    fix j assume j: "j < length qs" "j \<noteq> i"
    note dj = d [OF j(1)] rq_ok_disjoint [OF inv j(1) i j(2)] rq_ok_threads [OF inv j(1) i] rq_ok_threads [OF inv i j(1)] t(5) [OF j(1)]
    show "set (map fst (qs ! j)) \<inter> set (map fst (qs ! i) @ [p]) = {}" "set fl \<inter> set (map fst (qs ! j) @ map snd (qs ! j)) = {}"
      "set (map fst (qs ! i @ [(p, t)])) \<inter> set (map fst (qs ! j) @ map snd (qs ! j)) = {}"
      "set (map snd (qs ! i @ [(p, t)])) \<inter> set (map fst (qs ! j)) = {}"
      using dj by auto
  qed
  with eq r(3) show ?thesis by blast
qed

lemma set_queue_id: "set_queue i m (freelist s) (run_queue (percpus s ! i)) (num_threads (percpus s ! i)) s = s\<lparr>mem := m\<rparr>"
  by (simp add: set_queue_def)

text \<open>Removing the first node of a thread.\<close>

lemma runqueue_unlink_spec:
  assumes nl: "node_list (mem s) (run_queue (percpus s ! i)) (us @ (n, t) # vs)" and i: "i < length (percpus s)"
  shows "\<exists>m list. runqueue_unlink (Cpu i) n s = set_queue i m (freelist s) list (num_threads (percpus s ! i)) s \<and>
     node_list m list (us @ vs) \<and> only_pages (set (map fst (us @ vs))) (mem s) m"
proof (cases "us @ vs = []")
  case True
  then have "fld (mem s) n N_NEXT = n" using node_next_at [OF nl] by simp
  then have "runqueue_unlink (Cpu i) n s = set_queue i (mem s) (freelist s) 0 (num_threads (percpus s ! i)) s"
    by (simp add: runqueue_unlink_def upd_cpu_def set_queue_def)
  moreover have "only_pages (set (map fst (us @ vs))) (mem s) (mem s)" using True by (simp add: only_pages_def)
  ultimately show ?thesis using True by (force simp: node_list_def)
next
  case False
  note u = unlink_node_list [OF nl False]
  let ?m = "unlink_node n (mem s)"
  have self: "fld (mem s) n N_NEXT \<noteq> n"
    using node_next_at [OF nl] node_list_distinct [OF nl] False by (cases vs; cases us) auto
  have hd: "run_queue (percpus s ! i) = fst (hd (us @ (n, t) # vs))" using node_list_hd(1) [OF nl] by simp
  have "runqueue_unlink (Cpu i) n s =
      (if run_queue (percpus s ! i) = n then upd_cpu (Cpu i) (\<lambda>c. c\<lparr>run_queue := fld ?m n N_NEXT\<rparr>) (s\<lparr>mem := ?m\<rparr>) else s\<lparr>mem := ?m\<rparr>)"
    using self by (simp add: runqueue_unlink_def unlink_node_def Let_def the_cpu_def)
  moreover have "run_queue (percpus s ! i) = n \<longleftrightarrow> us = []"
    using hd node_list_distinct [OF nl] by (cases us) auto
  moreover have "fld ?m n N_NEXT = fst (hd vs)" if "us = []" using u(2) node_next_at [OF nl] False that by simp
  moreover have "run_queue (percpus s ! i) = fst (hd (us @ vs))" if "us \<noteq> []" using hd that by simp
  ultimately have "runqueue_unlink (Cpu i) n s = set_queue i ?m (freelist s) (fst (hd (us @ vs))) (num_threads (percpus s ! i)) s"
    using i set_queue_id [of i ?m s] by (cases "us = []") (simp_all add: upd_cpu_def set_queue_def)
  with u show ?thesis by blast
qed

lemma remove_at_spec:
  assumes inv: "rq_ok kend L s qs fl" and i: "i < length qs" and q: "qs ! i = us @ (n, t) # vs"
  shows "\<exists>m f list. remove_at kend (Cpu i) s n = Inr (True, set_queue i m f list (num_threads (percpus s ! i) - 1) s) \<and>
     rq_ok kend L (set_queue i m f list (num_threads (percpus s ! i) - 1) s) (qs[i := us @ vs]) (n # fl) \<and>
     only_pages (set (map fst (qs ! i))) (mem s) m"
proof -
  note qok = rq_ok_queue [OF inv i] and d = rq_ok_fl [OF inv]
  have kmem: "kmem_inv kend s fl" and lens: "i < length (percpus s)" using inv i by (auto simp: rq_ok_def)
  have nl: "node_list (mem s) (run_queue (percpus s ! i)) (us @ (n, t) # vs)" using qok q by (simp add: queue_ok_def)
  have n: "valid_page kend n" "n \<notin> set fl" "n \<noteq> L" using qok q by (auto simp: queue_ok_def)
  have own: "n \<notin> set (map fst (us @ vs))" using node_list_distinct [OF nl] by auto
  have al: "\<forall>x \<in> set (map fst (qs ! i)). page_aligned x" using node_list_aligned [OF nl] unfolding q by blast
  obtain m list where u: "runqueue_unlink (Cpu i) n s = set_queue i m (freelist s) list (num_threads (percpus s ! i)) s"
    "node_list m list (us @ vs)" "only_pages (set (map fst (us @ vs))) (mem s) m"
    using runqueue_unlink_spec [OF nl lens] by blast
  let ?s1 = "set_queue i m (freelist s) list (num_threads (percpus s ! i)) s"
  have "set fl \<inter> set (map fst (us @ vs)) = {}" using d [OF i] q by auto
  then have "kmem_inv kend ?s1 fl" using only_pages_kmem_inv [OF kmem u(3)] by (simp add: kmem_inv_def set_queue_def)
  then obtain s2 where s2: "kfree kend n ?s1 = Inr s2" "kmem_inv kend s2 (n # fl)" using kfree_valid n by blast
  obtain m2 where m2: "s2 = ?s1\<lparr>mem := m2, freelist := n\<rparr>" using kfree_shape [OF s2(1)] by blast
  have fr: "only_pages {n} m m2" using kfree_frame [OF s2(1)] n(1) m2 by (auto simp: only_pages_def valid_page_def set_queue_def)
  have fr2: "only_pages (set (map fst (qs ! i))) (mem s) m2"
    using only_pages_trans [OF only_pages_mono [OF u(3) _ al] only_pages_mono [OF fr _ al]] q by auto
  have nl2: "node_list m2 list (us @ vs)" using node_list_frame [OF u(2) fr] own by blast
  have "upd_cpu (Cpu i) (\<lambda>c. c\<lparr>num_threads := num_threads c - 1\<rparr>) s2 = set_queue i m2 n list (num_threads (percpus s ! i) - 1) s"
    using lens by (simp add: m2 set_queue_def upd_cpu_def)
  then have eq: "remove_at kend (Cpu i) s n = Inr (True, set_queue i m2 n list (num_threads (percpus s ! i) - 1) s)"
    by (simp add: remove_at_def u(1) s2(1))
  have "rq_ok kend L (set_queue i m2 n list (num_threads (percpus s ! i) - 1) s) (qs[i := us @ vs]) (n # fl)"
  proof (rule rq_ok_set [OF inv i fr2])
    show "queue_ok kend L (n # fl) m2 ((percpus s ! i)\<lparr>run_queue := list, num_threads := num_threads (percpus s ! i) - 1\<rparr>) (us @ vs)"
      using qok nl2 own rq_ok_threads [OF inv i i] by (auto simp: queue_ok_def q)
    show "kmem_inv kend (s\<lparr>mem := m2, freelist := n\<rparr>) (n # fl)" using s2(2) m2 by (simp add: kmem_inv_def set_queue_def)
    show "L \<notin> set (n # fl)" using inv n by (simp add: rq_ok_def)
    show "set (map snd (us @ vs)) \<inter> set (map fst (us @ vs)) = {}" using rq_ok_threads [OF inv i i] by (auto simp: q)
  next
    fix j assume j: "j < length qs" "j \<noteq> i"
    note dj = d [OF j(1)] rq_ok_disjoint [OF inv j(1) i j(2)] rq_ok_threads [OF inv j(1) i] rq_ok_threads [OF inv i j(1)]
    show "set (map fst (qs ! j)) \<inter> set (map fst (qs ! i)) = {}" by (rule dj(2))
    show "set (n # fl) \<inter> set (map fst (qs ! j) @ map snd (qs ! j)) = {}"
      "set (map fst (us @ vs)) \<inter> set (map fst (qs ! j) @ map snd (qs ! j)) = {}"
      "set (map snd (us @ vs)) \<inter> set (map fst (qs ! j)) = {}"
      using dj unfolding q by auto
  qed
  with eq fr2 show ?thesis by blast
qed

lemma runqueue_remove_find:
  assumes inv: "rq_ok kend L s qs fl" and i: "i < length qs"
  shows "runqueue_remove_unlocked kend (Cpu i) t s =
     Some (case find (\<lambda>x. snd x = t) (qs ! i) of Some x \<Rightarrow> remove_at kend (Cpu i) s (fst x) | None \<Rightarrow> Inr (False, s))"
proof (cases "qs ! i = []")
  case True
  then show ?thesis using rq_ok_queue [OF inv i] by (simp add: runqueue_remove_unlocked_def the_cpu_def queue_ok_def node_list_def)
next
  case False
  let ?start = "run_queue (percpus s ! i)"
  have nl: "node_list (mem s) ?start (qs ! i)" using rq_ok_queue [OF inv i] by (simp add: queue_ok_def)
  have "runqueue_remove_loop kend (Cpu i) t ?start ?start s =
      (case find (\<lambda>x. snd x = t) (qs ! i) of Some x \<Rightarrow> Some (remove_at kend (Cpu i) s (fst x)) | None \<Rightarrow> Some (Inr (False, s)))"
    by (rule queue_walk [OF nl False]) (subst runqueue_remove_loop.simps, simp add: remove_at_def Let_def)
  then show ?thesis using node_list_hd(2) [OF nl False] by (simp add: runqueue_remove_unlocked_def the_cpu_def split: option.split)
qed

text \<open>Picking the next runnable thread rotates the queue past it.\<close>

lemma node_list_rotate:
  assumes "node_list m list (us @ (n, t) # vs)"
  shows "node_list m (fld m n N_NEXT) (vs @ us @ [(n, t)])"
proof -
  have "ring (node_next m) (node_prev m) (map fst (us @ [(n, t)]) @ map fst vs)" using assms by (simp add: node_list_def)
  note r = ring_append_commute [OF this]
  have "page_aligned x \<and> x \<noteq> 0 \<and> fld m x N_DATA = e" if "(x, e) \<in> set (vs @ us @ [(n, t)])" for x e
    using node_list_data [OF assms, of x e] that by auto
  with r node_next_at [OF assms] show ?thesis unfolding node_list_def by auto
qed

lemma runqueue_get_next_find:
  assumes inv: "rq_ok kend L s qs fl" and i: "i < length qs"
  shows "runqueue_get_next (Cpu i) s =
     (case find (\<lambda>x. runnable (mem s) (snd x)) (qs ! i) of
        Some x \<Rightarrow> Some (fld (mem s) (fst x) N_DATA, upd_cpu (Cpu i) (\<lambda>c. c\<lparr>run_queue := fld (mem s) (fst x) N_NEXT\<rparr>) s)
      | None \<Rightarrow> Some (0, s))"
proof (cases "qs ! i = []")
  case True
  then show ?thesis using rq_ok_queue [OF inv i] by (simp add: runqueue_get_next_def the_cpu_def queue_ok_def node_list_def)
next
  case False
  let ?start = "run_queue (percpus s ! i)"
  have nl: "node_list (mem s) ?start (qs ! i)" using rq_ok_queue [OF inv i] by (simp add: queue_ok_def)
  have "runqueue_next_loop (Cpu i) ?start ?start s =
      (case find (\<lambda>x. runnable (mem s) (snd x)) (qs ! i) of
        Some x \<Rightarrow> Some (fld (mem s) (fst x) N_DATA, upd_cpu (Cpu i) (\<lambda>c. c\<lparr>run_queue := fld (mem s) (fst x) N_NEXT\<rparr>) s)
      | None \<Rightarrow> Some (0, s))"
    by (rule queue_walk [OF nl False]) (subst runqueue_next_loop.simps, simp add: Let_def runnable_def)
  then show ?thesis using node_list_hd(2) [OF nl False] by (simp add: runqueue_get_next_def the_cpu_def)
qed

lemma runqueue_get_next_spec:
  assumes inv: "rq_ok kend L s qs fl" and i: "i < length qs" and q: "qs ! i = us @ (n, t) # vs"
    and t: "runnable (mem s) t" "\<And>x. x \<in> set us \<Longrightarrow> \<not> runnable (mem s) (snd x)"
  shows "\<exists>list. runqueue_get_next (Cpu i) s = Some (t, set_queue i (mem s) (freelist s) list (num_threads (percpus s ! i)) s) \<and>
     rq_ok kend L (set_queue i (mem s) (freelist s) list (num_threads (percpus s ! i)) s) (qs[i := vs @ us @ [(n, t)]]) fl"
proof -
  note qok = rq_ok_queue [OF inv i] and d = rq_ok_fl [OF inv]
  have lens: "i < length (percpus s)" using inv i by (auto simp: rq_ok_def)
  have nl: "node_list (mem s) (run_queue (percpus s ! i)) (us @ (n, t) # vs)" using qok q by (simp add: queue_ok_def)
  have "find (\<lambda>x. runnable (mem s) (snd x)) (us @ (n, t) # vs) = Some (n, t)" using t by (induction us) auto
  then have eq: "runqueue_get_next (Cpu i) s = Some (t, set_queue i (mem s) (freelist s) (fld (mem s) n N_NEXT) (num_threads (percpus s ! i)) s)"
    using runqueue_get_next_find [OF inv i] node_list_data [OF nl, of n t] q by (simp add: upd_cpu_def set_queue_def)
  let ?Q = "set (map fst (qs ! i))"
  have fr: "only_pages ?Q (mem s) (mem s)" using node_list_aligned [OF nl] unfolding q by (intro only_pages_refl) blast
  have "rq_ok kend L (set_queue i (mem s) (freelist s) (fld (mem s) n N_NEXT) (num_threads (percpus s ! i)) s) (qs[i := vs @ us @ [(n, t)]]) fl"
  proof (rule rq_ok_set [OF inv i fr])
    show "queue_ok kend L fl (mem s) ((percpus s ! i)\<lparr>run_queue := fld (mem s) n N_NEXT, num_threads := num_threads (percpus s ! i)\<rparr>) (vs @ us @ [(n, t)])"
      using qok node_list_rotate [OF nl] by (auto simp: queue_ok_def q)
    show "kmem_inv kend (s\<lparr>mem := mem s, freelist := freelist s\<rparr>) fl" "L \<notin> set fl" using inv by (simp_all add: rq_ok_def)
    show "set (map snd (vs @ us @ [(n, t)])) \<inter> set (map fst (vs @ us @ [(n, t)])) = {}" using rq_ok_threads [OF inv i i] by (auto simp: q)
  next
    fix j assume j: "j < length qs" "j \<noteq> i"
    note dj = d [OF j(1)] rq_ok_disjoint [OF inv j(1) i j(2)] rq_ok_threads [OF inv j(1) i] rq_ok_threads [OF inv i j(1)]
    show "set (map fst (qs ! j)) \<inter> set (map fst (qs ! i)) = {}" "set fl \<inter> set (map fst (qs ! j) @ map snd (qs ! j)) = {}" by (rule dj)+
    show "set (map fst (vs @ us @ [(n, t)])) \<inter> set (map fst (qs ! j) @ map snd (qs ! j)) = {}"
      "set (map snd (vs @ us @ [(n, t)])) \<inter> set (map fst (qs ! j)) = {}"
      using dj unfolding q by auto
  qed
  with eq show ?thesis by blast
qed

section \<open>Changes outside the queues\<close>

lemma rq_same_trans: "\<lbrakk>rq_same Q s s'; rq_same Q s' s''\<rbrakk> \<Longrightarrow> rq_same Q s s''"
  unfolding rq_same_def using only_pages_trans by auto

lemma rq_same_cpu:
  assumes "rq_same Q s s'"
  shows "length (percpus s') = length (percpus s)" "i < length (percpus s) \<Longrightarrow> queue_fields (percpus s' ! i) = queue_fields (percpus s ! i)"
proof -
  have eq: "map queue_fields (percpus s') = map queue_fields (percpus s)" using assms by (simp add: rq_same_def)
  show len: "length (percpus s') = length (percpus s)" using map_eq_imp_length_eq [OF eq] .
  show "queue_fields (percpus s' ! i) = queue_fields (percpus s ! i)" if "i < length (percpus s)"
    using arg_cong [OF eq, of "\<lambda>xs. xs ! i"] len that by simp
qed

lemma rq_ok_same:
  assumes inv: "rq_ok kend L s qs fl" and same: "rq_same Q s s'"
    and Q: "\<And>i. i < length qs \<Longrightarrow> set (map fst (qs ! i)) \<inter> Q = {}" and fl: "set fl \<inter> Q = {}"
  shows "rq_ok kend L s' qs fl"
proof -
  have fr: "only_pages Q (mem s) (mem s')" and eq: "freelist s' = freelist s" "ncpu s' = ncpu s" using same by (auto simp: rq_same_def)
  have "kmem_inv kend s fl" using inv by (simp add: rq_ok_def)
  from only_pages_kmem_inv [OF this fr fl] have "kmem_inv kend s' fl" using eq by (simp add: kmem_inv_def)
  moreover have "queue_ok kend L fl (mem s') (percpus s' ! i) (qs ! i)" if "i < length qs" for i
  proof -
    have "i < length (percpus s)" using inv that by (auto simp: rq_ok_def)
    from rq_same_cpu(2) [OF same this] show ?thesis
      using queue_ok_frame [OF rq_ok_queue [OF inv that] fr Q [OF that] rq_ok_fl [OF inv that]] by (simp add: queue_fields_def)
  qed
  ultimately show ?thesis using inv eq rq_same_cpu(1) [OF same] unfolding rq_ok_def by simp
qed

lemma rq_same_upd:
  assumes "\<And>c. queue_fields (f c) = queue_fields c" "\<forall>q \<in> Q. page_aligned q"
  shows "rq_same Q s (upd_cpu r f s)"
proof (cases r)
  case (Cpu i)
  have "map queue_fields ((percpus s)[i := f (percpus s ! i)]) = map queue_fields (percpus s)"
    using assms(1) by (cases "i < length (percpus s)") (simp_all add: map_update list_update_beyond, metis list_update_id length_map nth_map)
  then show ?thesis using Cpu assms(2) by (simp add: rq_same_def upd_cpu_def only_pages_def)
qed (use assms in \<open>simp add: rq_same_def upd_cpu_def only_pages_def\<close>)

lemma rq_same_set_if: "\<forall>q \<in> Q. page_aligned q \<Longrightarrow> rq_same Q s (set_if me b s)"
  by (simp add: rq_same_def set_if_def only_pages_def)

lemma rq_same_mem: "only_pages Q (mem s) m \<Longrightarrow> rq_same Q s (s\<lparr>mem := m\<rparr>)"
  by (simp add: rq_same_def)

lemma rq_same_pushcli:
  assumes al: "\<forall>q \<in> Q. page_aligned q"
  shows "rq_same Q s (pushcli me s)"
proof -
  let ?s1 = "set_if me False s" and ?c = "mycpu me s"
  let ?u = "upd_cpu ?c (\<lambda>c. c\<lparr>intena := if hw_if (hw s me) then FL_IF else 0\<rparr>) ?s1"
  let ?s2 = "if ncli (the_cpu ?c ?s1) = 0 then ?u else ?s1"
  have l: "rq_same Q s ?s1" by (rule rq_same_set_if [OF al])
  have "rq_same Q ?s1 ?u" by (rule rq_same_upd [OF _ al]) (simp add: queue_fields_def)
  from l rq_same_trans [OF l this] have l2: "rq_same Q s ?s2" by simp
  have "rq_same Q ?s2 (upd_cpu ?c (\<lambda>c. c\<lparr>ncli := ncli c + 1\<rparr>) ?s2)"
    by (rule rq_same_upd [OF _ al]) (simp add: queue_fields_def)
  from rq_same_trans [OF l2 this] show ?thesis unfolding pushcli_def Let_def mycpu_set_if .
qed

lemma rq_same_popcli:
  assumes al: "\<forall>q \<in> Q. page_aligned q" and "popcli me s = Inr s'"
  shows "rq_same Q s s'"
proof -
  let ?s1 = "upd_cpu (mycpu me s) (\<lambda>c. c\<lparr>ncli := ncli c - 1\<rparr>) s"
  have "rq_same Q s ?s1" by (rule rq_same_upd [OF _ al]) (simp add: queue_fields_def)
  moreover have "s' = ?s1 \<or> s' = set_if me True ?s1" using assms by (auto simp: popcli_def Let_def split: if_splits)
  ultimately show ?thesis using rq_same_set_if [OF al] rq_same_trans by blast
qed

section \<open>The scheduler lock\<close>

lemma store32_in: "lock_in L lk \<Longrightarrow> only_pages {L} m (store32 m lk v)"
proof -
  assume lk: "lock_in L lk"
  have "store32 m lk v x = m x" if "\<not> in_page L x" for x
  proof -
    have "\<not> unat (x - lk) < 4"
    proof
      assume "unat (x - lk) < 4"
      then have "in_page L (lk + of_nat (unat (x - lk)))" using lk unfolding lock_in_def by blast
      with that show False by simp
    qed
    then show ?thesis by (simp add: store32_def store_le_apply)
  qed
  then show ?thesis using lk by (simp add: only_pages_def lock_in_def)
qed

lemma load32_frame:
  assumes "lock_in L lk" "only_pages Q m m'" "L \<notin> Q"
  shows "load32 m' lk = load32 m lk"
proof -
  have "m' (lk + of_nat k) = m (lk + of_nat k)" if "k < 4" for k
    using only_pages_page [OF assms(2) _ assms(3)] assms(1) that by (auto simp: lock_in_def)
  then show ?thesis unfolding load32_def by (simp add: load_le_cong [of 4 m'])
qed

lemma acquire_sched_lock:
  assumes "lock_in L lk" "lock_state lk me 0 b n s"
  shows "\<exists>s'. acquire_spinlock me lk s = Some s' \<and> lock_state lk me 1 b (Suc n) s' \<and> rq_same {L} s s' \<and>
     percpu_state.more s' = percpu_state.more s \<and> (\<forall>a. mycpu a s' = mycpu a s)"
proof -
  let ?s1 = "pushcli me s"
  have al: "\<forall>q \<in> {L}. page_aligned q" using assms(1) by (simp add: lock_in_def)
  have l: "cpu_local me s ?s1" by (rule cpu_local_pushcli)
  then have m: "mem ?s1 = mem s" by (simp add: cpu_local_def)
  have "acquire_spinlock me lk s = Some (?s1\<lparr>mem := store32 (mem s) lk 1\<rparr>)"
    using assms(2) acquire_loop_free [of "mem s" lk] m by (simp add: acquire_spinlock_def lock_state_def Let_def)
  moreover have "rq_same {L} s (?s1\<lparr>mem := store32 (mem s) lk 1\<rparr>)"
    using rq_same_trans [OF rq_same_pushcli [OF al, of s me] rq_same_mem] store32_in [OF assms(1), of "mem s" 1] m by simp
  moreover have "cli_at me b (Suc n) ?s1" using assms(2) by (intro pushcli_at) (simp add: lock_state_def)
  ultimately show ?thesis using l by (simp add: lock_state_def load32_store32_same cpu_local_def)
qed

lemma release_sched_lock:
  assumes "lock_in L lk" "lock_state lk me 1 b (Suc n) s"
  shows "\<exists>s'. release_spinlock me lk s = Inr s' \<and> lock_state lk me 0 b n s' \<and> rq_same {L} s s' \<and>
     percpu_state.more s' = percpu_state.more s \<and> (\<forall>a. mycpu a s' = mycpu a s)"
proof -
  have al: "\<forall>q \<in> {L}. page_aligned q" using assms(1) by (simp add: lock_in_def)
  have cli: "cli_at me b (Suc n) s" and w: "mem s lk = 1" using assms(2) load32_one by (auto simp: lock_state_def)
  obtain s1 where s1: "popcli me (pushcli me s) = Inr s1" "cli_at me b (Suc n) s1"
    using popcli_at [OF pushcli_at [OF cli]] by blast
  have l1: "cpu_local me s s1" using cpu_local_pushcli cpu_local_popcli [OF s1(1)] cpu_local_trans by blast
  have r1: "rq_same {L} s s1" using rq_same_pushcli [OF al] rq_same_popcli [OF al s1(1)] rq_same_trans by blast
  have m: "mem (pushcli me s) = mem s" using cpu_local_pushcli [of me s] by (simp add: cpu_local_def)
  let ?s2 = "s1\<lparr>mem := store32 (mem s1) lk 0\<rparr>"
  have r2: "rq_same {L} s ?s2" using rq_same_trans [OF r1 rq_same_mem] store32_in [OF assms(1)] by simp
  have "cli_at me b (Suc n) ?s2" using s1(2) by simp
  then obtain s3 where s3: "popcli me ?s2 = Inr s3" "cli_at me b n s3" using popcli_at by blast
  have l3: "cpu_local me ?s2 s3" by (rule cpu_local_popcli [OF s3(1)])
  have "release_spinlock me lk s = Inr s3"
    using s1 s3 w m by (simp add: release_spinlock_def holding_spinlock_def unlock_word_def Let_def)
  moreover have "rq_same {L} s s3" using rq_same_trans [OF r2 rq_same_popcli [OF al s3(1)]] .
  moreover have "load32 (mem s3) lk = 0" using l3 by (simp add: cpu_local_def load32_store32_same)
  ultimately show ?thesis using s3(2) l1 l3 by (simp add: lock_state_def cpu_local_def)
qed

lemma rq_ok_lock: "\<lbrakk>rq_ok kend L s qs fl; rq_same {L} s s'\<rbrakk> \<Longrightarrow> rq_ok kend L s' qs fl"
  by (rule rq_ok_same) (auto simp: rq_ok_def queue_ok_def)



lemma cli_at_upd:
  assumes f: "\<And>c. ncli (f c) = ncli c" "\<And>c. intena (f c) = intena c" "\<And>c. apic_id (f c) = apic_id c"
  shows "cli_at me b n (upd_cpu r f s) = cli_at me b n s"
proof -
  let ?r = "mycpu me s"
  have "ncli (the_cpu ?r (upd_cpu r f s)) = ncli (the_cpu ?r s) \<and> intena (the_cpu ?r (upd_cpu r f s)) = intena (the_cpu ?r s)"
    if "ref_ok ?r s"
    using that f the_cpu_upd_other [of ?r r f s] by (cases "r = ?r") simp_all
  then show ?thesis using f(3) by (auto simp: cli_at_def Let_def)
qed

lemma set_queue_upd: "set_queue i m f list k s = upd_cpu (Cpu i) (\<lambda>c. c\<lparr>run_queue := list, num_threads := k\<rparr>) (s\<lparr>mem := m, freelist := f\<rparr>)"
  by (simp add: set_queue_def upd_cpu_def)

lemma set_queue_simps [simp]:
  "mycpu a (set_queue i m f list k s) = mycpu a s" "cli_at a b n (set_queue i m f list k s) = cli_at a b n s"
  "mem (set_queue i m f list k s) = m" "ncpu (set_queue i m f list k s) = ncpu s"
  "length (percpus (set_queue i m f list k s)) = length (percpus s)" "percpu_state.more (set_queue i m f list k s) = percpu_state.more s"
  "hw (set_queue i m f list k s) = hw s"
  by (simp_all add: set_queue_upd cli_at_upd) (simp_all add: upd_cpu_def)

lemma lock_state_set_queue:
  assumes "lock_in L lk" "lock_state lk me w b n s" "only_pages Q (mem s) m" "L \<notin> Q"
  shows "lock_state lk me w b n (set_queue i m f list k s)"
  using assms load32_frame [OF assms(1,3,4)] by (simp add: lock_state_def)

lemma log_sched_simps [simp]:
  "mycpu a (log_sched x y s) = mycpu a s" "cli_at a b n (log_sched x y s) = cli_at a b n s" "mem (log_sched x y s) = mem s"
  "rq_ok kend L (log_sched x y s) qs fl = rq_ok kend L s qs fl" "lock_state lk a w b n (log_sched x y s) = lock_state lk a w b n s"
  "percpus (log_sched x y s) = percpus s" "ncpu (log_sched x y s) = ncpu s"
  by (simp_all add: log_sched_def mycpu_def cli_at_def the_cpu_def ref_ok_def Let_def rq_ok_def kmem_inv_def lock_state_def split: cpu_ref.split)

section \<open>Thread states\<close>

lemma only_pages_set_fld32:
  assumes "page_aligned t" "i < 512"
  shows "only_pages {t} m (set_fld32 m t i v)"
  unfolding set_fld32_def by (rule store32_in) (use assms in_page_slot in \<open>simp add: lock_in_def\<close>)

lemma runnable_frame:
  assumes "only_pages Q m m'" "page_aligned t" "t \<notin> Q"
  shows "runnable m' t = runnable m t"
proof -
  have "fld32 m' t T_STATE = fld32 m t T_STATE"
    by (rule fld32_other_page) (use only_pages_page [OF assms] in simp_all)
  then show ?thesis by (simp add: runnable_def thread_state_def)
qed

section \<open>Rounds of cooperating threads\<close>

lemma rq_ok_set_if: "rq_ok kend L (set_if me b s) qs fl = rq_ok kend L s qs fl"
  by (simp add: rq_ok_def set_if_def kmem_inv_def)

text \<open>The whole result of \<open>sched_get_next\<close>.\<close>

lemma sched_get_next_spec:
  assumes inv: "rq_ok kend L s qs fl" and i: "i < length qs" and me: "mycpu me s = Cpu i"
  shows "case find (\<lambda>x. runnable (mem s) (snd x)) (qs ! i) of
       None \<Rightarrow> sched_get_next me s = Some (idle_thread (percpus s ! i), s)
     | Some (n, t) \<Rightarrow> \<exists>us vs list. qs ! i = us @ (n, t) # vs \<and> (\<forall>x \<in> set us. \<not> runnable (mem s) (snd x)) \<and>
         sched_get_next me s = Some (t, set_queue i (mem s) (freelist s) list (num_threads (percpus s ! i)) s) \<and>
         rq_ok kend L (set_queue i (mem s) (freelist s) list (num_threads (percpus s ! i)) s) (qs[i := vs @ us @ [(n, t)]]) fl"
proof (cases "find (\<lambda>x. runnable (mem s) (snd x)) (qs ! i)")
  case None
  then show ?thesis using runqueue_get_next_find [OF inv i] me by (simp add: sched_get_next_def the_cpu_def Let_def)
next
  case (Some x)
  obtain n t where x: "x = (n, t)" by (cases x)
  obtain us vs where q: "qs ! i = us @ (n, t) # vs" "runnable (mem s) t" "\<forall>x \<in> set us. \<not> runnable (mem s) (snd x)"
    using find_split [OF Some] x by auto
  have t0: "t \<noteq> 0" using rq_ok_queue [OF inv i] q(1) by (auto simp: queue_ok_def)
  obtain list where l: "runqueue_get_next (Cpu i) s = Some (t, set_queue i (mem s) (freelist s) list (num_threads (percpus s ! i)) s)"
    "rq_ok kend L (set_queue i (mem s) (freelist s) list (num_threads (percpus s ! i)) s) (qs[i := vs @ us @ [(n, t)]]) fl"
    using runqueue_get_next_spec [OF inv i q(1,2)] q(3) by blast
  have "sched_get_next me s = Some (t, set_queue i (mem s) (freelist s) list (num_threads (percpus s ! i)) s)"
    using l(1) me t0 by (simp add: sched_get_next_def Let_def)
  then show ?thesis using Some x q l(2) by auto
qed

lemma rq_ok_thread_page:
  assumes "rq_ok kend L s qs fl" "i < length qs" "t \<in> set (map snd (qs ! i))"
  shows "page_aligned t" "t \<noteq> 0" "t \<notin> set fl" "t \<noteq> L" "j < length qs \<Longrightarrow> t \<notin> set (map fst (qs ! j))"
  using rq_ok_queue [OF assms(1,2)] rq_ok_threads [OF assms(1,2), of j] assms(3) by (auto simp: queue_ok_def)

text \<open>Writing the state of a queued thread, or of one that is on no list.\<close>

lemma rq_ok_state:
  assumes inv: "rq_ok kend L s qs fl" and t: "page_aligned t" "t \<notin> set fl" "\<And>j. j < length qs \<Longrightarrow> t \<notin> set (map fst (qs ! j))"
  shows "rq_ok kend L (s\<lparr>mem := set_fld32 (mem s) t T_STATE v\<rparr>) qs fl"
proof (rule rq_ok_same [OF inv])
  show "rq_same {t} s (s\<lparr>mem := set_fld32 (mem s) t T_STATE v\<rparr>)" by (intro rq_same_mem only_pages_set_fld32 t(1)) simp
qed (use t in auto)

lemma runnable_state:
  assumes "page_aligned t" "page_aligned x"
  shows "runnable (set_fld32 m t T_STATE (state_code v)) x = (if x = t then v = RUNNABLE else runnable m x)"
  using assms by (cases v) (simp_all add: runnable_def thread_state_def fld32_set_fld32)

lemma rq_ok_current:
  assumes "rq_ok kend L s qs fl"
  shows "rq_ok kend L (upd_cpu (Cpu i) (\<lambda>c. c\<lparr>current_thread := t\<rparr>) s) qs fl"
proof -
  let ?s = "upd_cpu (Cpu i) (\<lambda>c. c\<lparr>current_thread := t\<rparr>) s"
  have "queue_ok kend L fl (mem ?s) (percpus ?s ! j) q = queue_ok kend L fl (mem s) (percpus s ! j) q" for j q
    by (cases "i < length (percpus s)"; cases "i = j") (simp_all add: upd_cpu_def queue_ok_def list_update_beyond)
  then show ?thesis using assms unfolding rq_ok_def by (simp add: upd_cpu_def kmem_inv_def)
qed

lemma coop_round_spec:
  assumes inv: "rq_ok kend L s qs fl" and i: "i < length qs" and me: "mycpu me s = Cpu i" and q: "qs ! i = (n, t) # vs"
    and run: "\<forall>x \<in> set (map snd (qs ! i)). runnable (mem s) x \<and> x \<noteq> idle_thread (percpus s ! i)"
  shows "\<exists>s'. coop_round me (Cpu i) s = Some (t, s') \<and> rq_ok kend L s' (qs[i := rotate1 (qs ! i)]) fl \<and> mycpu me s' = Cpu i \<and>
     (\<forall>x \<in> set (map snd (qs ! i)). runnable (mem s') x \<and> x \<noteq> idle_thread (percpus s' ! i))"
proof -
  let ?s0 = "set_if me True s" and ?qs = "qs[i := rotate1 (qs ! i)]"
  have inv0: "rq_ok kend L ?s0 qs fl" using inv by (simp add: rq_ok_set_if)
  have m0: "mem ?s0 = mem s" "percpus ?s0 = percpus s" "freelist ?s0 = freelist s" by (simp_all add: set_if_def)
  have lens: "i < length (percpus s)" using inv i by (auto simp: rq_ok_def)
  have "find (\<lambda>x. runnable (mem ?s0) (snd x)) (qs ! i) = Some (n, t)" using run q m0 by simp
  with sched_get_next_spec [OF inv0 i, of me] me obtain list us vs' where
    g: "qs ! i = us @ (n, t) # vs'" "\<forall>x \<in> set us. \<not> runnable (mem s) (snd x)"
      "sched_get_next me ?s0 = Some (t, set_queue i (mem s) (freelist s) list (num_threads (percpus s ! i)) ?s0)"
      "rq_ok kend L (set_queue i (mem s) (freelist s) list (num_threads (percpus s ! i)) ?s0) (qs[i := vs' @ us @ [(n, t)]]) fl"
    by (auto simp: m0)
  define s1 where "s1 = set_queue i (mem s) (freelist s) list (num_threads (percpus s ! i)) ?s0"
  have us: "us = []" using g(1,2) run by (cases us) auto
  then have inv1: "rq_ok kend L s1 ?qs fl" using g(1,4) q by (simp add: s1_def)
  note tp = rq_ok_thread_page [OF inv i, of t]
  have t: "page_aligned t" "t \<noteq> 0" "t \<notin> set fl" "\<And>j. j < length ?qs \<Longrightarrow> t \<notin> set (map fst (?qs ! j))"
    using tp rq_ok_threads [OF inv1, of i] i q by (auto simp: nth_list_update)
  define s2 where "s2 = upd_cpu (Cpu i) (\<lambda>c. c\<lparr>current_thread := t\<rparr>) s1"
  have inv2: "rq_ok kend L s2 ?qs fl"
    unfolding s2_def by (rule rq_ok_current [OF inv1])
  let ?s3 = "s2\<lparr>mem := set_fld32 (mem s2) t T_STATE (state_code ON_CPU)\<rparr>"
  let ?s4 = "?s3\<lparr>mem := set_fld32 (mem ?s3) t T_STATE (state_code RUNNABLE)\<rparr>"
  have my: "mycpu me s2 = Cpu i" using me by (simp add: s2_def s1_def)
  have c: "current_thread (percpus s2 ! i) = t" "idle_thread (percpus s2 ! i) = idle_thread (percpus s ! i)" "mem s2 = mem s"
    using lens m0 by (simp_all add: s2_def s1_def upd_cpu_def set_queue_def)
  have "sched_run_pick me (Cpu i) s = Some (t, ?s3)"
    using g(3) t(2) by (simp add: sched_run_pick_def s1_def s2_def Let_def)
  moreover have "sched_yield (\<lambda>_ _ s. s) me ?s3 = ?s4"
    using my c t(2) run q by (simp add: sched_yield_def the_cpu_def Let_def)
  ultimately have "coop_round me (Cpu i) s = Some (t, ?s4)" by (simp add: coop_round_def)
  moreover have "rq_ok kend L ?s3 ?qs fl" by (rule rq_ok_state [OF inv2 t(1,3,4)])
  then have "rq_ok kend L ?s4 ?qs fl" by (rule rq_ok_state [OF _ t(1,3,4)])
  moreover have "runnable (mem ?s4) x" if "x \<in> set (map snd (qs ! i))" for x
    using run that c(3) runnable_state [OF t(1) rq_ok_thread_page(1) [OF inv i that], of "mem ?s3" RUNNABLE]
      runnable_state [OF t(1) rq_ok_thread_page(1) [OF inv i that], of "mem s" ON_CPU] by (auto split: if_splits)
  ultimately show ?thesis using my c run by (intro exI [of _ ?s4]) simp
qed

lemma coop_rounds_spec:
  assumes "rq_ok kend L s qs fl" "i < length qs" "mycpu me s = Cpu i" "qs ! i \<noteq> []"
    and "\<forall>x \<in> set (map snd (qs ! i)). runnable (mem s) x \<and> x \<noteq> idle_thread (percpus s ! i)"
  shows "\<exists>s'. coop_rounds k me (Cpu i) s = Some (map (\<lambda>j. snd (qs ! i ! (j mod length (qs ! i)))) [0..<k], s') \<and>
     rq_ok kend L s' (qs[i := rotate k (qs ! i)]) fl"
  using assms
proof (induction k arbitrary: s qs)
  case 0
  then show ?case by simp
next
  case (Suc k)
  obtain n t vs where q: "qs ! i = (n, t) # vs" using Suc.prems(4) by (cases "qs ! i") auto
  obtain s1 where s1: "coop_round me (Cpu i) s = Some (t, s1)" "rq_ok kend L s1 (qs[i := rotate1 (qs ! i)]) fl" "mycpu me s1 = Cpu i"
    "\<forall>x \<in> set (map snd (qs ! i)). runnable (mem s1) x \<and> x \<noteq> idle_thread (percpus s1 ! i)"
    using coop_round_spec [OF Suc.prems(1,2,3) q Suc.prems(5)] by blast
  let ?r = "rotate1 (qs ! i)" and ?l = "length (qs ! i)"
  have nth: "qs[i := ?r] ! i = ?r" using Suc.prems(2) by simp
  obtain s' where s': "coop_rounds k me (Cpu i) s1 = Some (map (\<lambda>j. snd (?r ! (j mod ?l))) [0..<k], s')"
    "rq_ok kend L s' ((qs[i := ?r])[i := rotate k ?r]) fl"
    using Suc.IH [OF s1(2) _ s1(3)] Suc.prems(2,4) s1(4) unfolding nth by auto
  have "?r ! (j mod ?l) = qs ! i ! (Suc j mod ?l)" for j
    using nth_rotate1 [of "j mod ?l" "qs ! i"] Suc.prems(4) by (simp add: mod_Suc_eq)
  then have "t # map (\<lambda>j. snd (?r ! (j mod ?l))) [0..<k] = map (\<lambda>j. snd (qs ! i ! (j mod ?l))) [0..<Suc k]"
    using q by (simp add: upt_conv_Cons map_Suc_upt [symmetric] del: upt_Suc)
  moreover have "rotate k ?r = rotate (Suc k) (qs ! i)" by (simp add: rotate_def funpow_swap1)
  ultimately show ?case using s1(1) s' by simp
qed

section \<open>Adding and removing threads\<close>

lemma runqueue_remove_spec:
  assumes inv: "rq_ok kend L s qs fl" and i: "i < length qs"
  shows "if t \<in> set (map snd (qs ! i)) then
       \<exists>m f list n q. runqueue_remove_unlocked kend (Cpu i) t s = Some (Inr (True, set_queue i m f list (num_threads (percpus s ! i) - 1) s)) \<and>
         rq_ok kend L (set_queue i m f list (num_threads (percpus s ! i) - 1) s) (qs[i := q]) (n # fl) \<and>
         map snd q = remove1 t (map snd (qs ! i)) \<and> set q \<subseteq> set (qs ! i) \<and> n \<in> set (map fst (qs ! i)) \<and> only_pages (set (map fst (qs ! i))) (mem s) m
     else runqueue_remove_unlocked kend (Cpu i) t s = Some (Inr (False, s))"
proof (cases "find (\<lambda>x. snd x = t) (qs ! i)")
  case None
  then have "t \<notin> set (map snd (qs ! i))" by (auto simp: find_None_iff)
  then show ?thesis using runqueue_remove_find [OF inv i, of t] None by simp
next
  case (Some x)
  from find_split [OF this] obtain us n vs where q: "qs ! i = us @ (n, t) # vs" "\<forall>y \<in> set us. snd y \<noteq> t" and x: "x = (n, t)"
    by (metis prod.collapse)
  have r: "remove1 t (map snd (qs ! i)) = map snd (us @ vs)" using q by (auto simp: remove1_append)
  from remove_at_spec [OF inv i q(1)] obtain m f list where a:
    "remove_at kend (Cpu i) s n = Inr (True, set_queue i m f list (num_threads (percpus s ! i) - 1) s)"
    "rq_ok kend L (set_queue i m f list (num_threads (percpus s ! i) - 1) s) (qs[i := us @ vs]) (n # fl)"
    "only_pages (set (map fst (qs ! i))) (mem s) m" by blast
  have "runqueue_remove_unlocked kend (Cpu i) t s = Some (Inr (True, set_queue i m f list (num_threads (percpus s ! i) - 1) s))"
    using runqueue_remove_find [OF inv i, of t] Some x a(1) by simp
  moreover have t: "t \<in> set (map snd (qs ! i))" "set (us @ vs) \<subseteq> set (qs ! i)" "n \<in> set (map fst (qs ! i))" using q(1) by auto
  ultimately show ?thesis unfolding if_P [OF t(1)] using a(2,3) r [symmetric] by blast
qed

lemma rq_ok_no_lock: "\<lbrakk>rq_ok kend L s qs fl; i < length qs\<rbrakk> \<Longrightarrow> L \<notin> set (map fst (qs ! i))"
  using rq_ok_queue [of kend L s qs fl i] by (auto simp: queue_ok_def)

lemma remove_from_cpus_spec:
  assumes "rq_ok kend L s qs fl" "lock_in L lk" "lock_state lk me w b n s" "k \<le> length qs"
  shows "\<exists>s' qs' fl'. remove_from_cpus kend t [k..<length qs] s = Some (Inr s') \<and> rq_ok kend L s' qs' fl' \<and> lock_state lk me w b n s' \<and>
     threads_of qs' = take k (threads_of qs) @ drop_thread t (drop k (threads_of qs))"
  using assms(4)
proof (induction "length qs - k" arbitrary: k)
  case 0
  then show ?case using assms by (auto simp: threads_of_def intro!: exI [of _ qs])
next
  case (Suc d)
  then have k: "k < length qs" "d = length qs - Suc k" "Suc k \<le> length qs" by auto
  have upt: "[k..<length qs] = k # [Suc k..<length qs]" using k(1) by (rule upt_conv_Cons)
  let ?T = "threads_of qs"
  have T: "k < length ?T" "?T ! k = map snd (qs ! k)" using k(1) by (simp_all add: threads_of_def)
  have drop: "drop k ?T = ?T ! k # drop (Suc k) ?T" using T(1) by (simp add: Cons_nth_drop_Suc)
  show ?case
  proof (cases "t \<in> set (map snd (qs ! k))")
    case True
    then obtain m f list nd q where r: "runqueue_remove_unlocked kend (Cpu k) t s = Some (Inr (True, set_queue k m f list (num_threads (percpus s ! k) - 1) s))"
      "rq_ok kend L (set_queue k m f list (num_threads (percpus s ! k) - 1) s) (qs[k := q]) (nd # fl)"
      "map snd q = remove1 t (map snd (qs ! k))" "only_pages (set (map fst (qs ! k))) (mem s) m"
      using runqueue_remove_spec [OF assms(1) k(1), of t] by auto
    have "lock_state lk me w b n (set_queue k m f list (num_threads (percpus s ! k) - 1) s)"
      by (rule lock_state_set_queue [OF assms(2,3) r(4) rq_ok_no_lock [OF assms(1) k(1)]])
    moreover have "threads_of (qs[k := q]) = take k ?T @ drop_thread t (drop k ?T)"
      using True T r(3) k(1) unfolding drop by (simp add: threads_of_def map_update upd_conv_take_nth_drop take_map drop_map)
    ultimately show ?thesis using r(1,2) unfolding upt by (auto intro!: exI [of _ "qs[k := q]"])
  next
    case False
    then have "runqueue_remove_unlocked kend (Cpu k) t s = Some (Inr (False, s))"
      using runqueue_remove_spec [OF assms(1) k(1), of t] by simp
    moreover have "take k ?T @ drop_thread t (drop k ?T) = take (Suc k) ?T @ drop_thread t (drop (Suc k) ?T)"
      using False T unfolding drop by (simp add: take_Suc_conv_app_nth)
    ultimately show ?thesis using Suc.hyps(1) [OF k(2,3)] unfolding upt by simp
  qed
qed

lemma sched_remove_spec:
  assumes inv: "rq_ok kend L s qs fl" and lk: "lock_in L lk" "lock_state lk me 0 b n s" and t: "t \<noteq> 0"
  shows "\<exists>s' qs' fl'. sched_remove_thread kend lk me t s = Some (Inr s') \<and> rq_ok kend L s' qs' fl' \<and> lock_state lk me 0 b n s' \<and>
     threads_of qs' = drop_thread t (threads_of qs)"
proof -
  obtain s1 where s1: "acquire_spinlock me lk s = Some s1" "lock_state lk me 1 b (Suc n) s1" "rq_same {L} s s1"
    using acquire_sched_lock [OF lk] by blast
  have inv1: "rq_ok kend L s1 qs fl" by (rule rq_ok_lock [OF inv s1(3)])
  have len: "unat (ncpu s1) = length qs" using inv1 by (simp add: rq_ok_def)
  obtain s2 qs' fl' where s2: "remove_from_cpus kend t [0..<length qs] s1 = Some (Inr s2)" "rq_ok kend L s2 qs' fl'"
    "lock_state lk me 1 b (Suc n) s2" "threads_of qs' = drop_thread t (threads_of qs)"
    using remove_from_cpus_spec [OF inv1 lk(1) s1(2), of 0 t] by auto
  obtain s3 where s3: "release_spinlock me lk s2 = Inr s3" "lock_state lk me 0 b n s3" "rq_same {L} s2 s3"
    using release_sched_lock [OF lk(1) s2(3)] by blast
  have "sched_remove_thread kend lk me t s = Some (Inr s3)" using s1(1) s2(1) s3(1) t len by (simp add: sched_remove_thread_def)
  with rq_ok_lock [OF s2(2) s3(3)] s3(2) s2(4) show ?thesis by blast
qed

lemma sched_add_spec:
  assumes inv: "rq_ok kend L s qs (p # fl)" and lk: "lock_in L lk" "lock_state lk me 0 b n s"
    and c: "c < length qs" "cpu_idx = int c \<or> cpu_idx < 0 \<and> c = unat (sched_find_least_loaded s)"
    and t: "page_aligned t" "t \<noteq> 0" "t \<notin> set (p # fl)" "t \<noteq> L" "\<And>j. j < length qs \<Longrightarrow> t \<notin> set (map fst (qs ! j))"
  shows "\<exists>s'. sched_add_thread lk me t cpu_idx s = Some (Inr s') \<and> rq_ok kend L s' (qs[c := qs ! c @ [(p, t)]]) fl \<and>
     lock_state lk me 0 b n s' \<and> runnable (mem s') t"
proof -
  obtain s1 where s1: "acquire_spinlock me lk s = Some s1" "lock_state lk me 1 b (Suc n) s1" "rq_same {L} s s1"
    using acquire_sched_lock [OF lk] by blast
  have inv1: "rq_ok kend L s1 qs (p # fl)" by (rule rq_ok_lock [OF inv s1(3)])
  have len: "length qs = unat (ncpu s)" "ncpu s1 = ncpu s" "unat (ncpu s) \<le> length (percpus s)"
    using inv s1(3) by (auto simp: rq_ok_def rq_same_def)
  have step: "least_loaded_step s1 i = least_loaded_step s i" if "i < unat (ncpu s)" for i
    using rq_same_cpu(2) [OF s1(3), of i] that len by (auto simp: least_loaded_step_def queue_fields_def)
  have "sched_find_least_loaded s1 = sched_find_least_loaded s"
    unfolding sched_find_least_loaded_def len(2) using step by (intro arg_cong [of _ _ snd] fold_cong) auto
  then have target: "(if cpu_idx < 0 then unat (sched_find_least_loaded s1) else nat cpu_idx) = c" using c(2) by auto
  have "of_nat c < ncpu s1"
    using c(1) len unsigned_less [of "ncpu s"] by (simp add: word_less_nat_alt unat_of_nat take_bit_nat_eq_self)
  then have valid: "\<not> (cpu_idx \<ge> 0 \<and> word_of_int cpu_idx \<ge> ncpu s1)" using c(2) by auto
  define s2 where "s2 = s1\<lparr>mem := set_fld32 (mem s1) t T_STATE (state_code RUNNABLE)\<rparr>"
  have inv2: "rq_ok kend L s2 qs (p # fl)" unfolding s2_def using t by (intro rq_ok_state [OF inv1]) auto
  have fr2: "only_pages {t} (mem s1) (mem s2)" unfolding s2_def using only_pages_set_fld32 [OF t(1), of T_STATE] by simp
  have ls2: "lock_state lk me 1 b (Suc n) s2"
    using s1(2) load32_frame [OF lk(1) fr2] t(4) by (simp add: lock_state_def s2_def)
  obtain m f list where a: "runqueue_add_unlocked (Cpu c) t s2 = set_queue c m f list (num_threads (percpus s2 ! c) + 1) s2"
    "rq_ok kend L (set_queue c m f list (num_threads (percpus s2 ! c) + 1) s2) (qs[c := qs ! c @ [(p, t)]]) fl"
    "only_pages (set (map fst (qs ! c) @ [p])) (mem s2) m"
    using runqueue_add_spec [OF inv2 c(1) t] by blast
  let ?s3 = "set_queue c m f list (num_threads (percpus s2 ! c) + 1) s2"
  have "L \<notin> set (map fst (qs ! c) @ [p])" using rq_ok_no_lock [OF inv c(1)] inv by (simp add: rq_ok_def)
  note ls3 = lock_state_set_queue [OF lk(1) ls2 a(3) this, of c f list "num_threads (percpus s2 ! c) + 1"]
  have "runnable (mem s2) t" using runnable_state [OF t(1,1), of "mem s1" RUNNABLE] by (simp add: s2_def)
  then have run3: "runnable m t" using runnable_frame [OF a(3) t(1)] t(3) t(5) [OF c(1)] by auto
  define s4 where "s4 = log_sched ''Added thread %p to CPU %d (now has %d threads)''
    [ANum t, num_arg (cpu_index (the_cpu (Cpu c) ?s3)), num_arg (num_threads (the_cpu (Cpu c) ?s3))] ?s3"
  have s4: "lock_state lk me 1 b (Suc n) s4" "rq_ok kend L s4 (qs[c := qs ! c @ [(p, t)]]) fl" "runnable (mem s4) t"
    using ls3 a(2) run3 by (simp_all add: s4_def)
  obtain s5 where s5: "release_spinlock me lk s4 = Inr s5" "lock_state lk me 0 b n s5" "rq_same {L} s4 s5"
    using release_sched_lock [OF lk(1) s4(1)] by blast
  have "sched_add_thread lk me t cpu_idx s = Some (Inr s5)"
    unfolding sched_add_thread_def s1(1) bind.bind_lunit if_not_P [OF t(2)] if_not_P [OF valid] Let_def target
    using s5(1) a(1) by (simp add: s4_def s2_def)
  moreover have "runnable (mem s5) t" using s4(3) runnable_frame [of "{L}" "mem s4" "mem s5" t] s5(3) t by (simp add: rq_same_def)
  ultimately show ?thesis using rq_ok_lock [OF s4(2) s5(3)] s5(2) by blast
qed

section \<open>Load balancing\<close>

lemma scan_ok_step:
  assumes "scan_ok s k r" "k < 2 ^ 32"
  shows "scan_ok s (Suc k) (balance_step s k r)"
proof -
  obtain a b c d where r: "r = (a, b, c, d)" by (cases r)
  have k: "unat (of_nat k :: u32) = k" using assms(2) by (simp add: unat_of_nat take_bit_nat_eq_self)
  show ?thesis
  proof (cases "started (percpus s ! k)")
    case True
    let ?l = "num_threads (percpus s ! k)"
    have step: "balance_step s k r = (if ?l > a then ?l else a, if ?l > a then of_nat k else b, if ?l < c then ?l else c, if ?l < c then of_nat k else d)"
      using True by (simp add: balance_step_def r Let_def)
    have le: "num_threads (percpus s ! j) \<le> (if ?l > a then ?l else a) \<and> (if ?l < c then ?l else c) \<le> num_threads (percpus s ! j)"
      if j: "j < Suc k" "started (percpus s ! j)" for j
    proof (cases "j = k")
      case False
      then have "num_threads (percpus s ! j) \<le> a" "c \<le> num_threads (percpus s ! j)" using assms(1) j r by (auto simp: scan_ok_def)
      then show ?thesis using order.trans order.strict_implies_order by auto
    qed (auto simp: not_less)
    have mx: "a = 0 \<or> unat b < k \<and> started (percpus s ! unat b) \<and> num_threads (percpus s ! unat b) = a"
      and mn: "c = -1 \<or> unat d < k \<and> started (percpus s ! unat d) \<and> num_threads (percpus s ! unat d) = c"
      using assms(1) r by (auto simp: scan_ok_def)
    show ?thesis unfolding step scan_ok_def prod.case
      using le mx mn True k by (cases "?l > a"; cases "?l < c") (simp_all, (blast intro: less_SucI)+)
  next
    case False
    then show ?thesis using assms(1) r by (auto simp: scan_ok_def balance_step_def less_Suc_eq)
  qed
qed

lemma scan_ok_fold: "k \<le> 2 ^ 32 \<Longrightarrow> scan_ok s k (fold (balance_step s) [0..<k] (0, 0, -1, 0))"
proof (induction k)
  case (Suc k)
  then show ?case using scan_ok_step [of s k] by simp
qed (simp add: scan_ok_def)

lemma scan_gap:
  assumes ok: "scan_ok s k (max_load, max_cpu, min_load, min_cpu)" and gap: "\<not> max_load - min_load < LOAD_BALANCE_THRESHOLD"
  shows "unat min_load + 2 \<le> unat max_load" "unat max_cpu < k" "started (percpus s ! unat max_cpu)" "num_threads (percpus s ! unat max_cpu) = max_load"
    "unat min_cpu < k" "started (percpus s ! unat min_cpu)" "num_threads (percpus s ! unat min_cpu) = min_load"
proof -
  have le: "\<forall>j < k. started (percpus s ! j) \<longrightarrow> num_threads (percpus s ! j) \<le> max_load \<and> min_load \<le> num_threads (percpus s ! j)"
    and mx: "max_load = 0 \<or> unat max_cpu < k \<and> started (percpus s ! unat max_cpu) \<and> num_threads (percpus s ! unat max_cpu) = max_load"
    and mn: "min_load = -1 \<or> unat min_cpu < k \<and> started (percpus s ! unat min_cpu) \<and> num_threads (percpus s ! unat min_cpu) = min_load"
    using ok by (auto simp: scan_ok_def)
  have "min_load \<noteq> -1"
  proof
    assume m: "min_load = -1"
    then have "max_load \<noteq> 0" using gap by auto
    then have "(-1 :: u32) \<le> max_load" using mx le m by blast
    then have "max_load = -1" by (simp add: word_order.extremum_unique)
    then show False using gap m by simp
  qed
  with mn show n: "unat min_cpu < k" "started (percpus s ! unat min_cpu)" "num_threads (percpus s ! unat min_cpu) = min_load" by auto
  then have ml: "min_load \<le> max_load" using le by blast
  have "max_load \<noteq> 0"
  proof
    assume "max_load = 0"
    then have "min_load = 0" using ml by simp
    with \<open>max_load = 0\<close> gap show False by simp
  qed
  with mx show "unat max_cpu < k" "started (percpus s ! unat max_cpu)" "num_threads (percpus s ! unat max_cpu) = max_load" by auto
  have "unat (max_load - min_load) = unat max_load - unat min_load" using ml by (rule unat_sub)
  moreover have "2 \<le> unat (max_load - min_load)" using gap by (simp add: word_less_nat_alt)
  ultimately show "unat min_load + 2 \<le> unat max_load" by linarith
qed

text \<open>A queue has fewer nodes than there are pages.\<close>

lemma node_list_length:
  assumes "node_list m list ns" "\<forall>n \<in> set (map fst ns). valid_page kend n"
  shows "length ns \<le> 32768"
proof -
  have inj: "inj_on (\<lambda>p :: u64. unat p div 4096) (set (map fst ns))"
  proof (rule inj_onI)
    fix p q :: u64
    assume "p \<in> set (map fst ns)" "q \<in> set (map fst ns)" "unat p div 4096 = unat q div 4096"
    moreover from this have "unat p mod 4096 = 0" "unat q mod 4096 = 0" using assms(2) by (auto simp: valid_page_def page_aligned_def)
    ultimately have "unat p = unat q" by (metis mult_div_mod_eq)
    then show "p = q" by (simp add: word_unat_eq_iff)
  qed
  have "(\<lambda>p :: u64. unat p div 4096) ` set (map fst ns) \<subseteq> {..<32768}"
  proof
    fix x assume "x \<in> (\<lambda>p :: u64. unat p div 4096) ` set (map fst ns)"
    then obtain p where p: "p \<in> set (map fst ns)" "x = unat p div 4096" by auto
    then have "unat p < 134217728" using assms(2) by (auto simp: valid_page_def word_less_nat_alt)
    then show "x \<in> {..<32768}" using p(2) by simp
  qed
  from card_inj_on_le [OF inj this finite_lessThan] have "card (set (map fst ns)) \<le> 32768" unfolding card_lessThan .
  then show ?thesis using distinct_card [OF node_list_distinct [OF assms(1)]] by simp
qed

lemma queue_load:
  assumes "rq_ok kend L s qs fl" "i < length qs"
  shows "unat (num_threads (percpus s ! i)) = length (threads_of qs ! i)"
proof -
  have q: "queue_ok kend L fl (mem s) (percpus s ! i) (qs ! i)" by (rule rq_ok_queue [OF assms])
  then have "length (qs ! i) \<le> 32768" by (intro node_list_length [of "mem s"]) (auto simp: queue_ok_def)
  then show ?thesis using q assms(2) by (simp add: queue_ok_def threads_of_def unat_of_nat take_bit_nat_eq_self)
qed

lemma find_map: "find P (map f xs) = map_option f (find (\<lambda>x. P (f x)) xs)"
  by (induction xs) simp_all

lemma migrate_at_spec:
  assumes inv: "rq_ok kend L s qs fl" and lk: "lock_in L lk" "lock_state lk me w b k s"
    and src: "unat max_cpu < length qs" "unat min_cpu < length qs" "max_cpu \<noteq> min_cpu" and x: "(n, t) \<in> set (qs ! unat max_cpu)"
  shows "\<exists>s' qs'. migrate_at kend max_cpu min_cpu s n = Some (Inr s') \<and> rq_ok kend L s' qs' fl \<and> lock_state lk me w b k s' \<and>
     threads_of qs' = (threads_of qs)[unat max_cpu := remove1 t (threads_of qs ! unat max_cpu), unat min_cpu := threads_of qs ! unat min_cpu @ [t]]"
proof -
  let ?i = "unat max_cpu" and ?j = "unat min_cpu"
  have ij: "?i \<noteq> ?j" using src(3) by (simp add: word_unat_eq_iff)
  have nl: "node_list (mem s) (run_queue (percpus s ! ?i)) (qs ! ?i)" using rq_ok_queue [OF inv src(1)] by (simp add: queue_ok_def)
  have data: "fld (mem s) n N_DATA = t" using node_list_data [OF nl x] by blast
  have tin: "t \<in> set (map snd (qs ! ?i))" using x by force
  note tp = rq_ok_thread_page [OF inv src(1) tin]
  from runqueue_remove_spec [OF inv src(1), of t] tin obtain m f list nd q where
    r: "runqueue_remove_unlocked kend (Cpu ?i) t s = Some (Inr (True, set_queue ?i m f list (num_threads (percpus s ! ?i) - 1) s))"
      "rq_ok kend L (set_queue ?i m f list (num_threads (percpus s ! ?i) - 1) s) (qs[?i := q]) (nd # fl)"
      "map snd q = remove1 t (map snd (qs ! ?i))" "set q \<subseteq> set (qs ! ?i)" "nd \<in> set (map fst (qs ! ?i))"
      "only_pages (set (map fst (qs ! ?i))) (mem s) m"
    unfolding if_P [OF tin] by blast
  define s1 where "s1 = set_queue ?i m f list (num_threads (percpus s ! ?i) - 1) s"
  have ls1: "lock_state lk me w b k s1"
    unfolding s1_def by (rule lock_state_set_queue [OF lk r(6) rq_ok_no_lock [OF inv src(1)]])
  have inv1: "rq_ok kend L s1 (qs[?i := q]) (nd # fl)" using r(2) by (simp add: s1_def)
  have fresh: "t \<notin> set (nd # fl)" using tp(3) tp(5) [OF src(1)] r(5) by auto
  have nodes: "t \<notin> set (map fst (qs[?i := q] ! j))" if "j < length (qs[?i := q])" for j
    using tp(5) [of j] that r(4) src(1) by (cases "j = ?i") auto
  have jj: "?j < length (qs[?i := q])" using src(2) by simp
  obtain m2 f2 list2 where a: "runqueue_add_unlocked (Cpu ?j) t s1 = set_queue ?j m2 f2 list2 (num_threads (percpus s1 ! ?j) + 1) s1"
    "rq_ok kend L (set_queue ?j m2 f2 list2 (num_threads (percpus s1 ! ?j) + 1) s1) ((qs[?i := q])[?j := qs[?i := q] ! ?j @ [(nd, t)]]) fl"
    "only_pages (set (map fst (qs[?i := q] ! ?j) @ [nd])) (mem s1) m2"
    using runqueue_add_spec [OF inv1 jj tp(1,2) fresh tp(4) nodes] by blast
  have "L \<notin> set (map fst (qs[?i := q] ! ?j) @ [nd])"
    using rq_ok_no_lock [OF inv1 jj] rq_ok_no_lock [OF inv src(1)] r(5) by auto
  note ls2 = lock_state_set_queue [OF lk(1) ls1 a(3) this, of ?j f2 list2 "num_threads (percpus s1 ! ?j) + 1"]
  have "threads_of ((qs[?i := q])[?j := qs[?i := q] ! ?j @ [(nd, t)]]) =
      (threads_of qs)[?i := remove1 t (threads_of qs ! ?i), ?j := threads_of qs ! ?j @ [t]]"
    using src r(3) ij by (simp add: threads_of_def map_update)
  moreover have "migrate_at kend max_cpu min_cpu s n = Some (Inr (log_sched ''Migrated thread %p from CPU %d to CPU %d''
      [ANum t, num_arg max_cpu, num_arg min_cpu] (set_queue ?j m2 f2 list2 (num_threads (percpus s1 ! ?j) + 1) s1)))"
    unfolding migrate_at_def data r(1) Let_def by (simp add: a(1) flip: s1_def)
  ultimately show ?thesis using a(2) ls2 by (metis log_sched_simps(4,5))
qed

lemma migrate_loop_spec:
  assumes inv: "rq_ok kend L s qs fl" and lk: "lock_in L lk" "lock_state lk me w b k s"
    and src: "unat max_cpu < length qs" "unat min_cpu < length qs" "max_cpu \<noteq> min_cpu" and ne: "qs ! unat max_cpu \<noteq> []"
  shows "\<exists>s' qs'. migrate_loop kend max_cpu min_cpu (run_queue (percpus s ! unat max_cpu)) (run_queue (percpus s ! unat max_cpu)) s = Some (Inr s') \<and>
     rq_ok kend L s' qs' fl \<and> lock_state lk me w b k s' \<and>
     threads_of qs' = move_thread (migratable s (unat max_cpu)) (unat max_cpu) (unat min_cpu) (threads_of qs)"
proof -
  let ?i = "unat max_cpu" and ?j = "unat min_cpu" and ?start = "run_queue (percpus s ! unat max_cpu)"
  have nl: "node_list (mem s) ?start (qs ! ?i)" using rq_ok_queue [OF inv src(1)] by (simp add: queue_ok_def)
  have walk: "migrate_loop kend max_cpu min_cpu ?start ?start s =
      (case find (\<lambda>x. migratable s ?i (snd x)) (qs ! ?i) of Some x \<Rightarrow> migrate_at kend max_cpu min_cpu s (fst x) | None \<Rightarrow> Some (Inr s))"
    by (rule queue_walk [OF nl ne]) (subst migrate_loop.simps, simp add: Let_def migrate_at_def migratable_def runnable_def the_cpu_def)
  have T: "threads_of qs ! ?i = map snd (qs ! ?i)" using src(1) by (simp add: threads_of_def)
  have find: "find (migratable s ?i) (threads_of qs ! ?i) = map_option snd (find (\<lambda>x. migratable s ?i (snd x)) (qs ! ?i))"
    unfolding T by (rule find_map)
  show ?thesis
  proof (cases "find (\<lambda>x. migratable s ?i (snd x)) (qs ! ?i)")
    case None
    then show ?thesis using walk find inv lk(2) by (auto simp: move_thread_def)
  next
    case (Some x)
    then have "(fst x, snd x) \<in> set (qs ! ?i)" using find_split [OF Some] by auto
    from migrate_at_spec [OF inv lk src this] Some find walk show ?thesis by (simp add: move_thread_def)
  qed
qed

lemma imbalanced_iff_gap:
  assumes inv: "rq_ok kend L s qs fl" and ok: "scan_ok s (length qs) (max_load, max_cpu, min_load, min_cpu)"
  shows "imbalanced s (threads_of qs) \<longleftrightarrow> \<not> max_load - min_load < LOAD_BALANCE_THRESHOLD"
    "imbalanced s (threads_of qs) \<Longrightarrow> extremes s (threads_of qs) (unat max_cpu) (unat min_cpu)"
    "imbalanced s (threads_of qs) \<Longrightarrow> max_cpu \<noteq> min_cpu \<and> 2 \<le> length (threads_of qs ! unat max_cpu)"
proof -
  note load = queue_load [OF inv]
  have lenT: "length (threads_of qs) = length qs" by (simp add: threads_of_def)
  have le: "num_threads (percpus s ! j) \<le> max_load" "min_load \<le> num_threads (percpus s ! j)" if "j < length qs" "started (percpus s ! j)" for j
    using ok that by (auto simp: scan_ok_def)
  have to: "\<not> max_load - min_load < LOAD_BALANCE_THRESHOLD" if im: "imbalanced s (threads_of qs)"
  proof -
    from im obtain i j where ij: "i < length qs" "j < length qs" "started (percpus s ! i)" "started (percpus s ! j)"
      "length (threads_of qs ! j) + 2 \<le> length (threads_of qs ! i)" by (auto simp: imbalanced_def lenT)
    have "unat (num_threads (percpus s ! i)) \<le> unat max_load" "unat min_load \<le> unat (num_threads (percpus s ! j))"
      using le ij by (simp_all add: word_le_nat_alt)
    then have gap: "unat min_load + 2 \<le> unat max_load" using ij(5) load [OF ij(1)] load [OF ij(2)] by linarith
    then have "unat (max_load - min_load) = unat max_load - unat min_load" by (intro unat_sub) (simp add: word_le_nat_alt)
    with gap have "2 \<le> unat (max_load - min_load)" by linarith
    then show ?thesis by (simp add: word_less_nat_alt)
  qed
  have from_gap: "imbalanced s (threads_of qs) \<and> extremes s (threads_of qs) (unat max_cpu) (unat min_cpu) \<and>
      max_cpu \<noteq> min_cpu \<and> 2 \<le> length (threads_of qs ! unat max_cpu)" if "\<not> max_load - min_load < LOAD_BALANCE_THRESHOLD"
  proof -
    note g = scan_gap [OF ok that]
    have l: "length (threads_of qs ! unat max_cpu) = unat max_load" "length (threads_of qs ! unat min_cpu) = unat min_load"
      using load [OF g(2)] load [OF g(5)] g(4,7) by simp_all
    have "length (threads_of qs ! unat min_cpu) \<le> length (threads_of qs ! j) \<and> length (threads_of qs ! j) \<le> length (threads_of qs ! unat max_cpu)"
      if "j < length qs" "started (percpus s ! j)" for j
      using le [OF that] load [OF that(1)] l by (simp add: word_le_nat_alt)
    then have "extremes s (threads_of qs) (unat max_cpu) (unat min_cpu)" using g lenT by (simp add: extremes_def)
    moreover have "imbalanced s (threads_of qs)" unfolding imbalanced_def lenT using g l by (metis (no_types, lifting))
    moreover have "max_cpu \<noteq> min_cpu" using g(1) l by auto
    ultimately show ?thesis using g(1) l by linarith
  qed
  show "imbalanced s (threads_of qs) \<longleftrightarrow> \<not> max_load - min_load < LOAD_BALANCE_THRESHOLD" using to from_gap by blast
  show "imbalanced s (threads_of qs) \<Longrightarrow> extremes s (threads_of qs) (unat max_cpu) (unat min_cpu)"
    "imbalanced s (threads_of qs) \<Longrightarrow> max_cpu \<noteq> min_cpu \<and> 2 \<le> length (threads_of qs ! unat max_cpu)" using to from_gap by blast+
qed

lemma find_cong_set: "(\<And>x. x \<in> set xs \<Longrightarrow> P x = Q x) \<Longrightarrow> find P xs = find Q xs"
  by (induction xs) auto

lemma move_thread_same:
  assumes "rq_ok kend L s qs fl" "rq_same {L} s s'" "src < length qs"
  shows "move_thread (migratable s' src) src dst (threads_of qs) = move_thread (migratable s src) src dst (threads_of qs)"
proof -
  have src: "src < length (percpus s)" using assms(1,3) by (auto simp: rq_ok_def)
  have "migratable s' src t = migratable s src t" if "t \<in> set (threads_of qs ! src)" for t
  proof -
    have "page_aligned t" "t \<noteq> L" using that assms(3) rq_ok_thread_page [OF assms(1,3), of t] by (auto simp: threads_of_def)
    then have "runnable (mem s') t = runnable (mem s) t" using assms(2) by (intro runnable_frame [of "{L}"]) (simp_all add: rq_same_def)
    then show ?thesis using rq_same_cpu(2) [OF assms(2) src] by (simp add: migratable_def queue_fields_def)
  qed
  then have "find (migratable s' src) (threads_of qs ! src) = find (migratable s src) (threads_of qs ! src)" by (rule find_cong_set)
  then show ?thesis by (simp add: move_thread_def)
qed

lemma sched_balance_spec:
  assumes inv: "rq_ok kend L s qs fl" and lk: "lock_in L lk" "lock_state lk me 0 b n s"
  shows "\<exists>s' qs'. sched_balance kend lk me s = Some (Inr s') \<and> rq_ok kend L s' qs' fl \<and> lock_state lk me 0 b n s' \<and>
     (if imbalanced s (threads_of qs) then
        \<exists>src dst. extremes s (threads_of qs) src dst \<and> threads_of qs' = move_thread (migratable s src) src dst (threads_of qs)
      else s' = s \<and> qs' = qs)"
proof -
  obtain max_load max_cpu min_load min_cpu where scan: "fold (balance_step s) [0..<unat (ncpu s)] (0, 0, -1, 0) = (max_load, max_cpu, min_load, min_cpu)"
    by (cases "fold (balance_step s) [0..<unat (ncpu s)] (0, 0, -1, 0)") auto
  have len: "length qs = unat (ncpu s)" using inv by (simp add: rq_ok_def)
  have "unat (ncpu s) < 2 ^ LENGTH(32)" by (rule unsigned_less)
  then have "unat (ncpu s) \<le> 2 ^ 32" by simp
  from scan_ok_fold [OF this, of s] have ok: "scan_ok s (length qs) (max_load, max_cpu, min_load, min_cpu)" unfolding scan len .
  note im = imbalanced_iff_gap [OF inv ok]
  show ?thesis
  proof (cases "imbalanced s (threads_of qs)")
    case False
    then have "sched_balance kend lk me s = Some (Inr s)" using im(1) by (simp add: sched_balance_def scan)
    with False inv lk(2) show ?thesis by auto
  next
    case True
    let ?i = "unat max_cpu" and ?j = "unat min_cpu"
    have ex: "extremes s (threads_of qs) ?i ?j" by (rule im(2) [OF True])
    then have ij: "?i < length qs" "?j < length qs" by (simp_all add: extremes_def threads_of_def)
    have len2: "2 \<le> length (threads_of qs ! ?i)" and neq: "max_cpu \<noteq> min_cpu" using im(3) [OF True] by auto
    then have ne: "qs ! ?i \<noteq> []" using ij(1) by (auto simp: threads_of_def)
    obtain s1 where s1: "acquire_spinlock me lk s = Some s1" "lock_state lk me 1 b (Suc n) s1" "rq_same {L} s s1"
      using acquire_sched_lock [OF lk] by blast
    have inv1: "rq_ok kend L s1 qs fl" by (rule rq_ok_lock [OF inv s1(3)])
    have nl: "node_list (mem s1) (run_queue (percpus s1 ! ?i)) (qs ! ?i)" using rq_ok_queue [OF inv1 ij(1)] by (simp add: queue_ok_def)
    have "num_threads (percpus s1 ! ?i) > 1" using queue_load [OF inv1 ij(1)] len2 by (simp add: word_less_nat_alt)
    moreover obtain s2 qs' where s2: "migrate_loop kend max_cpu min_cpu (run_queue (percpus s1 ! ?i)) (run_queue (percpus s1 ! ?i)) s1 = Some (Inr s2)"
      "rq_ok kend L s2 qs' fl" "lock_state lk me 1 b (Suc n) s2" "threads_of qs' = move_thread (migratable s1 ?i) ?i ?j (threads_of qs)"
      using migrate_loop_spec [OF inv1 lk(1) s1(2) ij neq ne] by blast
    moreover obtain s3 where s3: "release_spinlock me lk s2 = Inr s3" "lock_state lk me 0 b n s3" "rq_same {L} s2 s3"
      using release_sched_lock [OF lk(1) s2(3)] by blast
    ultimately have "sched_balance kend lk me s = Some (Inr s3)"
      using True im(1) s1(1) node_list_hd(2) [OF nl ne] by (simp add: sched_balance_def scan the_cpu_def Let_def)
    moreover have "threads_of qs' = move_thread (migratable s ?i) ?i ?j (threads_of qs)"
      using s2(4) move_thread_same [OF inv s1(3) ij(1)] by simp
    ultimately show ?thesis using True ex rq_ok_lock [OF s2(2) s3(3)] s3(2) by auto
  qed
qed

section \<open>A concrete scheduler\<close>

lemma demo_rq_simps:
  "mem demo_rq = set_fld32 (set_fld32 (set_fld (\<lambda>_. 0) 0x201000 0 0x200000) 0x300000 T_STATE 1) 0x301000 T_STATE 1"
  "freelist demo_rq = 0x201000" "percpus demo_rq = replicate MAX_CPUS (percpu_zero\<lparr>started := True\<rparr>)" "ncpu demo_rq = 2"
  "mycpu 0 demo_rq = Cpu 0" "hw_if (hw demo_rq 0) = True"
  by (simp_all only: demo_rq_def percpu_state.defs smp_sched.defs kstate.simps percpu_state.simps smp_sched.simps mycpu_def)
    (simp_all add: demo_percpu_def)

lemma demo_rq_ok: "rq_ok 0x100000 0x5000 demo_rq [[], []] [0x201000, 0x200000]"
proof -
  have pa: "page_aligned 0x201000" "page_aligned 0x200000" "page_aligned 0x300000" "page_aligned 0x301000" "page_aligned 0x5000"
    by (simp_all add: page_aligned_def)
  have "fld (mem demo_rq) 0x201000 0 = 0x200000" "fld (mem demo_rq) 0x200000 0 = 0"
    using pa by (simp_all add: demo_rq_simps fld_set_fld32 fld_set_fld) (simp add: fld_def load64_def numeral_eq_Suc)
  then have "load64 (mem demo_rq) 0x201000 = 0x200000" "load64 (mem demo_rq) 0x200000 = 0" by (simp_all add: fld_def)
  then have "kmem_inv 0x100000 demo_rq [0x201000, 0x200000]"
    using pa by (simp add: kmem_inv_def demo_rq_simps(2) valid_page_def)
  moreover have nil: "[[], []] ! i = ([] :: queue_view)" if "i < 2" for i using less_2_cases [OF that] by auto
  moreover have "queue_ok 0x100000 0x5000 [0x201000, 0x200000] (mem demo_rq) (percpus demo_rq ! i) []" if "i < 2" for i
    using that by (simp add: demo_rq_simps(3) queue_ok_def node_list_def percpu_zero_def)
  ultimately show ?thesis using pa by (simp add: rq_ok_def demo_rq_simps(4)) (simp add: demo_rq_simps(3))
qed

lemma demo_rq_runnable: "runnable (mem demo_rq) 0x300000" "runnable (mem demo_rq) 0x301000"
  by (simp_all add: demo_rq_simps runnable_def thread_state_def fld32_set_fld32 page_aligned_def)

lemma demo_lock: "lock_in 0x5000 0x5000"
  using in_page_slot [of 0 _ "0x5000"] by (simp add: lock_in_def page_aligned_def)

lemma demo_lock_state: "lock_state 0x5000 0 0 True 0 demo_rq"
proof -
  have pa: "page_aligned 0x201000" "page_aligned 0x300000" "page_aligned 0x301000" "page_aligned 0x5000" by (simp_all add: page_aligned_def)
  have "only_pages {0x201000} (\<lambda>_. 0) (set_fld (\<lambda>_. 0) 0x201000 0 0x200000)"
    using pa by (intro only_pages_set_fld only_pages_refl) simp_all
  from load32_frame [OF demo_lock this] load32_frame [OF demo_lock only_pages_set_fld32 [OF pa(2), of T_STATE]]
    load32_frame [OF demo_lock only_pages_set_fld32 [OF pa(3), of T_STATE]]
  have "load32 (mem demo_rq) 0x5000 = load32 (\<lambda>_. 0) 0x5000" by (simp add: demo_rq_simps(1))
  also have "\<dots> = 0" by (simp add: load32_def numeral_eq_Suc)
  moreover have "cli_at 0 True 0 demo_rq"
    by (simp add: cli_at_def demo_rq_simps(5,6) the_cpu_def ref_ok_def) (simp add: demo_rq_simps(3) percpu_zero_def)
  ultimately show ?thesis by (simp add: lock_state_def)
qed

lemma demo_two_threads:
  "\<exists>s :: smp_sched. rq_ok 0x100000 0x5000 s [[(0x201000, 0x300000), (0x200000, 0x301000)], []] [] \<and> mycpu 0 s = Cpu 0 \<and>
     lock_state 0x5000 0 0 True 0 s \<and> runnable (mem s) 0x300000 \<and> runnable (mem s) 0x301000 \<and>
     started (percpus s ! 0) \<and> started (percpus s ! 1) \<and> idle_thread (percpus s ! 0) = 0 \<and> current_thread (percpus s ! 0) = 0"
proof -
  let ?s = demo_rq
  have pa: "page_aligned 0x300000" "page_aligned 0x301000" by (simp_all add: page_aligned_def)
  have nil: "[[], []] ! j = ([] :: queue_view)" if "j < length [[], [] :: queue_view]" for j using that less_2_cases [of j] by auto
  obtain m1 f1 l1 where a1: "rq_ok 0x100000 0x5000 (set_queue 0 m1 f1 l1 (num_threads (percpus ?s ! 0) + 1) ?s) [[(0x201000, 0x300000)], []] [0x200000]"
    "only_pages {0x201000} (mem ?s) m1"
    using runqueue_add_spec [OF demo_rq_ok, of 0 "0x300000"] pa(1) nil by auto
  define s1 where "s1 = set_queue 0 m1 f1 l1 (num_threads (percpus ?s ! 0) + 1) ?s"
  have "0x301000 \<notin> set (map fst ([[(0x201000, 0x300000)], []] ! j :: queue_view))" if "j < length [[(0x201000, 0x300000)], [] :: queue_view]" for j
    using that less_2_cases [of j] by auto
  then obtain m2 f2 l2 where a2: "rq_ok 0x100000 0x5000 (set_queue 0 m2 f2 l2 (num_threads (percpus s1 ! 0) + 1) s1) [[(0x201000, 0x300000), (0x200000, 0x301000)], []] []"
    "only_pages {0x201000, 0x200000} (mem s1) m2"
    using runqueue_add_spec [OF a1(1) [folded s1_def], of 0 "0x301000"] pa(2) by auto
  define s2 where "s2 = set_queue 0 m2 f2 l2 (num_threads (percpus s1 ! 0) + 1) s1"
  have "lock_state 0x5000 0 0 True 0 s1"
    unfolding s1_def by (rule lock_state_set_queue [OF demo_lock demo_lock_state a1(2)]) simp
  then have "lock_state 0x5000 0 0 True 0 s2" unfolding s2_def by (rule lock_state_set_queue [OF demo_lock _ a2(2)]) simp
  moreover have "runnable m2 t" if "t \<in> {0x300000, 0x301000}" for t
    using that pa demo_rq_runnable runnable_frame [OF a1(2), of t] runnable_frame [OF a2(2), of t] by (auto simp: s1_def)
  moreover have "mycpu 0 s2 = Cpu 0" by (simp add: s2_def s1_def demo_rq_simps(5))
  moreover have "started (percpus s2 ! 0) \<and> started (percpus s2 ! 1) \<and> idle_thread (percpus s2 ! 0) = 0 \<and> current_thread (percpus s2 ! 0) = 0"
    by (simp add: s2_def s1_def set_queue_def demo_rq_simps(3) percpu_zero_def)
  ultimately show ?thesis using a2(1) unfolding s2_def [symmetric] by (intro exI [of _ s2]) (simp add: s2_def)
qed

section \<open>Properties\<close>

text \<open>
  C38. Round robin: with every thread of a processor's queue runnable and each one running until it calls
  \<open>sched_yield\<close>, the rounds of \<open>sched_run\<close> return and pick the threads in queue order, over and over; after \<open>k\<close>
  rounds the queue is the original one rotated \<open>k\<close> times and the invariant of all queues still holds.
\<close>

theorem sched_round_robin:
  assumes "rq_ok kend L s qs fl" "i < length qs" "mycpu me s = Cpu i" "qs ! i \<noteq> []"
    and "\<forall>x \<in> set (map snd (qs ! i)). runnable (mem s) x \<and> x \<noteq> idle_thread (percpus s ! i)"
  shows "\<exists>s'. coop_rounds k me (Cpu i) s = Some (map (\<lambda>j. snd (qs ! i ! (j mod length (qs ! i)))) [0..<k], s') \<and>
     rq_ok kend L s' (qs[i := rotate k (qs ! i)]) fl"
  using coop_rounds_spec [OF assms] .

theorem sched_round_robin_witness:
  "\<exists>(s :: smp_sched) s'. coop_rounds 3 0 (Cpu 0) s = Some ([0x300000, 0x301000, 0x300000], s')"
proof -
  obtain s :: smp_sched where s: "rq_ok 0x100000 0x5000 s [[(0x201000, 0x300000), (0x200000, 0x301000)], []] []" "mycpu 0 s = Cpu 0"
    "runnable (mem s) 0x300000" "runnable (mem s) 0x301000" "idle_thread (percpus s ! 0) = 0" using demo_two_threads by blast
  from sched_round_robin [OF s(1) _ s(2), of 3] s(3-) show ?thesis by (auto simp: upt_rec)
qed

text \<open>
  C39. \<open>sched_add_thread\<close> and \<open>sched_remove_thread\<close> refine operations on plain lists of threads: with the lock free they
  return, adding appends the thread, made runnable, to the queue of the given processor (or of the one
  \<open>sched_find_least_loaded\<close> names), removing drops its first occurrence in the first queue that has it, no other queue
  changes, the counts stay the lengths of the queues, and the lock is free again.
\<close>

theorem sched_queues_refine:
  assumes "lock_in L lk" "lock_state lk me 0 b n s" "t \<noteq> 0"
  shows "(rq_ok kend L s qs (p # fl) \<and> c < length qs \<and> (cpu_idx = int c \<or> cpu_idx < 0 \<and> c = unat (sched_find_least_loaded s)) \<and>
       page_aligned t \<and> t \<notin> set (p # fl) \<and> t \<noteq> L \<and> (\<forall>j < length qs. t \<notin> set (map fst (qs ! j))) \<longrightarrow>
       (\<exists>s' qs'. sched_add_thread lk me t cpu_idx s = Some (Inr s') \<and> rq_ok kend L s' qs' fl \<and> lock_state lk me 0 b n s' \<and>
          runnable (mem s') t \<and> threads_of qs' = (threads_of qs)[c := threads_of qs ! c @ [t]])) \<and>
     (rq_ok kend L s qs fl \<longrightarrow>
       (\<exists>s' qs' fl'. sched_remove_thread kend lk me t s = Some (Inr s') \<and> rq_ok kend L s' qs' fl' \<and> lock_state lk me 0 b n s' \<and>
          threads_of qs' = drop_thread t (threads_of qs)))"
proof (intro conjI impI, goal_cases)
  case 1
  then obtain s' where "sched_add_thread lk me t cpu_idx s = Some (Inr s')" "rq_ok kend L s' (qs[c := qs ! c @ [(p, t)]]) fl"
    "lock_state lk me 0 b n s'" "runnable (mem s') t"
    using sched_add_spec [OF _ assms(1,2), of kend qs p fl c cpu_idx t] assms(3) by blast
  moreover have "threads_of (qs[c := qs ! c @ [(p, t)]]) = (threads_of qs)[c := threads_of qs ! c @ [t]]"
    using 1 by (simp add: threads_of_def map_update)
  ultimately show ?case by blast
next
  case 2
  then show ?case using sched_remove_spec [OF _ assms] by blast
qed

theorem sched_queues_refine_witness:
  "\<exists>(s :: smp_sched) s' qs' fl'. sched_remove_thread 0x100000 0x5000 0 0x300000 s = Some (Inr s') \<and> rq_ok 0x100000 0x5000 s' qs' fl' \<and>
     threads_of qs' = [[0x301000], []]"
proof -
  obtain s :: smp_sched where s: "rq_ok 0x100000 0x5000 s [[(0x201000, 0x300000), (0x200000, 0x301000)], []] []"
    "lock_state 0x5000 0 0 True 0 s" using demo_two_threads by blast
  have "\<exists>s' qs' fl'. sched_remove_thread 0x100000 0x5000 0 0x300000 s = Some (Inr s') \<and> rq_ok 0x100000 0x5000 s' qs' fl' \<and>
      lock_state 0x5000 0 0 True 0 s' \<and> threads_of qs' = drop_thread 0x300000 (threads_of [[(0x201000, 0x300000), (0x200000, 0x301000)], []])"
    by (rule sched_queues_refine [OF demo_lock s(2), THEN conjunct2, rule_format, OF _ s(1)]) simp
  moreover have "drop_thread 0x300000 (threads_of [[(0x201000, 0x300000), (0x200000, 0x301000)], []]) = [[0x301000], []]"
    by (simp add: threads_of_def)
  ultimately show ?thesis by metis
qed

text \<open>
  C40. \<open>sched_balance\<close> with the lock free returns, keeps the invariant and gives the lock back. If no two started
  processors differ by two threads it changes nothing; otherwise it takes a started processor with the most and one
  with the fewest threads and moves the first thread of the former that is runnable, not running and not the idle
  thread to the end of the latter's queue, or nothing if there is none.
\<close>

theorem sched_balance_moves:
  assumes "rq_ok kend L s qs fl" "lock_in L lk" "lock_state lk me 0 b n s"
  shows "\<exists>s' qs'. sched_balance kend lk me s = Some (Inr s') \<and> rq_ok kend L s' qs' fl \<and> lock_state lk me 0 b n s' \<and>
     (if imbalanced s (threads_of qs) then
        \<exists>src dst. extremes s (threads_of qs) src dst \<and> threads_of qs' = move_thread (migratable s src) src dst (threads_of qs)
      else s' = s \<and> qs' = qs)"
  by (rule sched_balance_spec [OF assms])

theorem sched_balance_moves_witness:
  "\<exists>(s :: smp_sched) s' qs'. sched_balance 0x100000 0x5000 0 s = Some (Inr s') \<and> rq_ok 0x100000 0x5000 s' qs' [] \<and>
     threads_of qs' = [[0x301000], [0x300000]]"
proof -
  obtain s :: smp_sched where s: "rq_ok 0x100000 0x5000 s [[(0x201000, 0x300000), (0x200000, 0x301000)], []] []"
    "lock_state 0x5000 0 0 True 0 s" "runnable (mem s) 0x300000" "started (percpus s ! 0)" "started (percpus s ! 1)"
    "idle_thread (percpus s ! 0) = 0" "current_thread (percpus s ! 0) = 0" using demo_two_threads by blast
  let ?T = "[[0x300000, 0x301000], []] :: u64 list list"
  have T: "threads_of [[(0x201000, 0x300000), (0x200000, 0x301000)], []] = ?T" by (simp add: threads_of_def)
  have im: "imbalanced s ?T" unfolding imbalanced_def
    by (rule exI [of _ 0], use s(4,5) in \<open>simp, intro exI [of _ 1]\<close>) simp
  have ex: "src = 0 \<and> dst = 1" if "extremes s ?T src dst" for src dst
    using that s(4,5) less_2_cases [of src] less_2_cases [of dst] by (auto simp: extremes_def dest: spec [of _ 0] spec [of _ 1])
  have "move_thread (migratable s 0) 0 1 ?T = [[0x301000], [0x300000]]"
    using s(3,6,7) by (simp add: move_thread_def migratable_def)
  with sched_balance_moves [OF s(1) demo_lock s(2)] im ex show ?thesis unfolding T by (metis (no_types, lifting))
qed

end
