(* ===== verification/Acpi.thy ===== *)
theory Acpi
  imports Paging Format
begin

text \<open>
  The ACPI tables (\<^verbatim>\<open>kernel/desc\<close>): the search for the root pointer, the root table, the lookup of a
  table by its signature and the table of interrupt controllers with its entries of different lengths. The tables
  are read from the byte memory at the identity-mapped addresses \<open>map_mmio\<close> returns. The signatures the code
  compares with are string literals; their addresses are arguments. Log lines are collected in the state. A result
  \<open>None\<close> is a loop that never ends.
\<close>

section \<open>Definitions\<close>

subsection \<open>Data\<close>

definition MADT_ENTRY_LAPIC :: u8 where [simp]: "MADT_ENTRY_LAPIC = 0"
definition MADT_ENTRY_IOAPIC :: u8 where [simp]: "MADT_ENTRY_IOAPIC = 1"
definition MADT_ENTRY_ISO :: u8 where [simp]: "MADT_ENTRY_ISO = 2"
definition MADT_ENTRY_LAPIC_NMI :: u8 where [simp]: "MADT_ENTRY_LAPIC_NMI = 4"
definition MADT_ENTRY_LAPIC_OVERRIDE :: u8 where [simp]: "MADT_ENTRY_LAPIC_OVERRIDE = 5"
definition MADT_ENTRY_X2APIC :: u8 where [simp]: "MADT_ENTRY_X2APIC = 9"
definition LAPIC_FLAG_ENABLED :: u32 where [simp]: "LAPIC_FLAG_ENABLED = 1"
definition MADT_MAX_CPUS :: u32 where [simp]: "MADT_MAX_CPUS = 64"
definition MAX_IOAPICS :: u32 where [simp]: "MAX_IOAPICS = 8"

record CPUInfo =
  ci_apic_id :: u8
  ci_acpi_id :: u8
  ci_flags :: u32
  ci_is_bsp :: bool
  ci_enabled :: bool

record IOAPICEntry =
  io_id :: u8
  io_address :: u32
  io_gsi_base :: u32

record acpi_state = vmstate +
  acpi_log :: "log_line list"
  rsdp_ptr :: u64
  rsdp_extended :: bool
  rsdt_root_ptr :: u64
  rsdt_extended :: bool
  madt_ptr :: u64
  lapic_address :: u32
  cpus :: "CPUInfo list"
  cpu_count :: u32
  ioapics :: "IOAPICEntry list"
  ioapic_count :: u32

definition log_acpi :: "string \<Rightarrow> string \<Rightarrow> vararg list \<Rightarrow> 'a acpi_state_scheme \<Rightarrow> 'a acpi_state_scheme" where
  "log_acpi logger format args s = s\<lparr>acpi_log := acpi_log s @ [LOG_SERIAL logger format args]\<rparr>"

text \<open>Fields of the packed structures, by their offsets.\<close>

definition sdt_length :: "memory \<Rightarrow> u64 \<Rightarrow> u32" where "sdt_length m p = load32 m (p + 4)"
definition rsdp_revision :: "memory \<Rightarrow> u64 \<Rightarrow> u8" where "rsdp_revision m p = m (p + 15)"
definition rsdp_rsdt_address :: "memory \<Rightarrow> u64 \<Rightarrow> u32" where "rsdp_rsdt_address m p = load32 m (p + 16)"
definition xsdp_length :: "memory \<Rightarrow> u64 \<Rightarrow> u32" where "xsdp_length m p = load32 m (p + 20)"
definition xsdp_xsdt_address :: "memory \<Rightarrow> u64 \<Rightarrow> u64" where "xsdp_xsdt_address m p = load64 m (p + 24)"
definition madt_lapic_addr :: "memory \<Rightarrow> u64 \<Rightarrow> u32" where "madt_lapic_addr m p = load32 m (p + 36)"
definition SDT_HEADER_SIZE :: u32 where [simp]: "SDT_HEADER_SIZE = 36"
definition MADT_SIZE :: u64 where [simp]: "MADT_SIZE = 44"

subsection \<open>Checksums\<close>

primrec acpi_sum :: "memory \<Rightarrow> u64 \<Rightarrow> nat \<Rightarrow> u8" where
  "acpi_sum m p 0 = 0"
| "acpi_sum m p (Suc i) = acpi_sum m p i + m (p + of_nat i)"

definition acpi_checksum_ok :: "memory \<Rightarrow> u64 \<Rightarrow> u32 \<Rightarrow> bool" where
  "acpi_checksum_ok m p len \<longleftrightarrow> acpi_sum m p (unat len) = 0"

subsection \<open>The root pointer\<close>

definition EBDA_SEG :: u64 where [simp]: "EBDA_SEG = 0x40E"
definition BIOS_MEM_START :: u64 where [simp]: "BIOS_MEM_START = 0x000E0000"
definition BIOS_MEM_END :: u64 where [simp]: "BIOS_MEM_END = 0x00100000"
definition ONE_KB :: u64 where [simp]: "ONE_KB = 1024"

definition get_rsdp :: "'a acpi_state_scheme \<Rightarrow> u64" where "get_rsdp s = rsdp_ptr s"
definition is_xsdp :: "'a acpi_state_scheme \<Rightarrow> bool" where "is_xsdp s = rsdp_extended s"

partial_function (option) scan_rsdp :: "u64 \<Rightarrow> u64 \<Rightarrow> u64 \<Rightarrow> memory \<Rightarrow> u64 option" where
  "scan_rsdp signature p end_addr m =
     (if p < end_addr then
        if memcmp m p signature 8 \<noteq> 0 then scan_rsdp signature (p + 16) end_addr m
        else if \<not> acpi_checksum_ok m p 20 then scan_rsdp signature (p + 16) end_addr m
        else if rsdp_revision m p \<ge> 2 \<and> \<not> acpi_checksum_ok m p (xsdp_length m p) then scan_rsdp signature (p + 16) end_addr m
        else Some p
      else Some 0)"

definition init_rsdp :: "u64 \<Rightarrow> 'a acpi_state_scheme \<Rightarrow> 'a acpi_state_scheme option" where
  "init_rsdp signature s =
     (let ebda_addr = push_bit 4 (ucast (load16 (mem s) EBDA_SEG))
      in Option.bind (scan_rsdp signature ebda_addr (ebda_addr + ONE_KB) (mem s)) (\<lambda>found_rsdp.
         Option.bind (if found_rsdp = 0 then scan_rsdp signature BIOS_MEM_START BIOS_MEM_END (mem s) else Some found_rsdp) (\<lambda>found_rsdp.
           let s = (if found_rsdp \<noteq> 0
                    then log_acpi ''RSDP'' ''Found at %p (rev=%d)'' [ANum found_rsdp, ANum (ucast (rsdp_revision (mem s) found_rsdp))] s
                    else log_acpi ''RSDP'' ''Not found'' [] s)
           in Some (s\<lparr>rsdp_ptr := found_rsdp\<rparr>))))"

subsection \<open>The root table\<close>

definition get_rsdt_root :: "'a acpi_state_scheme \<Rightarrow> u64" where "get_rsdt_root s = rsdt_root_ptr s"
definition is_xsdt :: "'a acpi_state_scheme \<Rightarrow> bool" where "is_xsdt s = rsdt_extended s"

definition choose_rsdt :: "u64 \<Rightarrow> 'a acpi_state_scheme \<Rightarrow> u64 \<times> bool \<times> 'a acpi_state_scheme" where
  "choose_rsdt rsdp s =
     (if rsdp_revision (mem s) rsdp \<ge> 2 then
        let rsdt_phys = xsdp_xsdt_address (mem s) rsdp
        in (rsdt_phys, True, log_acpi ''RSDT'' ''Using XSDT at 0x%lx'' [ANum rsdt_phys] s)
      else
        let rsdt_phys = ucast (rsdp_rsdt_address (mem s) rsdp)
        in (rsdt_phys, False, log_acpi ''RSDT'' ''Using RSDT at 0x%lx'' [ANum rsdt_phys] s))"

text \<open>The checks of \<open>init_rsdt\<close> once the table is mapped.\<close>

text \<open>The size of the header is a \<open>size_t\<close>: the number of entries is computed at 64 bits and then cut to 32.\<close>

definition install_rsdt :: "u64 \<Rightarrow> bool \<Rightarrow> u32 \<Rightarrow> 'a acpi_state_scheme \<Rightarrow> 'a acpi_state_scheme" where
  "install_rsdt mapped is_xsdt_table table_length s =
     (if \<not> acpi_checksum_ok (mem s) mapped table_length then
        let s = log_acpi ''RSDT'' ''RSDT checksum failed'' [] s
        in s\<lparr>rsdt_root_ptr := 0, rsdt_extended := False\<rparr>
      else
        let entry_size = (if is_xsdt_table then 8 else 4);
            entries = ucast ((ucast table_length - ucast SDT_HEADER_SIZE :: u64) div entry_size) :: u32;
            s = s\<lparr>rsdt_extended := is_xsdt_table, rsdt_root_ptr := mapped\<rparr>
        in log_acpi ''RSDT'' ''Initialized: %d entries, xsdt=%s''
             [ANum (ucast entries), AStr (Some (if is_xsdt_table then ''yes'' else ''no''))] s)"

definition init_rsdt :: "u64 \<Rightarrow> 'a acpi_state_scheme \<Rightarrow> 'a acpi_state_scheme option" where
  "init_rsdt rsdp s =
     (let s = log_acpi ''RSDT'' ''init_rsdt called'' [] s
      in if rsdp = 0 then Some (log_acpi ''RSDT'' ''RSDP pointer is NULL'' [] s)
         else
           let s = log_acpi ''RSDT'' ''RSDP revision=%d'' [ANum (ucast (rsdp_revision (mem s) rsdp))] s;
               (rsdt_phys, is_xsdt_table, s) = choose_rsdt rsdp s;
               s = log_acpi ''RSDT'' ''Mapping first page to read header'' [] s
           in Option.bind (map_mmio rsdt_phys PGSIZE s) (\<lambda>(mapped, s).
                if mapped = 0 then Some (log_acpi ''RSDT'' ''Failed to map RSDT header page'' [] s)
                else
                  let table_length = sdt_length (mem s) mapped;
                      s = log_acpi ''RSDT'' ''table_length = %d'' [ANum (ucast table_length)] s
                  in if ucast table_length > PGSIZE then
                       let s = log_acpi ''RSDT'' ''Table larger than one page, remapping %d bytes'' [ANum (ucast table_length)] s
                       in Option.bind (map_mmio rsdt_phys (ucast table_length) s) (\<lambda>(mapped, s).
                            if mapped = 0 then Some (log_acpi ''RSDT'' ''Failed to map full RSDT (size=%d)'' [ANum (ucast table_length)] s)
                            else Some (install_rsdt mapped is_xsdt_table table_length s))
                     else Some (install_rsdt mapped is_xsdt_table table_length s)))"

definition rsdt_get_entry_count :: "'a acpi_state_scheme \<Rightarrow> u32" where
  "rsdt_get_entry_count s =
     (if rsdt_root_ptr s = 0 then 0
      else ucast ((ucast (sdt_length (mem s) (rsdt_root_ptr s)) - ucast SDT_HEADER_SIZE :: u64) div (if rsdt_extended s then 8 else 4)))"

definition rsdt_entry :: "nat \<Rightarrow> 'a acpi_state_scheme \<Rightarrow> u64" where
  "rsdt_entry i s =
     (if rsdt_extended s then load64 (mem s) (rsdt_root_ptr s + 36 + 8 * of_nat i)
      else ucast (load32 (mem s) (rsdt_root_ptr s + 36 + 4 * of_nat i)))"

text \<open>The four characters \<open>%.4s\<close> prints.\<close>

definition signature_arg :: "memory \<Rightarrow> u64 \<Rightarrow> vararg" where
  "signature_arg m p = AStr (Some (map (\<lambda>i. char_of (unat (m (p + of_nat i)))) [0..<4]))"

text \<open>The loop of \<open>rsdt_find_table\<close>, by the indices still to be visited.\<close>

primrec find_table_loop :: "u64 \<Rightarrow> nat list \<Rightarrow> 'a acpi_state_scheme \<Rightarrow> (u64 \<times> 'a acpi_state_scheme) option" where
  "find_table_loop signature [] s =
     Some (0, log_acpi ''RSDT'' (''Table '' @ [CHR 0x27] @ ''%.4s'' @ [CHR 0x27] @ '' not found'') [signature_arg (mem s) signature] s)"
| "find_table_loop signature (i # is) s =
     (let phys_addr = rsdt_entry i s
      in if phys_addr = 0 \<or> phys_addr < PGSIZE then find_table_loop signature is s
         else Option.bind (map_mmio phys_addr PGSIZE s) (\<lambda>(header, s).
           if header = 0 then find_table_loop signature is s
           else if memcmp (mem s) header signature 4 = 0 then
             let table_len = sdt_length (mem s) header
             in Option.bind (map_mmio phys_addr (ucast table_len) s) (\<lambda>(header, s).
                  if header = 0 then
                    Some (0, log_acpi ''RSDT'' ''Failed to map full table at 0x%x'' [ANum (ucast (ucast phys_addr :: u32))] s)
                  else if \<not> acpi_checksum_ok (mem s) header table_len then
                    Some (0, log_acpi ''RSDT'' (''Table '' @ [CHR 0x27] @ ''%.4s'' @ [CHR 0x27] @ '' checksum failed'')
                      [signature_arg (mem s) signature] s)
                  else Some (header, s))
           else find_table_loop signature is s))"

definition rsdt_find_table :: "u64 \<Rightarrow> 'a acpi_state_scheme \<Rightarrow> (u64 \<times> 'a acpi_state_scheme) option" where
  "rsdt_find_table signature s =
     (if rsdt_root_ptr s = 0 then Some (0, log_acpi ''RSDT'' ''rsdt_find_table: RSDT not initialized'' [] s)
      else find_table_loop signature [0..<unat (rsdt_get_entry_count s)] s)"

subsection \<open>Copies in allocated memory\<close>

primrec copy_bytes :: "memory \<Rightarrow> u64 \<Rightarrow> u64 \<Rightarrow> nat \<Rightarrow> memory" where
  "copy_bytes m dst src 0 = m"
| "copy_bytes m dst src (Suc i) = (let m = copy_bytes m dst src i in m(dst + of_nat i := m (src + of_nat i)))"

definition rsdt_copy_to_safe_memory :: "'a acpi_state_scheme \<Rightarrow> 'a acpi_state_scheme" where
  "rsdt_copy_to_safe_memory s =
     (if rsdt_root_ptr s = 0 then s
      else
        let old_rsdt = rsdt_root_ptr s;
            table_size = sdt_length (mem s) old_rsdt;
            (new_rsdt, s) = kalloc s
        in if new_rsdt = 0 then log_acpi ''RSDT'' ''Failed to allocate memory for RSDT copy'' [] s
           else
             let s = s\<lparr>mem := memset (mem s) new_rsdt 0 4096\<rparr>;
                 s = s\<lparr>mem := copy_bytes (mem s) new_rsdt old_rsdt (unat table_size)\<rparr>;
                 s = s\<lparr>rsdt_root_ptr := new_rsdt\<rparr>
             in log_acpi ''RSDT'' ''Copied to safe memory at %p (size=%d bytes)'' [ANum new_rsdt, ANum (ucast table_size)] s)"

definition madt_copy_to_safe_memory :: "'a acpi_state_scheme \<Rightarrow> 'a acpi_state_scheme" where
  "madt_copy_to_safe_memory s =
     (if madt_ptr s = 0 then s
      else
        let old_madt = madt_ptr s;
            table_size = sdt_length (mem s) old_madt;
            (new_madt, s) = kalloc s
        in if new_madt = 0 then log_acpi ''MADT'' ''Failed to allocate memory for MADT copy'' [] s
           else
             let s = s\<lparr>mem := memset (mem s) new_madt 0 4096\<rparr>;
                 s = s\<lparr>mem := copy_bytes (mem s) new_madt old_madt (unat table_size)\<rparr>;
                 s = s\<lparr>madt_ptr := new_madt\<rparr>
             in log_acpi ''MADT'' ''Copied to safe memory at %p (size=%d bytes)'' [ANum new_madt, ANum (ucast table_size)] s)"

subsection \<open>The table of interrupt controllers\<close>

definition get_madt :: "'a acpi_state_scheme \<Rightarrow> u64" where "get_madt s = madt_ptr s"
definition get_lapic_address :: "'a acpi_state_scheme \<Rightarrow> u32" where "get_lapic_address s = lapic_address s"
definition get_cpu_count :: "'a acpi_state_scheme \<Rightarrow> u32" where "get_cpu_count s = cpu_count s"
definition get_ioapic_count :: "'a acpi_state_scheme \<Rightarrow> u32" where "get_ioapic_count s = ioapic_count s"

definition get_cpu_info :: "u32 \<Rightarrow> 'a acpi_state_scheme \<Rightarrow> CPUInfo option" where
  "get_cpu_info index s = (if index \<ge> cpu_count s then None else Some (cpus s ! unat index))"

definition get_ioapic_info :: "u32 \<Rightarrow> 'a acpi_state_scheme \<Rightarrow> IOAPICEntry option" where
  "get_ioapic_info index s = (if index \<ge> ioapic_count s then None else Some (ioapics s ! unat index))"

definition add_cpu :: "u8 \<Rightarrow> u8 \<Rightarrow> u32 \<Rightarrow> 'a acpi_state_scheme \<Rightarrow> 'a acpi_state_scheme" where
  "add_cpu acpi apic flags s =
     (if cpu_count s < MADT_MAX_CPUS then
        let c = \<lparr>ci_apic_id = apic, ci_acpi_id = acpi, ci_flags = flags, ci_is_bsp = (cpu_count s = 0),
                 ci_enabled = (flags AND LAPIC_FLAG_ENABLED \<noteq> 0)\<rparr>
        in s\<lparr>cpus := (cpus s)[unat (cpu_count s) := c], cpu_count := cpu_count s + 1\<rparr>
      else s)"

definition add_ioapic :: "u8 \<Rightarrow> u32 \<Rightarrow> u32 \<Rightarrow> 'a acpi_state_scheme \<Rightarrow> 'a acpi_state_scheme" where
  "add_ioapic ident addr gsi s =
     (if ioapic_count s < MAX_IOAPICS then
        s\<lparr>ioapics := (ioapics s)[unat (ioapic_count s) := \<lparr>io_id = ident, io_address = addr, io_gsi_base = gsi\<rparr>],
          ioapic_count := ioapic_count s + 1\<rparr>
      else s)"

definition madt_entry_step :: "u64 \<Rightarrow> 'a acpi_state_scheme \<Rightarrow> 'a acpi_state_scheme" where
  "madt_entry_step e s =
     (let m = mem s; type = m e
      in if type = MADT_ENTRY_LAPIC then add_cpu (m (e + 2)) (m (e + 3)) (load32 m (e + 4)) s
         else if type = MADT_ENTRY_IOAPIC then add_ioapic (m (e + 2)) (load32 m (e + 4)) (load32 m (e + 8)) s
         else if type = MADT_ENTRY_ISO then s
         else if type = MADT_ENTRY_LAPIC_NMI then s
         else if type = MADT_ENTRY_LAPIC_OVERRIDE then s\<lparr>lapic_address := ucast (load64 m (e + 4))\<rparr>
         else if type = MADT_ENTRY_X2APIC then add_cpu (ucast (load32 m (e + 12))) (ucast (load32 m (e + 4))) (load32 m (e + 8)) s
         else s)"

partial_function (option) parse_madt_loop :: "u64 \<Rightarrow> u64 \<Rightarrow> u64 \<Rightarrow> 'a acpi_state_scheme \<Rightarrow> 'a acpi_state_scheme option" where
  "parse_madt_loop madt entry_ptr end_ptr s =
     (if entry_ptr < end_ptr then
        let len = mem s (entry_ptr + 1)
        in if len < 2 \<or> entry_ptr + ucast len > end_ptr then
             Some (log_acpi ''MADT'' ''Invalid entry at offset %d (len=%d)'' [ANum (scast (ucast (entry_ptr - madt) :: u32)), ANum (ucast len)] s)
           else
             let s = madt_entry_step entry_ptr s
             in parse_madt_loop madt (entry_ptr + ucast (mem s (entry_ptr + 1))) end_ptr s
      else Some s)"

definition parse_madt_entries :: "u64 \<Rightarrow> 'a acpi_state_scheme \<Rightarrow> 'a acpi_state_scheme option" where
  "parse_madt_entries madt s = parse_madt_loop madt (madt + MADT_SIZE) (madt + ucast (sdt_length (mem s) madt)) s"

definition init_madt :: "u64 \<Rightarrow> 'a acpi_state_scheme \<Rightarrow> 'a acpi_state_scheme option" where
  "init_madt signature s =
     (let s = s\<lparr>cpu_count := 0, ioapic_count := 0, madt_ptr := 0, lapic_address := 0\<rparr>
      in Option.bind (rsdt_find_table signature s) (\<lambda>(madt_header, s).
           if madt_header = 0 then Some (log_acpi ''MADT'' ''MADT table not found'' [] s)
           else
             let s = s\<lparr>madt_ptr := madt_header\<rparr>;
                 s = s\<lparr>lapic_address := madt_lapic_addr (mem s) (madt_ptr s)\<rparr>
             in parse_madt_entries (madt_ptr s) s))"

definition log_cpu_info :: "'a acpi_state_scheme \<Rightarrow> 'a acpi_state_scheme" where
  "log_cpu_info s =
     (let enabled_count = fold (\<lambda>i n. if ci_enabled (cpus s ! i) then n + 1 else n) [0..<unat (cpu_count s)] (0 :: u32)
      in log_acpi ''CPU'' ''Detected %d CPUs (%d enabled), LAPIC at 0x%x''
           [ANum (ucast (cpu_count s)), ANum (ucast enabled_count), ANum (ucast (lapic_address s))] s)"

section \<open>Reference definitions\<close>

text \<open>The entries of the table as data, their bytes, and what each of them means for the state.\<close>

datatype madt_entry =
    LocalApic u8 u8 u32
  | IoApic u8 u32 u32
  | ApicOverride u64
  | LocalX2Apic u32 u32 u32
  | OtherEntry u8 "u8 list"

definition word_bytes :: "nat \<Rightarrow> 'a::len word \<Rightarrow> u8 list" where
  "word_bytes n w = map (\<lambda>i. ucast (drop_bit (8 * i) w)) [0..<n]"

primrec entry_bytes :: "madt_entry \<Rightarrow> u8 list" where
  "entry_bytes (LocalApic acpi apic flags) = [MADT_ENTRY_LAPIC, 8, acpi, apic] @ word_bytes 4 flags"
| "entry_bytes (IoApic ident addr gsi) = [MADT_ENTRY_IOAPIC, 12, ident, 0] @ word_bytes 4 addr @ word_bytes 4 gsi"
| "entry_bytes (ApicOverride addr) = [MADT_ENTRY_LAPIC_OVERRIDE, 12, 0, 0] @ word_bytes 8 addr"
| "entry_bytes (LocalX2Apic apic flags uid) = [MADT_ENTRY_X2APIC, 16, 0, 0] @ word_bytes 4 apic @ word_bytes 4 flags @ word_bytes 4 uid"
| "entry_bytes (OtherEntry type bs) = [type, of_nat (2 + length bs)] @ bs"

primrec entry_ok :: "madt_entry \<Rightarrow> bool" where
  "entry_ok (LocalApic acpi apic flags) = True"
| "entry_ok (IoApic ident addr gsi) = True"
| "entry_ok (ApicOverride addr) = True"
| "entry_ok (LocalX2Apic apic flags uid) = True"
| "entry_ok (OtherEntry type bs) =
     (type \<notin> {MADT_ENTRY_LAPIC, MADT_ENTRY_IOAPIC, MADT_ENTRY_LAPIC_OVERRIDE, MADT_ENTRY_X2APIC} \<and> length bs \<le> 253)"

primrec entry_effect :: "madt_entry \<Rightarrow> 'a acpi_state_scheme \<Rightarrow> 'a acpi_state_scheme" where
  "entry_effect (LocalApic acpi apic flags) s = add_cpu acpi apic flags s"
| "entry_effect (IoApic ident addr gsi) s = add_ioapic ident addr gsi s"
| "entry_effect (ApicOverride addr) s = s\<lparr>lapic_address := ucast addr\<rparr>"
| "entry_effect (LocalX2Apic apic flags uid) s = add_cpu (ucast uid) (ucast apic) flags s"
| "entry_effect (OtherEntry type bs) s = s"

definition bytes_at :: "memory \<Rightarrow> u64 \<Rightarrow> u8 list \<Rightarrow> bool" where
  "bytes_at m a bs \<longleftrightarrow> (\<forall>i < length bs. m (a + of_nat i) = bs ! i)"

text \<open>The tables of processors and interrupt controllers are well formed.\<close>

definition acpi_ok :: "'a acpi_state_scheme \<Rightarrow> bool" where
  "acpi_ok s \<longleftrightarrow> length (cpus s) = unat MADT_MAX_CPUS \<and> cpu_count s \<le> MADT_MAX_CPUS \<and>
     length (ioapics s) = unat MAX_IOAPICS \<and> ioapic_count s \<le> MAX_IOAPICS \<and>
     (\<forall>i < unat (cpu_count s). ci_is_bsp (cpus s ! i) = (i = 0) \<and>
        ci_enabled (cpus s ! i) = (ci_flags (cpus s ! i) AND LAPIC_FLAG_ENABLED \<noteq> 0))"

text \<open>The processors listed in the table: at most 64, the first one marked as boot processor.\<close>

definition listed_cpus :: "'a acpi_state_scheme \<Rightarrow> CPUInfo list" where
  "listed_cpus s = take (unat (cpu_count s)) (cpus s)"

definition listed_ioapics :: "'a acpi_state_scheme \<Rightarrow> IOAPICEntry list" where
  "listed_ioapics s = take (unat (ioapic_count s)) (ioapics s)"

definition make_cpu :: "nat \<Rightarrow> u8 \<times> u8 \<times> u32 \<Rightarrow> CPUInfo" where
  "make_cpu i = (\<lambda>(acpi, apic, flags). \<lparr>ci_apic_id = apic, ci_acpi_id = acpi, ci_flags = flags, ci_is_bsp = (i = 0),
     ci_enabled = (flags AND LAPIC_FLAG_ENABLED \<noteq> 0)\<rparr>)"

primrec entry_cpu :: "madt_entry \<Rightarrow> (u8 \<times> u8 \<times> u32) list" where
  "entry_cpu (LocalApic acpi apic flags) = [(acpi, apic, flags)]"
| "entry_cpu (IoApic ident addr gsi) = []"
| "entry_cpu (ApicOverride addr) = []"
| "entry_cpu (LocalX2Apic apic flags uid) = [(ucast uid, ucast apic, flags)]"
| "entry_cpu (OtherEntry type bs) = []"

primrec entry_ioapic :: "madt_entry \<Rightarrow> IOAPICEntry list" where
  "entry_ioapic (LocalApic acpi apic flags) = []"
| "entry_ioapic (IoApic ident addr gsi) = [\<lparr>io_id = ident, io_address = addr, io_gsi_base = gsi\<rparr>]"
| "entry_ioapic (ApicOverride addr) = []"
| "entry_ioapic (LocalX2Apic apic flags uid) = []"
| "entry_ioapic (OtherEntry type bs) = []"

text \<open>An address at which \<open>scan_rsdp\<close> accepts a root pointer.\<close>

definition rsdp_at :: "memory \<Rightarrow> u64 \<Rightarrow> u64 \<Rightarrow> bool" where
  "rsdp_at m signature p \<longleftrightarrow> memcmp m p signature 8 = 0 \<and> acpi_checksum_ok m p 20 \<and>
     (rsdp_revision m p \<ge> 2 \<longrightarrow> acpi_checksum_ok m p (xsdp_length m p))"

text \<open>A table with a processor, an interrupt controller and an unknown entry, in an otherwise empty memory.\<close>

definition demo_entries :: "madt_entry list" where
  "demo_entries = [LocalApic 0 0 1, OtherEntry 2 [0, 0], LocalApic 1 5 0, IoApic 2 0xFEC00000 0]"

definition demo_acpi :: acpi_state where
  "demo_acpi = \<lparr>mem = (\<lambda>x. let i = unat x - 0x102C in
       if x = 0x1004 then 76 else if 0x102C \<le> x \<and> i < 32 then concat (map entry_bytes demo_entries) ! i else 0),
     freelist = 0, cr3 = 0, invlpg_log = [], acpi_log = [], rsdp_ptr = 0, rsdp_extended = False, rsdt_root_ptr = 0,
     rsdt_extended = False, madt_ptr = 0x1000, lapic_address = 0,
     cpus = replicate 64 \<lparr>ci_apic_id = 0, ci_acpi_id = 0, ci_flags = 0, ci_is_bsp = False, ci_enabled = False\<rparr>, cpu_count = 0,
     ioapics = replicate 8 \<lparr>io_id = 0, io_address = 0, io_gsi_base = 0\<rparr>, ioapic_count = 0\<rparr>"

section \<open>Bytes in memory\<close>

lemma length_word_bytes [simp]: "length (word_bytes n w) = n"
  by (simp add: word_bytes_def)

lemma bytes_at_Nil [simp]: "bytes_at m a []"
  by (simp add: bytes_at_def)

lemma bytes_at_append: "bytes_at m a (xs @ ys) \<longleftrightarrow> bytes_at m a xs \<and> bytes_at m (a + of_nat (length xs)) ys"
proof (intro iffI conjI)
  assume l: "bytes_at m a (xs @ ys)"
  show "bytes_at m a xs" using l by (auto simp: bytes_at_def nth_append dest: spec)
  show "bytes_at m (a + of_nat (length xs)) ys"
    unfolding bytes_at_def
  proof (intro allI impI)
    fix i assume "i < length ys"
    then have "m (a + of_nat (length xs + i)) = (xs @ ys) ! (length xs + i)" using l unfolding bytes_at_def by (metis length_append nat_add_left_cancel_less)
    then show "m (a + of_nat (length xs) + of_nat i) = ys ! i" by (simp add: add.assoc)
  qed
next
  assume r: "bytes_at m a xs \<and> bytes_at m (a + of_nat (length xs)) ys"
  show "bytes_at m a (xs @ ys)" unfolding bytes_at_def
  proof (intro allI impI)
    fix i assume i: "i < length (xs @ ys)"
    show "m (a + of_nat i) = (xs @ ys) ! i"
    proof (cases "i < length xs")
      case False
      then obtain j where j: "i = length xs + j" using le_Suc_ex [of "length xs" i] by auto
      then have "m (a + of_nat (length xs) + of_nat j) = ys ! j" using r i by (simp add: bytes_at_def)
      then show ?thesis using j by (simp add: nth_append add.assoc)
    qed (use r in \<open>simp add: bytes_at_def nth_append\<close>)
  qed
qed

lemma bytes_at_Cons: "bytes_at m a (x # xs) \<longleftrightarrow> m a = x \<and> bytes_at m (a + 1) xs"
  using bytes_at_append [of m a "[x]" xs] by (simp add: bytes_at_def)

lemma load32_bytes: "bytes_at m a (word_bytes 4 w) \<Longrightarrow> load32 m a = w"
proof (rule bit_word_eqI)
  fix k assume b: "bytes_at m a (word_bytes 4 w)" and k: "k < LENGTH(32)"
  then have "k div 8 < 4" by (simp add: div_less_iff_less_mult)
  then have "m (a + of_nat (k div 8)) = ucast (drop_bit (8 * (k div 8)) w)" using b by (simp add: bytes_at_def word_bytes_def)
  then show "bit (load32 m a) k = bit w k" using k by (simp add: load32_def bit_load_le bit_simps)
qed

lemma load64_bytes: "bytes_at m a (word_bytes 8 w) \<Longrightarrow> load64 m a = w"
proof (rule bit_word_eqI)
  fix k assume b: "bytes_at m a (word_bytes 8 w)" and k: "k < LENGTH(64)"
  then have "k div 8 < 8" by (simp add: div_less_iff_less_mult)
  then have "m (a + of_nat (k div 8)) = ucast (drop_bit (8 * (k div 8)) w)" using b by (simp add: bytes_at_def word_bytes_def)
  then show "bit (load64 m a) k = bit w k" using k by (simp add: load64_def bit_load_le bit_simps)
qed

section \<open>Entries\<close>

lemma add_mem [simp]: "mem (add_cpu acpi apic flags s) = mem s" "mem (add_ioapic ident addr gsi s) = mem s" "mem (log_acpi l f x s) = mem s"
  by (simp_all add: add_cpu_def add_ioapic_def log_acpi_def Let_def)

lemma step_mem [simp]: "mem (madt_entry_step e s) = mem s"
  by (simp add: madt_entry_step_def Let_def)

lemma effect_mem [simp]: "mem (entry_effect x s) = mem s"
  by (cases x) simp_all

lemma entry_step_effect:
  assumes "bytes_at (mem s) e (entry_bytes x)" "entry_ok x"
  shows "madt_entry_step e s = entry_effect x s" "mem s (e + 1) = of_nat (length (entry_bytes x))"
    "2 \<le> length (entry_bytes x)" "length (entry_bytes x) < 256"
proof -
  have "madt_entry_step e s = entry_effect x s \<and> mem s (e + 1) = of_nat (length (entry_bytes x))"
  proof (cases x)
    case (LocalApic acpi apic flags)
    then have "mem s e = 0" "mem s (e + 1) = 8" "mem s (e + 2) = acpi" "mem s (e + 3) = apic" "load32 (mem s) (e + 4) = flags"
      using assms(1) by (simp_all add: bytes_at_append bytes_at_Cons load32_bytes add.commute)
    then show ?thesis using LocalApic by (simp add: madt_entry_step_def Let_def)
  next
    case (IoApic ident addr gsi)
    then have "mem s e = 1" "mem s (e + 1) = 12" "mem s (e + 2) = ident" "load32 (mem s) (e + 4) = addr" "load32 (mem s) (e + 8) = gsi"
      using assms(1) by (simp_all add: bytes_at_append bytes_at_Cons load32_bytes add.commute)
    then show ?thesis using IoApic by (simp add: madt_entry_step_def Let_def)
  next
    case (ApicOverride addr)
    then have "mem s e = 5" "mem s (e + 1) = 12" "load64 (mem s) (e + 4) = addr"
      using assms(1) by (simp_all add: bytes_at_append bytes_at_Cons load64_bytes add.commute)
    then show ?thesis using ApicOverride by (simp add: madt_entry_step_def Let_def)
  next
    case (LocalX2Apic apic flags uid)
    then have "mem s e = 9" "mem s (e + 1) = 16" "load32 (mem s) (e + 4) = apic" "load32 (mem s) (e + 8) = flags" "load32 (mem s) (e + 12) = uid"
      using assms(1) by (simp_all add: bytes_at_append bytes_at_Cons load32_bytes add.commute)
    then show ?thesis using LocalX2Apic by (simp add: madt_entry_step_def Let_def)
  next
    case (OtherEntry type bs)
    then have "mem s e = type" "mem s (e + 1) = of_nat (2 + length bs)" using assms(1) by (simp_all add: bytes_at_Cons)
    then show ?thesis using OtherEntry assms(2) by (simp add: madt_entry_step_def Let_def)
  qed
  then show "madt_entry_step e s = entry_effect x s" "mem s (e + 1) = of_nat (length (entry_bytes x))" by blast+
  show "2 \<le> length (entry_bytes x)" "length (entry_bytes x) < 256" using assms(2) by (cases x; simp)+
qed


section \<open>Walking the table\<close>

lemma ucast_of_nat_byte: "n < 256 \<Longrightarrow> (ucast (of_nat n :: u8) :: u64) = of_nat n"
  by (simp add: unsigned_of_nat take_bit_nat_eq_self)

lemma parse_entries:
  assumes "bytes_at (mem s) p (concat (map entry_bytes es))" "list_all entry_ok es"
    and "unat p + length (concat (map entry_bytes es)) < 2 ^ 64"
  shows "parse_madt_loop madt p (p + of_nat (length (concat (map entry_bytes es)))) s = Some (fold entry_effect es s)"
  using assms
proof (induction es arbitrary: p s)
  case Nil
  then show ?case by (subst parse_madt_loop.simps) simp
next
  case (Cons x es)
  define n where "n = length (entry_bytes x)"
  define r where "r = length (concat (map entry_bytes es))"
  have total: "length (concat (map entry_bytes (x # es))) = n + r" by (simp add: n_def r_def)
  have b: "bytes_at (mem s) p (entry_bytes x)" "bytes_at (mem s) (p + of_nat n) (concat (map entry_bytes es))"
    using Cons.prems(1) by (simp_all add: bytes_at_append n_def)
  note e = entry_step_effect [OF b(1), folded n_def] and ok = Cons.prems(2)
  have len: "mem s (p + 1) = of_nat n" "2 \<le> n" "n < 256" using e ok by auto
  have wrap: "unat p + (n + r) < 2 ^ 64" using Cons.prems(3) unfolding total .
  have u: "unat (p + of_nat k) = unat p + k" if "k \<le> n + r" for k
    using wrap that by (simp add: unat_word_ariths unat_of_nat)
  have lt: "p < p + of_nat (n + r)" using u [of "n + r"] len by (simp only: word_less_nat_alt)
  have le: "\<not> p + of_nat n > p + of_nat (n + r)" using u [of n] u [of "n + r"] by (simp only: word_less_nat_alt)
  have two: "\<not> (of_nat n :: u8) < 2" using len by (simp add: word_less_nat_alt unat_of_nat take_bit_nat_eq_self)
  have "parse_madt_loop madt p (p + of_nat (n + r)) s = parse_madt_loop madt (p + of_nat n) (p + of_nat (n + r)) (entry_effect x s)"
    using lt le two e(1) ok len(1) ucast_of_nat_byte [OF len(3)] by (subst parse_madt_loop.simps) (simp add: Let_def)
  also have "\<dots> = Some (fold entry_effect es (entry_effect x s))"
    using Cons.IH [of "entry_effect x s" "p + of_nat n", folded r_def] b(2) ok u [of n] wrap by (simp add: add.assoc)
  finally show ?case unfolding total by simp
qed

section \<open>Well-formed tables\<close>

lemma acpi_ok_counts:
  assumes "acpi_ok s"
  shows "length (listed_cpus s) = unat (cpu_count s)" "length (listed_ioapics s) = unat (ioapic_count s)"
    "unat (cpu_count s) \<le> 64" "unat (ioapic_count s) \<le> 8" "length (cpus s) = 64" "length (ioapics s) = 8"
  using assms by (auto simp: acpi_ok_def listed_cpus_def listed_ioapics_def word_le_nat_alt)

lemma take_update_next: "n < length xs \<Longrightarrow> take (Suc n) (xs[n := x]) = take n xs @ [x]"
  by (simp add: take_Suc_conv_app_nth)

lemma add_cpu_ok:
  assumes ok: "acpi_ok s"
  shows "acpi_ok (add_cpu acpi apic flags s)"
    "listed_cpus (add_cpu acpi apic flags s) =
       (if length (listed_cpus s) < 64 then listed_cpus s @ [make_cpu (length (listed_cpus s)) (acpi, apic, flags)] else listed_cpus s)"
    "listed_ioapics (add_cpu acpi apic flags s) = listed_ioapics s"
proof -
  note c = acpi_ok_counts [OF ok]
  have lt: "cpu_count s < MADT_MAX_CPUS \<longleftrightarrow> length (listed_cpus s) < 64" using c(1) by (simp add: word_less_nat_alt)
  show "listed_ioapics (add_cpu acpi apic flags s) = listed_ioapics s" by (simp add: add_cpu_def listed_ioapics_def Let_def)
  have "acpi_ok (add_cpu acpi apic flags s) \<and> listed_cpus (add_cpu acpi apic flags s) =
      (if length (listed_cpus s) < 64 then listed_cpus s @ [make_cpu (length (listed_cpus s)) (acpi, apic, flags)] else listed_cpus s)"
  proof (cases "cpu_count s < MADT_MAX_CPUS")
    case True
    then have n: "unat (cpu_count s) < 64" by (simp add: word_less_nat_alt)
    then have suc: "unat (cpu_count s + 1) = Suc (unat (cpu_count s))" by (simp add: unat_word_ariths)
    have z: "cpu_count s = 0 \<longleftrightarrow> unat (cpu_count s) = 0" by (simp add: unat_eq_0)
    have "listed_cpus (add_cpu acpi apic flags s) = listed_cpus s @ [make_cpu (unat (cpu_count s)) (acpi, apic, flags)]"
      using True n c(5) suc z by (simp add: add_cpu_def listed_cpus_def Let_def take_update_next make_cpu_def)
    moreover have "acpi_ok (add_cpu acpi apic flags s)"
      using ok True n suc z c(5) by (auto simp: acpi_ok_def add_cpu_def Let_def word_le_nat_alt nth_list_update less_Suc_eq)
    ultimately show ?thesis using True lt c(1) by simp
  next
    case False
    then show ?thesis using ok lt by (simp add: add_cpu_def)
  qed
  then show "acpi_ok (add_cpu acpi apic flags s)"
    "listed_cpus (add_cpu acpi apic flags s) =
       (if length (listed_cpus s) < 64 then listed_cpus s @ [make_cpu (length (listed_cpus s)) (acpi, apic, flags)] else listed_cpus s)"
    by blast+
qed

lemma add_ioapic_ok:
  assumes ok: "acpi_ok s"
  shows "acpi_ok (add_ioapic ident addr gsi s)" "listed_cpus (add_ioapic ident addr gsi s) = listed_cpus s"
    "listed_ioapics (add_ioapic ident addr gsi s) =
       (if length (listed_ioapics s) < 8 then listed_ioapics s @ [\<lparr>io_id = ident, io_address = addr, io_gsi_base = gsi\<rparr>] else listed_ioapics s)"
proof -
  note c = acpi_ok_counts [OF ok]
  have lt: "ioapic_count s < MAX_IOAPICS \<longleftrightarrow> length (listed_ioapics s) < 8" using c(2) by (simp add: word_less_nat_alt)
  show "listed_cpus (add_ioapic ident addr gsi s) = listed_cpus s" by (simp add: add_ioapic_def listed_cpus_def)
  have "acpi_ok (add_ioapic ident addr gsi s) \<and> listed_ioapics (add_ioapic ident addr gsi s) =
      (if length (listed_ioapics s) < 8 then listed_ioapics s @ [\<lparr>io_id = ident, io_address = addr, io_gsi_base = gsi\<rparr>] else listed_ioapics s)"
  proof (cases "ioapic_count s < MAX_IOAPICS")
    case True
    then have n: "unat (ioapic_count s) < 8" by (simp add: word_less_nat_alt)
    then have suc: "unat (ioapic_count s + 1) = Suc (unat (ioapic_count s))" by (simp add: unat_word_ariths)
    then show ?thesis using ok True n c(6) lt
      by (simp add: acpi_ok_def add_ioapic_def listed_ioapics_def word_le_nat_alt take_update_next)
  next
    case False
    then show ?thesis using ok lt by (simp add: add_ioapic_def)
  qed
  then show "acpi_ok (add_ioapic ident addr gsi s)"
    "listed_ioapics (add_ioapic ident addr gsi s) =
       (if length (listed_ioapics s) < 8 then listed_ioapics s @ [\<lparr>io_id = ident, io_address = addr, io_gsi_base = gsi\<rparr>] else listed_ioapics s)"
    by blast+
qed

lemma acpi_ok_frame [simp]: "acpi_ok (s\<lparr>lapic_address := a\<rparr>) = acpi_ok s" "acpi_ok (log_acpi l f x s) = acpi_ok s"
  by (simp_all add: acpi_ok_def log_acpi_def)

lemma step_ok: "acpi_ok s \<Longrightarrow> acpi_ok (madt_entry_step e s)"
  by (simp add: madt_entry_step_def Let_def add_cpu_ok(1) add_ioapic_ok(1))

lemma parse_returns:
  assumes "unat stop + 255 < 2 ^ 64" "acpi_ok s"
  shows "\<exists>s'. parse_madt_loop madt p stop s = Some s' \<and> acpi_ok s' \<and> mem s' = mem s"
  using assms(2)
proof (induction "unat stop - unat p" arbitrary: p s rule: less_induct)
  case less
  let ?len = "mem s (p + 1)" and ?s = "madt_entry_step p s"
  show ?case
  proof (cases "p < stop \<and> \<not> (?len < 2 \<or> p + ucast ?len > stop)")
    case True
    have b: "unat ?len < 2 ^ LENGTH(8)" by (rule unsigned_less)
    then have l: "unat (ucast ?len :: u64) = unat ?len" by (simp add: unsigned_ucast_eq take_bit_nat_eq_self)
    have p: "unat p < unat stop" "2 \<le> unat ?len" using True by (simp_all add: word_less_nat_alt)
    have "unat (p + ucast ?len) = unat p + unat ?len" using p b assms(1) l by (simp add: unat_word_ariths)
    then have "unat stop - unat (p + ucast ?len) < unat stop - unat p" using p by linarith
    from less.hyps [OF this step_ok [OF less.prems]] show ?thesis using True by (subst parse_madt_loop.simps) (simp add: Let_def)
  next
    case False
    then show ?thesis using less.prems by (subst parse_madt_loop.simps) (auto simp: Let_def)
  qed
qed

section \<open>What is listed\<close>

lemma effect_ok: "acpi_ok s \<Longrightarrow> acpi_ok (entry_effect x s)"
  by (cases x) (simp_all add: add_cpu_ok(1) add_ioapic_ok(1))

lemma fold_effect_ok: "acpi_ok s \<Longrightarrow> acpi_ok (fold entry_effect es s)"
  by (induction es arbitrary: s) (simp_all add: effect_ok)

lemma fold_effect_cpus:
  assumes "acpi_ok s" "listed_cpus s = map (\<lambda>i. make_cpu i (xs ! i)) [0..<min 64 (length xs)]"
  shows "listed_cpus (fold entry_effect es s) =
     (let ys = xs @ concat (map entry_cpu es) in map (\<lambda>i. make_cpu i (ys ! i)) [0..<min 64 (length ys)])"
  using assms
proof (induction es arbitrary: s xs)
  case (Cons e es)
  have "listed_cpus (entry_effect e s) = (let ys = xs @ entry_cpu e in map (\<lambda>i. make_cpu i (ys ! i)) [0..<min 64 (length ys)])"
  proof (cases "entry_cpu e")
    case Nil
    then have "listed_cpus (entry_effect e s) = listed_cpus s"
      using add_ioapic_ok(2) [OF Cons.prems(1)] by (cases e) (simp_all add: listed_cpus_def)
    then show ?thesis using Nil Cons.prems(2) by simp
  next
    case (Cons y ys)
    then obtain acpi apic flags where y: "entry_cpu e = [(acpi, apic, flags)]" "entry_effect e s = add_cpu acpi apic flags s"
      by (cases e) auto
    have len: "length (listed_cpus s) = min 64 (length xs)" using Cons.prems(2) by simp
    show ?thesis
    proof (cases "length xs < 64")
      case True
      then show ?thesis using add_cpu_ok(2) [OF Cons.prems(1)] len y Cons.prems(2) by (simp add: nth_append)
    next
      case False
      then show ?thesis using add_cpu_ok(2) [OF Cons.prems(1)] len y Cons.prems(2) by (simp add: nth_append min_def)
    qed
  qed
  from Cons.IH [OF effect_ok [OF Cons.prems(1)] this [unfolded Let_def]] show ?case by simp
qed simp

lemma fold_effect_ioapics:
  assumes "acpi_ok s" "listed_ioapics s = take 8 xs"
  shows "listed_ioapics (fold entry_effect es s) = take 8 (xs @ concat (map entry_ioapic es))"
  using assms
proof (induction es arbitrary: s xs)
  case (Cons e es)
  have "listed_ioapics (entry_effect e s) = take 8 (xs @ entry_ioapic e)"
    using Cons.prems(2) by (cases e) (simp_all add: add_ioapic_ok(3) [OF Cons.prems(1)] add_cpu_ok(3) [OF Cons.prems(1)], simp_all add: listed_ioapics_def)
  from Cons.IH [OF effect_ok [OF Cons.prems(1)] this] show ?case by simp
qed simp


section \<open>Finding the root pointer\<close>

lemma scan_rsdp_step:
  "scan_rsdp signature p stop m =
     (if p < stop then if rsdp_at m signature p then Some p else scan_rsdp signature (p + 16) stop m else Some 0)"
  by (subst scan_rsdp.simps) (auto simp: rsdp_at_def)

lemma scan_rsdp_spec:
  assumes "unat p + 16 * n < 2 ^ 64" "unat stop \<le> unat p + 16 * n" "n = 0 \<or> unat p + 16 * (n - 1) < unat stop"
  shows "scan_rsdp signature p stop m =
     Some (case find (rsdp_at m signature) (map (\<lambda>i. p + 16 * of_nat i) [0..<n]) of Some q \<Rightarrow> q | None \<Rightarrow> 0)"
  using assms
proof (induction n arbitrary: p)
  case 0
  then show ?case by (subst scan_rsdp_step) (simp add: word_less_nat_alt)
next
  case (Suc n)
  have lt: "p < stop" using Suc.prems(3) by (simp add: word_less_nat_alt)
  have u: "unat (p + 16) = unat p + 16" using Suc.prems(1) by (simp add: unat_word_ariths)
  have "scan_rsdp signature (p + 16) stop m =
      Some (case find (rsdp_at m signature) (map (\<lambda>i. p + 16 + 16 * of_nat i) [0..<n]) of Some q \<Rightarrow> q | None \<Rightarrow> 0)"
    by (rule Suc.IH) (use Suc.prems u in \<open>auto simp: algebra_simps\<close>)
  moreover have "map (\<lambda>i. p + 16 * of_nat i) [0..<Suc n] = p # map (\<lambda>i. p + 16 + 16 * of_nat i) [0..<n]"
    by (simp add: upt_conv_Cons map_Suc_upt [symmetric] algebra_simps del: upt_Suc)
  ultimately show ?case using lt by (subst scan_rsdp_step) simp
qed

section \<open>Copying a table\<close>

lemma copy_bytes_apply:
  assumes "n < 2 ^ 64" "\<And>i j. i < n \<Longrightarrow> j < n \<Longrightarrow> src + of_nat i \<noteq> dst + of_nat j"
  shows "copy_bytes m dst src n x = (if unat (x - dst) < n then m (src + (x - dst)) else m x)"
  using assms
proof (induction n arbitrary: x)
  case (Suc n)
  have ih: "copy_bytes m dst src n y = (if unat (y - dst) < n then m (src + (y - dst)) else m y)" for y
    using Suc.prems by (intro Suc.IH) auto
  have n: "unat (of_nat n :: u64) = n" using Suc.prems(1) by (simp add: unat_of_nat take_bit_nat_eq_self)
  have out: "\<not> unat (src + of_nat n - dst) < n"
  proof
    assume "unat (src + of_nat n - dst) < n"
    then have "src + of_nat n = dst + of_nat (unat (src + of_nat n - dst))" by simp
    with Suc.prems(2) [of n "unat (src + of_nat n - dst)"] \<open>unat (src + of_nat n - dst) < n\<close> show False by simp
  qed
  have eq: "x = dst + of_nat n \<longleftrightarrow> unat (x - dst) = n"
    using n by (metis add_diff_cancel_left' diff_add_cancel add.commute word_unat_eq_iff)
  show ?case
  proof (cases "x = dst + of_nat n")
    case True
    then show ?thesis using ih [of "src + of_nat n"] out n by (simp add: Let_def)
  next
    case False
    then have "unat (x - dst) \<noteq> n" using eq by simp
    then show ?thesis using False ih [of x] by (auto simp: Let_def less_Suc_eq)
  qed
qed simp

section \<open>Properties\<close>

text \<open>
  C17. Parsing the bytes of any list of entries of the interrupt controller table returns and gives the processors
  and I/O APICs of these entries back: the first 64 processors in order, only the first one marked as boot processor and
  those with the enabled flag marked enabled, and the first 8 I/O APICs; unknown entries are skipped.
\<close>

theorem madt_parse_roundtrip:
  assumes "bytes_at (mem s) (madt + MADT_SIZE) (concat (map entry_bytes es))" "list_all entry_ok es"
    and "sdt_length (mem s) madt = of_nat (44 + length (concat (map entry_bytes es)))"
    and "44 + length (concat (map entry_bytes es)) < 2 ^ 32" "unat madt + 44 + length (concat (map entry_bytes es)) < 2 ^ 64"
    and "acpi_ok s" "cpu_count s = 0" "ioapic_count s = 0"
  shows "\<exists>s'. parse_madt_entries madt s = Some s' \<and>
     (let xs = concat (map entry_cpu es) in listed_cpus s' = map (\<lambda>i. make_cpu i (xs ! i)) [0..<min 64 (length xs)]) \<and>
     listed_ioapics s' = take 8 (concat (map entry_ioapic es))"
proof -
  define n where "n = length (concat (map entry_bytes es))"
  have u: "unat (madt + MADT_SIZE) = unat madt + 44" using assms(5) by (simp add: unat_word_ariths)
  have "(ucast (of_nat (44 + n) :: u32) :: u64) = of_nat (44 + n)"
    using assms(4) unfolding n_def [symmetric] by (simp only: unsigned_of_nat) (simp add: take_bit_nat_eq_self)
  then have stop: "madt + ucast (sdt_length (mem s) madt) = madt + MADT_SIZE + of_nat n"
    unfolding assms(3) n_def [symmetric] by (simp add: add.assoc)
  have "parse_madt_entries madt s = Some (fold entry_effect es s)"
    unfolding parse_madt_entries_def stop n_def using assms(1,2,5) u by (intro parse_entries) simp_all
  moreover have "listed_cpus s = map (\<lambda>i. make_cpu i ([] ! i)) [0..<min 64 (length [])]" "listed_ioapics s = take 8 []"
    using assms(7,8) by (simp_all add: listed_cpus_def listed_ioapics_def)
  ultimately show ?thesis
    using fold_effect_cpus [OF assms(6), of "[]" es] fold_effect_ioapics [OF assms(6), of "[]" es] by simp
qed

lemma demo_acpi_bytes: "bytes_at (mem demo_acpi) (0x1000 + MADT_SIZE) (concat (map entry_bytes demo_entries))"
proof -
  have len: "length (concat (map entry_bytes demo_entries)) = 32" by (simp add: demo_entries_def)
  have "mem demo_acpi (0x102C + of_nat i) = concat (map entry_bytes demo_entries) ! i" if "i < 32" for i
  proof -
    have u: "unat (0x102C + of_nat i :: u64) = 0x102C + i" using that by (simp add: unat_word_ariths unat_of_nat)
    then have "0x102C + of_nat i \<noteq> (0x1004 :: u64)" "(0x102C :: u64) \<le> 0x102C + of_nat i"
      by (auto simp: word_unat_eq_iff word_le_nat_alt)
    then show ?thesis using that u by (simp add: demo_acpi_def Let_def)
  qed
  then show ?thesis by (simp add: bytes_at_def len)
qed

lemma demo_acpi_length: "sdt_length (mem demo_acpi) 0x1000 = 76"
proof -
  have "mem demo_acpi 0x1004 = 76" "mem demo_acpi 0x1005 = 0" "mem demo_acpi 0x1006 = 0" "mem demo_acpi 0x1007 = 0"
    by (simp_all add: demo_acpi_def)
  then have "bytes_at (mem demo_acpi) 0x1004 (word_bytes 4 (76 :: u32))"
    by (simp add: word_bytes_def upt_rec bytes_at_Cons)
  from load32_bytes [OF this] show ?thesis by (simp add: sdt_length_def)
qed

theorem madt_parse_roundtrip_witness:
  "\<exists>s'. parse_madt_entries 0x1000 demo_acpi = Some s' \<and> listed_cpus s' = [make_cpu 0 (0, 0, 1), make_cpu 1 (1, 5, 0)] \<and>
     listed_ioapics s' = [\<lparr>io_id = 2, io_address = 0xFEC00000, io_gsi_base = 0\<rparr>]"
proof -
  have len: "length (concat (map entry_bytes demo_entries)) = 32" by (simp add: demo_entries_def)
  have ok: "acpi_ok demo_acpi" "cpu_count demo_acpi = 0" "ioapic_count demo_acpi = 0" by (simp_all add: demo_acpi_def acpi_ok_def)
  from madt_parse_roundtrip [OF demo_acpi_bytes _ _ _ _ ok] demo_acpi_length len show ?thesis
    by (simp add: demo_entries_def upt_rec)
qed

text \<open>
  C30. Whatever bytes the interrupt controller table has, parsing it returns, leaves the memory alone and keeps the
  processor and I/O APIC tables well formed: the arrays keep their sizes, the counts stay within them, exactly the first
  listed processor is marked as boot processor and the enabled marks agree with the flags.
\<close>

theorem madt_tables_wellformed:
  assumes "acpi_ok s" "unat (madt + ucast (sdt_length (mem s) madt)) + 255 < 2 ^ 64"
  shows "\<exists>s'. parse_madt_entries madt s = Some s' \<and> acpi_ok s' \<and> mem s' = mem s"
  unfolding parse_madt_entries_def by (rule parse_returns [OF assms(2,1)])

theorem madt_tables_wellformed_witness:
  "\<exists>s'. parse_madt_entries 0x1000 demo_acpi = Some s' \<and> acpi_ok s' \<and> mem s' = mem demo_acpi"
  by (rule madt_tables_wellformed) (simp add: demo_acpi_def acpi_ok_def, simp add: demo_acpi_length)

end
