(* ===== verification/Serial.thy ===== *)
theory Serial
  imports Sync
begin

text \<open>
  The serial port driver (\<^verbatim>\<open>kernel/serial/serial.c\<close>). The state records every port access in order; what a
  read returns is decided by the device, a parameter that sees the accesses so far and the port. The
  text of a \<open>serial_printf\<close> call is that of the format interpreter of \<^verbatim>\<open>Format\<close>, whose code the driver
  repeats. The result \<open>None\<close> of an operation is a wait that never ends, a format the arguments do not fit, or an array
  access out of range.
\<close>

section \<open>Definitions\<close>

subsection \<open>Port access\<close>

datatype io_event = OutB u16 u8 | InB u16 u8

type_synonym io_device = "io_event list \<Rightarrow> u16 \<Rightarrow> u8"

record serial_state = percpu_state +
  io_trace :: "io_event list"
  initialized_ports :: "u16 list"
  num_initialized_ports :: int
  default_serial_port :: u16

definition outb :: "u16 \<Rightarrow> u8 \<Rightarrow> 'a serial_state_scheme \<Rightarrow> 'a serial_state_scheme" where
  "outb port val s = s\<lparr>io_trace := io_trace s @ [OutB port val]\<rparr>"

definition inb :: "io_device \<Rightarrow> u16 \<Rightarrow> 'a serial_state_scheme \<Rightarrow> u8 \<times> 'a serial_state_scheme" where
  "inb dev port s = (let val = dev (io_trace s) port in (val, s\<lparr>io_trace := io_trace s @ [InB port val]\<rparr>))"

definition SERIAL_DATA_PORT :: "u16 \<Rightarrow> u16" where [simp]: "SERIAL_DATA_PORT base = base"
definition SERIAL_FIFO_COMMAND_PORT :: "u16 \<Rightarrow> u16" where [simp]: "SERIAL_FIFO_COMMAND_PORT base = base + 2"
definition SERIAL_LINE_COMMAND_PORT :: "u16 \<Rightarrow> u16" where [simp]: "SERIAL_LINE_COMMAND_PORT base = base + 3"
definition SERIAL_MODEM_COMMAND_PORT :: "u16 \<Rightarrow> u16" where [simp]: "SERIAL_MODEM_COMMAND_PORT base = base + 4"
definition SERIAL_LINE_STATUS_PORT :: "u16 \<Rightarrow> u16" where [simp]: "SERIAL_LINE_STATUS_PORT base = base + 5"

definition SERIAL_DISABLE_INTERRUPTS :: u8 where [simp]: "SERIAL_DISABLE_INTERRUPTS = 0x00"
definition SERIAL_ENABLE_DLAB :: u8 where [simp]: "SERIAL_ENABLE_DLAB = 0x80"
definition SERIAL_BAUD_DIVISOR_LOW :: u8 where [simp]: "SERIAL_BAUD_DIVISOR_LOW = 0x03"
definition SERIAL_BAUD_DIVISOR_HIGH :: u8 where [simp]: "SERIAL_BAUD_DIVISOR_HIGH = 0x00"
definition SERIAL_LINE_CONFIG_8N1 :: u8 where [simp]: "SERIAL_LINE_CONFIG_8N1 = 0x03"
definition SERIAL_FIFO_ENABLE_CLEAR_14B :: u8 where [simp]: "SERIAL_FIFO_ENABLE_CLEAR_14B = 0xC7"
definition SERIAL_MODEM_IRQ_RTS_DSR :: u8 where [simp]: "SERIAL_MODEM_IRQ_RTS_DSR = 0x0B"
definition SERIAL_MODEM_LOOPBACK :: u8 where [simp]: "SERIAL_MODEM_LOOPBACK = 0x1E"
definition SERIAL_TEST_PAYLOAD :: u8 where [simp]: "SERIAL_TEST_PAYLOAD = 0xAE"
definition SERIAL_MODEM_NORMAL_OP :: u8 where [simp]: "SERIAL_MODEM_NORMAL_OP = 0x0F"
definition SERIAL_TRANSMIT_EMPTY_MASK :: u8 where [simp]: "SERIAL_TRANSMIT_EMPTY_MASK = 0x20"

definition SERIAL_COM1_PORT :: u16 where [simp]: "SERIAL_COM1_PORT = 0x3F8"
definition SERIAL_COM2_PORT :: u16 where [simp]: "SERIAL_COM2_PORT = 0x2F8"
definition SERIAL_COM3_PORT :: u16 where [simp]: "SERIAL_COM3_PORT = 0x3E8"
definition SERIAL_COM4_PORT :: u16 where [simp]: "SERIAL_COM4_PORT = 0x2E8"
definition MAX_SERIAL_PORTS :: nat where [simp]: "MAX_SERIAL_PORTS = 4"

definition standard_com_ports :: "u16 list" where
  "standard_com_ports = [SERIAL_COM1_PORT, SERIAL_COM2_PORT, SERIAL_COM3_PORT, SERIAL_COM4_PORT]"

subsection \<open>Output\<close>

definition get_port_index :: "u16 \<Rightarrow> 'a serial_state_scheme \<Rightarrow> int" where
  "get_port_index port s =
     (case find (\<lambda>i. initialized_ports s ! i = port) [0..<nat (num_initialized_ports s)] of Some i \<Rightarrow> int i | None \<Rightarrow> -1)"

definition set_default_serial_port :: "u16 \<Rightarrow> 'a serial_state_scheme \<Rightarrow> 'a serial_state_scheme" where
  "set_default_serial_port port s = (if get_port_index port s \<noteq> -1 then s\<lparr>default_serial_port := port\<rparr> else s)"

definition get_default_serial_port :: "'a serial_state_scheme \<Rightarrow> u16" where
  "get_default_serial_port s = default_serial_port s"

definition serial_is_transmit_empty :: "io_device \<Rightarrow> u16 \<Rightarrow> 'a serial_state_scheme \<Rightarrow> u8 \<times> 'a serial_state_scheme" where
  "serial_is_transmit_empty dev port s =
     (if get_port_index port s = -1 then (0, s)
      else let (val, s) = inb dev (SERIAL_LINE_STATUS_PORT port) s in (val AND SERIAL_TRANSMIT_EMPTY_MASK, s))"

partial_function (option) serial_wait :: "io_device \<Rightarrow> u16 \<Rightarrow> 'a serial_state_scheme \<Rightarrow> 'a serial_state_scheme option" where
  "serial_wait dev port s =
     (let (empty, s) = serial_is_transmit_empty dev port s in if empty = 0 then serial_wait dev port s else Some s)"

definition serial_putchar :: "io_device \<Rightarrow> u16 \<Rightarrow> char \<Rightarrow> 'a serial_state_scheme \<Rightarrow> 'a serial_state_scheme option" where
  "serial_putchar dev port c s =
     (if get_port_index port s = -1 then Some s
      else map_option (outb (SERIAL_DATA_PORT port) (of_char c)) (serial_wait dev port s))"

primrec serial_write_loop :: "io_device \<Rightarrow> u16 \<Rightarrow> string \<Rightarrow> 'a serial_state_scheme \<Rightarrow> 'a serial_state_scheme option" where
  "serial_write_loop dev port [] s = Some s"
| "serial_write_loop dev port (c # str) s = Option.bind (serial_putchar dev port c s) (serial_write_loop dev port str)"

definition serial_write :: "io_device \<Rightarrow> u16 \<Rightarrow> string \<Rightarrow> 'a serial_state_scheme \<Rightarrow> 'a serial_state_scheme option" where
  "serial_write dev port str s = (if get_port_index port s = -1 then Some s else serial_write_loop dev port str s)"

definition serial_out :: "io_device \<Rightarrow> u16 \<Rightarrow> outcall \<Rightarrow> 'a serial_state_scheme \<Rightarrow> 'a serial_state_scheme option" where
  "serial_out dev port out s =
     (case out of
        OChar c \<Rightarrow> serial_putchar dev port c s
      | OStr str \<Rightarrow> serial_write dev port str s
      | OArg c \<Rightarrow> serial_putchar dev port c s
      | OUnknown c \<Rightarrow> serial_putchar dev port c s)"

primrec serial_outs :: "io_device \<Rightarrow> u16 \<Rightarrow> outcall list \<Rightarrow> 'a serial_state_scheme \<Rightarrow> 'a serial_state_scheme option" where
  "serial_outs dev port [] s = Some s"
| "serial_outs dev port (out # outs) s = Option.bind (serial_out dev port out s) (serial_outs dev port outs)"

text \<open>The locks of the ports are an array of spinlocks; a spinlock has 16 bytes.\<close>

definition printf_spinlock :: "u64 \<Rightarrow> int \<Rightarrow> u64" where
  "printf_spinlock locks index = locks + 16 * word_of_int index"

definition serial_printf ::
  "io_device \<Rightarrow> u64 \<Rightarrow> u32 \<Rightarrow> cbuf \<Rightarrow> u16 \<Rightarrow> string \<Rightarrow> vararg list \<Rightarrow> 'a serial_state_scheme \<Rightarrow> 'a serial_state_scheme result option" where
  "serial_printf dev locks me buf port format args s =
     (let index = get_port_index port s
      in if index = -1 then Some (Inr s)
         else Option.bind (acquire_spinlock me (printf_spinlock locks index) s) (\<lambda>s.
           Option.bind (printf_loop format args buf) (\<lambda>outs.
             Option.bind (serial_outs dev port outs s) (\<lambda>s.
               Some (release_spinlock me (printf_spinlock locks index) s)))))"

subsection \<open>Detection\<close>

text \<open>\<open>initialized_ports[i] = port\<close>.\<close>

definition set_port :: "int \<Rightarrow> u16 \<Rightarrow> 'a serial_state_scheme \<Rightarrow> 'a serial_state_scheme option" where
  "set_port i port s =
     (if 0 \<le> i \<and> i < int MAX_SERIAL_PORTS then Some (s\<lparr>initialized_ports := (initialized_ports s)[nat i := port]\<rparr>) else None)"

definition serial_setup :: "u16 \<Rightarrow> 'a serial_state_scheme \<Rightarrow> 'a serial_state_scheme" where
  "serial_setup port s =
     (let s = outb (port + 1) SERIAL_DISABLE_INTERRUPTS s;
          s = outb (SERIAL_LINE_COMMAND_PORT port) SERIAL_ENABLE_DLAB s;
          s = outb (SERIAL_DATA_PORT port) SERIAL_BAUD_DIVISOR_LOW s;
          s = outb (port + 1) SERIAL_BAUD_DIVISOR_HIGH s;
          s = outb (SERIAL_LINE_COMMAND_PORT port) SERIAL_LINE_CONFIG_8N1 s;
          s = outb (SERIAL_FIFO_COMMAND_PORT port) SERIAL_FIFO_ENABLE_CLEAR_14B s;
          s = outb (SERIAL_MODEM_COMMAND_PORT port) SERIAL_MODEM_IRQ_RTS_DSR s;
          s = outb (SERIAL_MODEM_COMMAND_PORT port) SERIAL_MODEM_LOOPBACK s
      in outb (SERIAL_DATA_PORT port) SERIAL_TEST_PAYLOAD s)"

text \<open>The slot of the port, if there is one or room for it.\<close>

definition serial_slot :: "u16 \<Rightarrow> 'a serial_state_scheme \<Rightarrow> (int option \<times> 'a serial_state_scheme) option" where
  "serial_slot port s =
     (let index = get_port_index port s
      in if index = -1 then
           if num_initialized_ports s \<ge> int MAX_SERIAL_PORTS then Some (None, s)
           else
             let index = num_initialized_ports s;
                 s = s\<lparr>num_initialized_ports := index + 1\<rparr>
             in map_option (\<lambda>s. (Some index, s)) (set_port index port s)
         else Some (Some index, s))"

definition init_serial ::
  "io_device \<Rightarrow> u64 \<Rightarrow> (int \<Rightarrow> u64) \<Rightarrow> u32 \<Rightarrow> cbuf \<Rightarrow> u16 \<Rightarrow> 'a serial_state_scheme \<Rightarrow> (int \<times> 'a serial_state_scheme) result option" where
  "init_serial dev locks names me buf port s =
     (if port = 0 then Some (Inr (-1, s))
      else
        let (val, s) = inb dev (SERIAL_DATA_PORT port) (serial_setup port s)
        in if val \<noteq> SERIAL_TEST_PAYLOAD then Some (Inr (-1, s))
           else
             let s = outb (SERIAL_MODEM_COMMAND_PORT port) SERIAL_MODEM_NORMAL_OP s
             in Option.bind (serial_slot port s) (\<lambda>(slot, s). case slot of
                  None \<Rightarrow> Some (Inr (-1, s))
                | Some index \<Rightarrow>
                    let s = s\<lparr>mem := init_spinlock (printf_spinlock locks index) (names index) (mem s)\<rparr>
                    in Option.bind (serial_printf dev locks me buf port
                         (''[SERIAL] Serial port at 0x%x initialized successfully'' @ [CHR 0x0D, CHR 0x0A]) [ANum (ucast port)] s)
                       (\<lambda>r. Some (bind_result r (\<lambda>s.
                          Inr (0, if num_initialized_ports s = 1 then set_default_serial_port port s else s))))))"

primrec detect_loop ::
  "io_device \<Rightarrow> u64 \<Rightarrow> (int \<Rightarrow> u64) \<Rightarrow> u32 \<Rightarrow> cbuf \<Rightarrow> u16 list \<Rightarrow> 'a serial_state_scheme \<Rightarrow> 'a serial_state_scheme result option" where
  "detect_loop dev locks names me buf [] s = Some (Inr s)"
| "detect_loop dev locks names me buf (port # ports) s =
     Option.bind (init_serial dev locks names me buf port s) (\<lambda>r. case r of
       Inl e \<Rightarrow> Some (Inl e)
     | Inr (ret, s) \<Rightarrow>
         Option.bind
           (if ret = 0 then
              let n = num_initialized_ports s
              in set_port n port (s\<lparr>num_initialized_ports := n + 1\<rparr>)
            else Some s)
           (detect_loop dev locks names me buf ports))"

definition detect_serial_ports ::
  "io_device \<Rightarrow> u64 \<Rightarrow> (int \<Rightarrow> u64) \<Rightarrow> u32 \<Rightarrow> cbuf \<Rightarrow> 'a serial_state_scheme \<Rightarrow> (int \<times> 'a serial_state_scheme) result option" where
  "detect_serial_ports dev locks names me buf s =
     (if num_initialized_ports s \<noteq> -1 then Some (Inr (num_initialized_ports s, s))
      else map_option (\<lambda>r. bind_result r (\<lambda>s. Inr (num_initialized_ports s, s)))
        (detect_loop dev locks names me buf standard_com_ports (s\<lparr>num_initialized_ports := 0\<rparr>)))"

definition init_serial_ports ::
  "io_device \<Rightarrow> u64 \<Rightarrow> (int \<Rightarrow> u64) \<Rightarrow> u32 \<Rightarrow> cbuf \<Rightarrow> 'a serial_state_scheme \<Rightarrow> (int \<times> 'a serial_state_scheme) result option" where
  "init_serial_ports dev locks names me buf s =
     map_option (\<lambda>r. bind_result r (\<lambda>(serial_ports_count, s).
       if serial_ports_count \<le> 0 then Inr (-1, s)
       else
         let used_port = serial_ports_count - 1
         in Inr (serial_ports_count, set_default_serial_port (initialized_ports s ! nat used_port) s)))
       (detect_serial_ports dev locks names me buf s)"

section \<open>Reference definitions\<close>

text \<open>A device whose transmitter always becomes empty again.\<close>

definition transmitting :: "io_device \<Rightarrow> u16 \<Rightarrow> bool" where
  "transmitting dev port \<longleftrightarrow> settles (\<lambda>t. dev t (SERIAL_LINE_STATUS_PORT port)) (InB (SERIAL_LINE_STATUS_PORT port))
     (\<lambda>v. v AND SERIAL_TRANSMIT_EMPTY_MASK \<noteq> 0)"

text \<open>The bytes written to a port.\<close>

definition sent_bytes :: "u16 \<Rightarrow> io_event list \<Rightarrow> u8 list" where
  "sent_bytes port t = concat (map (\<lambda>e. case e of OutB p v \<Rightarrow> if p = port then [v] else [] | InB p v \<Rightarrow> []) t)"

text \<open>Only the data port is written and only the line status is read, and before every byte the last read had the empty bit.\<close>

fun paced :: "u16 \<Rightarrow> bool \<Rightarrow> io_event list \<Rightarrow> bool" where
  "paced port rdy [] = True"
| "paced port rdy (InB p v # t) =
     (p = SERIAL_LINE_STATUS_PORT port \<and> paced port (v AND SERIAL_TRANSMIT_EMPTY_MASK \<noteq> 0) t)"
| "paced port rdy (OutB p v # t) = (p = SERIAL_DATA_PORT port \<and> rdy \<and> paced port False t)"

text \<open>
  What the registers of a 16550 at \<open>port\<close> hold after a sequence of accesses: the divisor latch bit of the line control
  register, the loopback bit of the modem control register, and the bytes in the receive buffer. In loopback mode a byte
  written to the data register, with the divisor latch off, goes to the receive buffer; resetting the receive buffer empties
  it and a read of the data register takes its first byte.
\<close>

record uart_regs =
  u_dlab :: bool
  u_loop :: bool
  u_rx :: "u8 list"

primrec uart_step :: "u16 \<Rightarrow> io_event \<Rightarrow> uart_regs \<Rightarrow> uart_regs" where
  "uart_step port (OutB p v) u =
     (if p = port + 3 then u\<lparr>u_dlab := (v AND 0x80 \<noteq> 0)\<rparr>
      else if p = port + 4 then u\<lparr>u_loop := (v AND 0x10 \<noteq> 0)\<rparr>
      else if p = port + 2 then (if v AND 0x02 \<noteq> 0 then u\<lparr>u_rx := []\<rparr> else u)
      else if p = port \<and> \<not> u_dlab u \<and> u_loop u then u\<lparr>u_rx := u_rx u @ [v]\<rparr> else u)"
| "uart_step port (InB p v) u = (if p = port \<and> \<not> u_dlab u then u\<lparr>u_rx := tl (u_rx u)\<rparr> else u)"

definition uart :: "u16 \<Rightarrow> io_event list \<Rightarrow> uart_regs" where
  "uart port t = fold (uart_step port) t \<lparr>u_dlab = False, u_loop = False, u_rx = []\<rparr>"

text \<open>
  A port that is there: in loopback mode, with the divisor latch off, a read of the data register gives the first byte of the
  receive buffer. A port that is not there: every read gives \<open>0xFF\<close>, the value of the undriven bus.
\<close>

definition echoes :: "io_device \<Rightarrow> u16 \<Rightarrow> bool" where
  "echoes dev port \<longleftrightarrow>
     (\<forall>t v vs. \<not> u_dlab (uart port t) \<longrightarrow> u_loop (uart port t) \<longrightarrow> u_rx (uart port t) = v # vs \<longrightarrow> dev t port = v)"

definition silent :: "io_device \<Rightarrow> u16 \<Rightarrow> bool" where
  "silent dev port \<longleftrightarrow> (\<forall>t. dev t port = 0xFF)"

text \<open>The state of the driver when the ports \<open>l\<close> fill the first slots and every lock is free.\<close>

definition ports_ok :: "u64 \<Rightarrow> u32 \<Rightarrow> bool \<Rightarrow> nat \<Rightarrow> u16 list \<Rightarrow> 'a serial_state_scheme \<Rightarrow> bool" where
  "ports_ok locks me b n l s \<longleftrightarrow>
     num_initialized_ports s = int (length l) \<and> length l \<le> MAX_SERIAL_PORTS \<and>
     length (initialized_ports s) = MAX_SERIAL_PORTS \<and> take (length l) (initialized_ports s) = l \<and>
     (\<forall>i < MAX_SERIAL_PORTS. load32 (mem s) (printf_spinlock locks (int i)) = 0) \<and> cli_at me b n s"

text \<open>Every port twice.\<close>

definition twice :: "'a list \<Rightarrow> 'a list" where
  "twice xs = concat (map (\<lambda>x. [x, x]) xs)"

text \<open>
  A device with a transmitter that is busy at every second access, and one with COM1 and COM2, which only echo in loopback
  mode.
\<close>

definition busy_device :: io_device where
  "busy_device t p = (if odd (length t) then 0x20 else 0)"

definition two_ports :: io_device where
  "two_ports t p =
     (if p = 0x3F8 \<or> p = 0x2F8 then (if u_loop (uart p t) \<and> u_rx (uart p t) \<noteq> [] then hd (u_rx (uart p t)) else 0)
      else if p = 0x3FD \<or> p = 0x2FD then 0x60 else 0xFF)"

definition demo_serial :: "u16 list \<Rightarrow> int \<Rightarrow> serial_state" where
  "demo_serial ports k = percpu_state.extend demo_percpu (serial_state.fields [] ports k 0x3F8)"

section \<open>Sending\<close>

lemma paced_weaken: "paced port False t \<Longrightarrow> paced port r t"
  by (cases t rule: list.exhaust; simp) (metis io_event.exhaust paced.simps(2,3))

lemma paced_append: "\<lbrakk>paced port r t; paced port False u\<rbrakk> \<Longrightarrow> paced port r (t @ u)"
  by (induction port r t rule: paced.induct) (simp_all add: paced_weaken)

lemma sent_bytes_simps [simp]:
  "sent_bytes port [] = []" "sent_bytes port (InB p v # t) = sent_bytes port t"
  "sent_bytes port (OutB p v # t) = (if p = port then v # sent_bytes port t else sent_bytes port t)"
  "sent_bytes port (t @ u) = sent_bytes port t @ sent_bytes port u"
  by (simp_all add: sent_bytes_def)

lemma get_port_index_trace [simp]: "get_port_index port (s\<lparr>io_trace := t\<rparr>) = get_port_index port s"
  by (simp add: get_port_index_def)

interpretation serial_poll: polling "serial_wait dev port" io_trace "\<lambda>t. io_trace_update (\<lambda>_. t)" "\<lambda>t. dev t (SERIAL_LINE_STATUS_PORT port)"
  "InB (SERIAL_LINE_STATUS_PORT port)" "\<lambda>v. v AND SERIAL_TRANSMIT_EMPTY_MASK \<noteq> 0" "\<lambda>s. get_port_index port s \<noteq> -1" for dev port
  by unfold_locales (subst serial_wait.simps, simp_all add: serial_is_transmit_empty_def inb_def Let_def)

lemma paced_reads:
  "paced port r (map (InB (SERIAL_LINE_STATUS_PORT port)) vs)" "sent_bytes port (map (InB q) vs) = []"
  by (induction vs arbitrary: r) simp_all

lemma serial_putchar_sends:
  assumes "get_port_index port s \<noteq> -1" "transmitting dev port"
  shows "\<exists>tr. serial_putchar dev port c s = Some (s\<lparr>io_trace := io_trace s @ tr\<rparr>) \<and> paced port False tr \<and>
     sent_bytes port tr = [of_char c]"
proof -
  let ?q = "SERIAL_LINE_STATUS_PORT port"
  obtain vs v where w: "serial_wait dev port s = Some (s\<lparr>io_trace := io_trace s @ map (InB ?q) vs @ [InB ?q v]\<rparr>)"
    and v: "v AND SERIAL_TRANSMIT_EMPTY_MASK \<noteq> 0"
    using serial_poll.returns [of port s dev] assms unfolding transmitting_def by blast
  let ?tr = "map (InB ?q) vs @ [InB ?q v, OutB port (of_char c)]"
  have "paced port False ?tr" using v by (intro paced_append paced_reads) simp
  then show ?thesis using w assms(1) by (intro exI [of _ ?tr]) (simp add: serial_putchar_def outb_def paced_reads)
qed

lemma serial_write_loop_sends:
  assumes "get_port_index port s \<noteq> -1" "transmitting dev port"
  shows "\<exists>tr. serial_write_loop dev port str s = Some (s\<lparr>io_trace := io_trace s @ tr\<rparr>) \<and> paced port False tr \<and>
     sent_bytes port tr = map of_char str"
  using assms(1)
proof (induction str arbitrary: s)
  case Nil
  show ?case by (intro exI [of _ "[]"]) simp
next
  case (Cons c str)
  obtain t1 where t1: "serial_putchar dev port c s = Some (s\<lparr>io_trace := io_trace s @ t1\<rparr>)" "paced port False t1"
    "sent_bytes port t1 = [of_char c]" using serial_putchar_sends [OF Cons.prems assms(2)] by blast
  obtain t2 where t2: "serial_write_loop dev port str (s\<lparr>io_trace := io_trace s @ t1\<rparr>) = Some (s\<lparr>io_trace := io_trace s @ t1 @ t2\<rparr>)"
    "paced port False t2" "sent_bytes port t2 = map of_char str"
    using Cons.IH [of "s\<lparr>io_trace := io_trace s @ t1\<rparr>"] Cons.prems by auto
  from t1 t2 show ?case by (intro exI [of _ "t1 @ t2"]) (simp add: paced_append)
qed

lemma serial_out_sends:
  assumes "get_port_index port s \<noteq> -1" "transmitting dev port"
  shows "\<exists>tr. serial_out dev port out s = Some (s\<lparr>io_trace := io_trace s @ tr\<rparr>) \<and> paced port False tr \<and>
     sent_bytes port tr = map of_char (out_text out)"
  using serial_putchar_sends [OF assms] serial_write_loop_sends [OF assms] assms(1)
  by (cases out) (simp_all add: serial_out_def out_text_def serial_write_def)

lemma serial_outs_sends:
  assumes "get_port_index port s \<noteq> -1" "transmitting dev port"
  shows "\<exists>tr. serial_outs dev port outs s = Some (s\<lparr>io_trace := io_trace s @ tr\<rparr>) \<and> paced port False tr \<and>
     sent_bytes port tr = map of_char (concat (map out_text outs))"
  using assms(1)
proof (induction outs arbitrary: s)
  case Nil
  show ?case by (intro exI [of _ "[]"]) simp
next
  case (Cons out outs)
  obtain t1 where t1: "serial_out dev port out s = Some (s\<lparr>io_trace := io_trace s @ t1\<rparr>)" "paced port False t1"
    "sent_bytes port t1 = map of_char (out_text out)" using serial_out_sends [OF Cons.prems assms(2)] by blast
  obtain t2 where t2: "serial_outs dev port outs (s\<lparr>io_trace := io_trace s @ t1\<rparr>) = Some (s\<lparr>io_trace := io_trace s @ t1 @ t2\<rparr>)"
    "paced port False t2" "sent_bytes port t2 = map of_char (concat (map out_text outs))"
    using Cons.IH [of "s\<lparr>io_trace := io_trace s @ t1\<rparr>"] Cons.prems by auto
  from t1 t2 show ?case by (intro exI [of _ "t1 @ t2"]) (simp add: paced_append)
qed

section \<open>The lock of a port\<close>

lemma acquire_spinlock_free:
  assumes "load32 (mem s) lk = 0" "cli_at me b n s"
  shows "\<exists>s'. acquire_spinlock me lk s = Some s' \<and> mem s' = store32 (mem s) lk 1 \<and> cli_at me b (Suc n) s' \<and>
     percpu_state.more s' = percpu_state.more s"
proof -
  have l: "cpu_local me s (pushcli me s)" by (rule cpu_local_pushcli)
  then show ?thesis using assms acquire_loop_free [of "mem s" lk] pushcli_at [OF assms(2)]
    by (simp add: acquire_spinlock_def Let_def cpu_local_def)
qed

lemma release_spinlock_held:
  assumes "load32 (mem s) lk = 1" "cli_at me b (Suc n) s"
  shows "\<exists>s'. release_spinlock me lk s = Inr s' \<and> mem s' = store32 (mem s) lk 0 \<and> cli_at me b n s' \<and>
     percpu_state.more s' = percpu_state.more s"
proof -
  obtain s1 where s1: "holding_spinlock me lk s = Inr (mem s lk, s1)" "cli_at me b (Suc n) s1" "cpu_local me s s1"
    using holding_spinlock_at [OF assms(2)] by blast
  let ?s2 = "s1\<lparr>mem := unlock_word lk (mem s1)\<rparr>"
  have "cli_at me b (Suc n) ?s2" using s1(2) by simp
  then obtain s3 where s3: "popcli me ?s2 = Inr s3" "cli_at me b n s3" using popcli_at by blast
  have "release_spinlock me lk s = Inr s3" using s1(1) s3(1) load32_one [OF assms(1)] by (simp add: release_spinlock_def)
  then show ?thesis using s3(2) s1(3) cpu_local_popcli [OF s3(1)] by (simp add: cpu_local_def unlock_word_def)
qed

lemma serial_more:
  assumes "percpu_state.more s' = percpu_state.more s"
  shows "io_trace s' = io_trace s" "initialized_ports s' = initialized_ports s"
    "num_initialized_ports s' = num_initialized_ports s" "default_serial_port s' = default_serial_port s"
  using assms by (cases s; cases s'; simp)+

lemma serial_upd_simps [simp]:
  "cli_at a b n (s\<lparr>io_trace := t\<rparr>) = cli_at a b n s" "cli_at a b n (s\<lparr>num_initialized_ports := k\<rparr>) = cli_at a b n s"
  "cli_at a b n (s\<lparr>initialized_ports := ps\<rparr>) = cli_at a b n s" "cli_at a b n (s\<lparr>default_serial_port := d\<rparr>) = cli_at a b n s"
  by (simp_all add: cli_at_def Let_def mycpu_def the_cpu_def ref_ok_def split: cpu_ref.split)

lemma serial_printf_returns:
  assumes "get_port_index port s = i" "i \<noteq> -1" "load32 (mem s) (printf_spinlock locks i) = 0" "cli_at me b n s"
    and "transmitting dev port" "printf_text format args buf = Some text"
  shows "\<exists>s' tr. serial_printf dev locks me buf port format args s = Some (Inr s') \<and> io_trace s' = io_trace s @ tr \<and>
     paced port False tr \<and> sent_bytes port tr = map of_char text \<and>
     mem s' = store32 (store32 (mem s) (printf_spinlock locks i) 1) (printf_spinlock locks i) 0 \<and> cli_at me b n s' \<and>
     initialized_ports s' = initialized_ports s \<and> num_initialized_ports s' = num_initialized_ports s \<and>
     default_serial_port s' = default_serial_port s"
proof -
  let ?lk = "printf_spinlock locks i"
  obtain outs where outs: "printf_loop format args buf = Some outs" "text = concat (map out_text outs)"
    using assms(6) by (auto simp: printf_text_def)
  obtain s1 where s1: "acquire_spinlock me ?lk s = Some s1" "mem s1 = store32 (mem s) ?lk 1" "cli_at me b (Suc n) s1"
    and m1: "percpu_state.more s1 = percpu_state.more s" using acquire_spinlock_free [OF assms(3,4)] by blast
  have i1: "get_port_index port s1 \<noteq> -1" using assms(1,2) serial_more [OF m1] by (simp add: get_port_index_def)
  obtain tr where tr: "serial_outs dev port outs s1 = Some (s1\<lparr>io_trace := io_trace s1 @ tr\<rparr>)" "paced port False tr"
    "sent_bytes port tr = map of_char text" using serial_outs_sends [OF i1 assms(5)] outs(2) by blast
  let ?s2 = "s1\<lparr>io_trace := io_trace s1 @ tr\<rparr>"
  have "load32 (mem ?s2) ?lk = 1" using s1(2) by (simp add: load32_store32_same)
  from release_spinlock_held [OF this, of me b n] s1(3) obtain s3 where
    s3: "release_spinlock me ?lk ?s2 = Inr s3" "mem s3 = store32 (mem s1) ?lk 0" "cli_at me b n s3"
    and m3: "percpu_state.more s3 = percpu_state.more ?s2" by auto
  have "serial_printf dev locks me buf port format args s = Some (Inr s3)"
    using assms(1,2) s1(1) outs(1) tr(1) s3(1) by (simp add: serial_printf_def Let_def)
  then show ?thesis using s1(2) s3 tr serial_more [OF m3] serial_more [OF m1] by auto
qed

section \<open>The message of a port\<close>

lemma convert_unsigned_field:
  fixes spec :: fmt_spec and n :: u64
  assumes "2 \<le> radix" "radix \<le> 16" "fs_width spec \<le> 100" "fs_precision spec < 0"
  shows "\<exists>out buf'. convert_unsigned spec radix (ANum n # args) buf = Some ([OStr out], args, buf')"
proof -
  let ?v = "unsigned_arg (fs_length spec) n"
  let ?ds = "num_string (nat radix) (has_flag spec FMT_FLAG_UPPER) (unat ?v)" and ?p = "number_prefix spec radix ?v"
  define out where "out = number_field spec ?p ?ds"
  have r: "2 \<le> nat radix" "nat radix \<le> 16" using assms(1,2) by linarith+
  have "unat ?v < 2 ^ LENGTH(64)" by (rule unsigned_less)
  then have "length ?ds \<le> 64" using num_string_length(2) [OF r(1)] by simp
  moreover have "length ?p \<le> 2" by (simp add: number_prefix_def)
  ultimately have len: "length out < buf_size"
    using assms(3,4) by (auto simp: out_def number_field_def Let_def)
  have "NUL \<notin> set ?p" by (simp add: number_prefix_def)
  then have nul: "NUL \<notin> set out" unfolding out_def using r by (intro number_field_no_nul number_digits_no_nul)
  obtain buf' where "format_unsigned ?v buf radix spec = Some (length out, buf')" "cstr buf' (length out) = out" "buf' (length out) = NUL"
    using format_unsigned_spec [OF assms(1,2)] unfolding out_def by blast
  then show ?thesis using buf_text_cstr [OF _ _ nul] len by (auto simp: convert_unsigned_def put_unsigned_def)
qed

lemma port_message:
  "\<exists>text. printf_text (''[SERIAL] Serial port at 0x%x initialized successfully'' @ [CHR 0x0D, CHR 0x0A]) [ANum p] buf = Some text"
proof -
  let ?spec = "\<lparr>fs_flags = 0, fs_width = -1, fs_precision = -1, fs_length = FMT_LEN_DEFAULT\<rparr>"
  obtain out buf' where "convert_unsigned ?spec 16 [ANum p] buf = Some ([OStr out], [], buf')"
    using convert_unsigned_field [of 16 ?spec p "[]" buf] by auto
  then have c: "convert ?spec CHR ''x'' [ANum p] buf = Some ([OStr out], [], buf')" by (simp add: convert_def)
  have "spec_string ?spec = ''''" by (simp add: spec_string_def flag_string_def length_string_def)
  then show ?thesis
    using printf_text_conv [OF _ _ _ _ c, of "''[SERIAL] Serial port at 0x''" "'' initialized successfully'' @ [CHR 0x0D, CHR 0x0A]"]
    by (simp add: spec_ok_def is_conv_def)
qed

section \<open>Locks of different ports\<close>

lemma lock_disjoint:
  assumes "i < 4" "j < 4" "k < 4"
  shows "\<not> unat (printf_spinlock locks (int j) + of_nat k - (printf_spinlock locks (int i) + 8)) < 8"
    and "i \<noteq> j \<Longrightarrow> \<not> unat (printf_spinlock locks (int j) + of_nat k - printf_spinlock locks (int i)) < 4"
proof -
  have e: "x = 0 \<or> x = 1 \<or> x = 2 \<or> x = 3" if "x < 4" for x :: nat using that by linarith
  show "\<not> unat (printf_spinlock locks (int j) + of_nat k - (printf_spinlock locks (int i) + 8)) < 8"
    using e [OF assms(1)] e [OF assms(2)] e [OF assms(3)] by (elim disjE) (simp_all add: printf_spinlock_def)
  show "i \<noteq> j \<Longrightarrow> \<not> unat (printf_spinlock locks (int j) + of_nat k - printf_spinlock locks (int i)) < 4"
    using e [OF assms(1)] e [OF assms(2)] e [OF assms(3)] by (elim disjE) (simp_all add: printf_spinlock_def)
qed

lemma init_spinlock_lock:
  assumes "i < 4" "j < 4" "load32 m (printf_spinlock locks (int i)) = 0"
  shows "load32 (init_spinlock (printf_spinlock locks (int i)) name m) (printf_spinlock locks (int j)) = load32 m (printf_spinlock locks (int j))"
proof -
  let ?a = "printf_spinlock locks (int i)"
  have "m ?a = 0" using load32_byte [of m ?a] assms(3) by simp
  then have "m(?a := 0) = m" by auto
  then show ?thesis unfolding init_spinlock_def Let_def load32_def
    using lock_disjoint(1) [OF assms(1,2)] by (simp add: load_le_cong [of 4 "store64 m (?a + 8) name"] store64_apply)
qed

lemma store32_lock:
  assumes "i < 4" "j < 4" "i \<noteq> j"
  shows "load32 (store32 m (printf_spinlock locks (int i)) v) (printf_spinlock locks (int j)) = load32 m (printf_spinlock locks (int j))"
proof -
  let ?a = "printf_spinlock locks (int i)" and ?b = "printf_spinlock locks (int j)"
  have "store32 m ?a v (?b + of_nat k) = m (?b + of_nat k)" if "k < 4" for k
    using lock_disjoint(2) [OF assms(1,2) that assms(3)] by (simp add: store32_def store_le_apply)
  then show ?thesis unfolding load32_def by (simp add: load_le_cong [of 4 "store32 m ?a v"])
qed

section \<open>Slots\<close>

lemma get_port_index_absent:
  assumes "ports_ok locks me b n l s" "port \<notin> set l"
  shows "get_port_index port s = -1"
proof -
  have "initialized_ports s ! i \<noteq> port" if "i < length l" for i
  proof -
    have "l ! i = initialized_ports s ! i"
      using assms(1) that nth_take [of i "length l" "initialized_ports s"] by (simp add: ports_ok_def)
    then show ?thesis using assms(2) that nth_mem [of i l] by auto
  qed
  then have "find (\<lambda>i. initialized_ports s ! i = port) [0..<length l] = None" by (auto simp: find_None_iff)
  then show ?thesis using assms(1) by (simp add: get_port_index_def ports_ok_def)
qed

lemma get_port_index_last:
  assumes "ports_ok locks me b n (l @ [port]) s" "port \<notin> set l"
  shows "get_port_index port s = int (length l)"
proof -
  have nth: "initialized_ports s ! i = (l @ [port]) ! i" if "i \<le> length l" for i
    using assms(1) that nth_take [of i "Suc (length l)" "initialized_ports s"] by (simp add: ports_ok_def)
  have "initialized_ports s ! i \<noteq> port" if "i < length l" for i
    using nth [of i] assms(2) that nth_mem [of i l] by (auto simp: nth_append)
  then have "find (\<lambda>i. initialized_ports s ! i = port) [0..<Suc (length l)] = Some (length l)"
    using nth [of "length l"] by (auto simp: find_Some_iff intro!: exI [of _ "length l"] simp del: upt_Suc)
  moreover have "nat (num_initialized_ports s) = Suc (length l)" using assms(1) by (simp add: ports_ok_def)
  ultimately show ?thesis by (simp add: get_port_index_def)
qed

lemma ports_ok_add:
  assumes "ports_ok locks me b n l s" "length l < 4"
  shows "set_port (num_initialized_ports s) port (s\<lparr>num_initialized_ports := num_initialized_ports s + 1\<rparr>) =
       Some (s\<lparr>num_initialized_ports := num_initialized_ports s + 1, initialized_ports := (initialized_ports s)[length l := port]\<rparr>)"
    and "ports_ok locks me b n (l @ [port])
       (s\<lparr>num_initialized_ports := num_initialized_ports s + 1, initialized_ports := (initialized_ports s)[length l := port]\<rparr>)"
proof -
  show "set_port (num_initialized_ports s) port (s\<lparr>num_initialized_ports := num_initialized_ports s + 1\<rparr>) =
       Some (s\<lparr>num_initialized_ports := num_initialized_ports s + 1, initialized_ports := (initialized_ports s)[length l := port]\<rparr>)"
    using assms by (simp add: set_port_def ports_ok_def)
  show "ports_ok locks me b n (l @ [port])
       (s\<lparr>num_initialized_ports := num_initialized_ports s + 1, initialized_ports := (initialized_ports s)[length l := port]\<rparr>)"
    using assms by (simp add: ports_ok_def take_Suc_conv_app_nth take_update_cancel)
qed

section \<open>Detection\<close>

lemma serial_setup_trace: "\<exists>t. serial_setup port s = s\<lparr>io_trace := t\<rparr> \<and> uart port t = \<lparr>u_dlab = False, u_loop = True, u_rx = [SERIAL_TEST_PAYLOAD]\<rparr>"
  by (intro exI [of _ "io_trace s @ [OutB (port + 1) 0, OutB (port + 3) 0x80, OutB port 3, OutB (port + 1) 0, OutB (port + 3) 3,
      OutB (port + 2) 0xC7, OutB (port + 4) 0x0B, OutB (port + 4) 0x1E, OutB port SERIAL_TEST_PAYLOAD]"])
    (simp add: serial_setup_def outb_def uart_def Let_def)

lemma echo_setup:
  assumes "echoes dev port"
  obtains t where "serial_setup port s = s\<lparr>io_trace := t\<rparr>"
    "inb dev port (serial_setup port s) = (SERIAL_TEST_PAYLOAD, s\<lparr>io_trace := t @ [InB port SERIAL_TEST_PAYLOAD]\<rparr>)"
proof -
  obtain t where t: "serial_setup port s = s\<lparr>io_trace := t\<rparr>" "uart port t = \<lparr>u_dlab = False, u_loop = True, u_rx = [SERIAL_TEST_PAYLOAD]\<rparr>"
    using serial_setup_trace by blast
  then have "dev t port = SERIAL_TEST_PAYLOAD" using assms by (auto simp: echoes_def)
  then show thesis using that [OF t(1)] t(1) by (simp add: inb_def Let_def)
qed

lemma ports_ok_trace [simp]: "ports_ok locks me b n l (s\<lparr>io_trace := t\<rparr>) = ports_ok locks me b n l s"
  by (simp add: ports_ok_def)

lemma init_serial_silent:
  assumes "ports_ok locks me b n l s" "silent dev port"
  shows "\<exists>s'. init_serial dev locks names me buf port s = Some (Inr (-1, s')) \<and> ports_ok locks me b n l s'"
proof -
  obtain t where "serial_setup port s = s\<lparr>io_trace := t\<rparr>" using serial_setup_trace by blast
  then show ?thesis using assms(1) assms(2) [unfolded silent_def, rule_format, of t]
    by (simp add: init_serial_def inb_def Let_def)
qed

lemma init_serial_full:
  assumes "ports_ok locks me b n l s" "echoes dev port" "length l = 4" "port \<notin> set l"
  shows "\<exists>s'. init_serial dev locks names me buf port s = Some (Inr (-1, s')) \<and> ports_ok locks me b n l s'"
proof (cases "port = 0")
  case False
  obtain t where t: "inb dev port (serial_setup port s) = (SERIAL_TEST_PAYLOAD, s\<lparr>io_trace := t @ [InB port SERIAL_TEST_PAYLOAD]\<rparr>)"
    using echo_setup [OF assms(2)] by blast
  have "num_initialized_ports s = 4" using assms(1,3) by (simp add: ports_ok_def)
  then show ?thesis
    using False t assms(1) get_port_index_absent [OF assms(1,4)]
    by (simp add: init_serial_def outb_def serial_slot_def Let_def)
qed (use assms(1) in \<open>simp add: init_serial_def\<close>)

lemma ports_ok_default [simp]: "ports_ok locks me b n l (s\<lparr>default_serial_port := d\<rparr>) = ports_ok locks me b n l s"
  by (simp add: ports_ok_def)

lemma ports_ok_set_default [simp]: "ports_ok locks me b n l (set_default_serial_port d s) = ports_ok locks me b n l s"
  by (simp add: set_default_serial_port_def)

lemma ports_ok_init_lock:
  assumes "ports_ok locks me b n l s" "i < 4"
  shows "ports_ok locks me b n l (s\<lparr>mem := init_spinlock (printf_spinlock locks (int i)) name (mem s)\<rparr>)"
  using assms init_spinlock_lock [of i _ "mem s" locks name] by (simp add: ports_ok_def)

lemma serial_slot_room:
  assumes "ports_ok locks me b n l s" "length l < 4" "port \<notin> set l"
  shows "\<exists>s'. serial_slot port s = Some (Some (int (length l)), s') \<and> ports_ok locks me b n (l @ [port]) s'"
proof -
  have "num_initialized_ports s = int (length l)" using assms(1) by (simp add: ports_ok_def)
  then show ?thesis
    using ports_ok_add [OF assms(1,2), of port] get_port_index_absent [OF assms(1,3)] assms(2)
    by (simp add: serial_slot_def Let_def)
qed

lemma serial_printf_ports:
  assumes "ports_ok locks me b n (l @ [port]) s" "port \<notin> set l" "transmitting dev port" "printf_text format args buf = Some text"
  shows "\<exists>s'. serial_printf dev locks me buf port format args s = Some (Inr s') \<and> ports_ok locks me b n (l @ [port]) s'"
proof -
  have free: "load32 (mem s) (printf_spinlock locks (int j)) = 0" if "j < 4" for j
    using assms(1) that by (simp add: ports_ok_def)
  have l: "length l < 4" using assms(1) by (simp add: ports_ok_def)
  have cli: "cli_at me b n s" using assms(1) by (simp add: ports_ok_def)
  obtain s' where s': "serial_printf dev locks me buf port format args s = Some (Inr s')"
    "mem s' = store32 (store32 (mem s) (printf_spinlock locks (int (length l))) 1) (printf_spinlock locks (int (length l))) 0"
    "cli_at me b n s'" "initialized_ports s' = initialized_ports s" "num_initialized_ports s' = num_initialized_ports s"
    using serial_printf_returns [OF get_port_index_last [OF assms(1,2)] _ free [OF l] cli assms(3,4)] by auto
  have "load32 (mem s') (printf_spinlock locks (int j)) = 0" if "j < 4" for j
    using s'(2) free [OF that] store32_lock [OF l that] by (cases "j = length l") (simp_all add: load32_store32_same)
  then show ?thesis using s' assms(1) by (simp add: ports_ok_def)
qed

lemma init_serial_present:
  assumes "ports_ok locks me b n l s" "length l < 4" "port \<notin> set l" "port \<noteq> 0" "echoes dev port" "transmitting dev port"
  shows "\<exists>s'. init_serial dev locks names me buf port s = Some (Inr (0, s')) \<and> ports_ok locks me b n (l @ [port]) s'"
proof -
  let ?msg = "''[SERIAL] Serial port at 0x%x initialized successfully'' @ [CHR 0x0D, CHR 0x0A]"
  let ?v = SERIAL_TEST_PAYLOAD
  obtain t where t: "inb dev port (serial_setup port s) = (?v, s\<lparr>io_trace := t @ [InB port ?v]\<rparr>)" using echo_setup [OF assms(5)] by blast
  define s1 where "s1 = s\<lparr>io_trace := t @ [InB port ?v, OutB (port + 4) SERIAL_MODEM_NORMAL_OP]\<rparr>"
  have "ports_ok locks me b n l s1" using assms(1) by (simp add: s1_def)
  from serial_slot_room [OF this assms(2,3)] obtain s2 where
    s2: "serial_slot port s1 = Some (Some (int (length l)), s2)" "ports_ok locks me b n (l @ [port]) s2" by blast
  define s3 where "s3 = s2\<lparr>mem := init_spinlock (printf_spinlock locks (int (length l))) (names (int (length l))) (mem s2)\<rparr>"
  have s3: "ports_ok locks me b n (l @ [port]) s3" unfolding s3_def by (rule ports_ok_init_lock [OF s2(2) assms(2)])
  obtain msg where "printf_text ?msg [ANum (ucast port)] buf = Some msg" using port_message by blast
  from serial_printf_ports [OF s3 assms(3,6) this] obtain s4 where
    s4: "serial_printf dev locks me buf port ?msg [ANum (ucast port)] s3 = Some (Inr s4)" "ports_ok locks me b n (l @ [port]) s4" by blast
  have "init_serial dev locks names me buf port s =
      Some (Inr (0, if num_initialized_ports s4 = 1 then set_default_serial_port port s4 else s4))"
    using t assms(4) s2(1) s4(1) unfolding s1_def s3_def by (simp add: init_serial_def outb_def Let_def)
  then show ?thesis using s4(2) by simp
qed

lemma detect_loop_ports:
  assumes "ports_ok locks me b n l s" "even (length l)" "distinct ports" "set ports \<inter> set l = {}" "0 \<notin> set ports"
    and "\<forall>p \<in> set ports. if there p then echoes dev p \<and> transmitting dev p else silent dev p"
  shows "\<exists>s'. detect_loop dev locks names me buf ports s = Some (Inr s') \<and>
     ports_ok locks me b n (take 4 (l @ twice (filter there ports))) s'"
  using assms
proof (induction ports arbitrary: l s)
  case Nil
  then have "length l \<le> 4" by (simp add: ports_ok_def)
  with Nil show ?case by (simp add: twice_def)
next
  case (Cons port ports)
  have rest: "distinct ports" "0 \<notin> set ports" "port \<notin> set l" "port \<noteq> 0"
    "\<forall>p \<in> set ports. if there p then echoes dev p \<and> transmitting dev p else silent dev p" using Cons.prems by auto
  have len: "length l \<le> 4" using Cons.prems(1) by (simp add: ports_ok_def)
  consider (silent) "\<not> there port" | (full) "there port" "length l = 4" | (room) "there port" "length l < 4" using len by linarith
  then show ?case
  proof cases
    case silent
    then obtain s1 where s1: "init_serial dev locks names me buf port s = Some (Inr (-1, s1))" "ports_ok locks me b n l s1"
      using init_serial_silent [OF Cons.prems(1), of dev port names buf] Cons.prems(6) by auto
    from Cons.IH [OF s1(2) Cons.prems(2) rest(1) _ rest(2,5)] s1(1) show ?thesis using silent Cons.prems(4) by simp
  next
    case full
    then obtain s1 where s1: "init_serial dev locks names me buf port s = Some (Inr (-1, s1))" "ports_ok locks me b n l s1"
      using init_serial_full [OF Cons.prems(1) _ full(2) rest(3), of dev names buf] Cons.prems(6) by auto
    from Cons.IH [OF s1(2) Cons.prems(2) rest(1) _ rest(2,5)] s1(1) show ?thesis using full Cons.prems(4) by simp
  next
    case room
    then obtain s1 where s1: "init_serial dev locks names me buf port s = Some (Inr (0, s1))" "ports_ok locks me b n (l @ [port]) s1"
      using init_serial_present [OF Cons.prems(1) room(2) rest(3,4), of dev names buf] Cons.prems(6) by auto
    have l2: "length (l @ [port]) < 4" using room(2) Cons.prems(2) by (simp, presburger)
    note add = ports_ok_add [OF s1(2) l2, of port]
    have "even (length ((l @ [port]) @ [port]))" "set ports \<inter> set ((l @ [port]) @ [port]) = {}"
      using Cons.prems(2-4) by auto
    from Cons.IH [OF add(2) this(1) rest(1) this(2) rest(2,5)] s1(1) add(1) show ?thesis using room by (simp add: twice_def)
  qed
qed

lemma get_port_index_present:
  assumes "ports_ok locks me b n l s" "port \<in> set l"
  shows "get_port_index port s \<noteq> -1"
proof -
  obtain i where i: "i < length l" "l ! i = port" using assms(2) by (auto simp: in_set_conv_nth)
  then have "initialized_ports s ! i = port"
    using assms(1) nth_take [of i "length l" "initialized_ports s"] by (simp add: ports_ok_def)
  then have "find (\<lambda>i. initialized_ports s ! i = port) [0..<length l] \<noteq> None" using i(1) by (auto simp: find_None_iff)
  then show ?thesis using assms(1) by (auto simp: get_port_index_def ports_ok_def)
qed

lemma last_twice: "length ps \<le> 4 \<Longrightarrow> ps \<noteq> [] \<Longrightarrow> last (take 4 (twice ps)) = last (take 2 ps)"
  by (cases ps; simp; cases "tl ps"; simp add: twice_def)

lemma length_twice: "length (twice ps) = 2 * length ps"
  by (induction ps) (simp_all add: twice_def)

lemma standard_ports: "distinct standard_com_ports" "0 \<notin> set standard_com_ports" "length standard_com_ports = 4"
  by (simp_all add: standard_com_ports_def)

lemma demo_serial_simps [simp]:
  "io_trace (demo_serial ports k) = []" "initialized_ports (demo_serial ports k) = ports" "num_initialized_ports (demo_serial ports k) = k"
  "mem (demo_serial ports k) = (\<lambda>_. 0)" "load32 (\<lambda>_. 0) a = 0" "cli_at 0 True 0 (demo_serial ports k)"
  by (simp_all add: demo_serial_def demo_percpu_def percpu_state.defs serial_state.defs cli_at_def mycpu_def the_cpu_def ref_ok_def
      percpu_zero_def load32_def numeral_eq_Suc)

section \<open>Properties\<close>

text \<open>
  C3. \<open>serial_printf\<close> on a port that is set up, whose lock is free, returns as soon as the transmitter of the device always becomes
  empty again, and sends exactly the text of the call: every byte goes to the data port right after a
  read of the line status that has the empty bit, no other port is touched, the lock is free afterwards and the interrupt
  state of the processor is what it was.
\<close>

theorem serial_printf_sends:
  assumes "get_port_index port s = i" "i \<noteq> -1" "load32 (mem s) (printf_spinlock locks i) = 0" "cli_at me b n s"
    and "transmitting dev port" "printf_text format args buf = Some out"
  shows "\<exists>s' tr. serial_printf dev locks me buf port format args s = Some (Inr s') \<and> io_trace s' = io_trace s @ tr \<and>
     paced port False tr \<and> sent_bytes port tr = map of_char out \<and>
     load32 (mem s') (printf_spinlock locks i) = 0 \<and> cli_at me b n s'"
proof -
  obtain s' tr where "serial_printf dev locks me buf port format args s = Some (Inr s')" "io_trace s' = io_trace s @ tr"
    "paced port False tr" "sent_bytes port tr = map of_char out" "cli_at me b n s'"
    "mem s' = store32 (store32 (mem s) (printf_spinlock locks i) 1) (printf_spinlock locks i) 0"
    using serial_printf_returns [OF assms] by blast
  then show ?thesis by (simp add: load32_store32_same)
qed

theorem serial_printf_sends_witness:
  "\<exists>s' tr. serial_printf busy_device 0x1000 0 (\<lambda>_. NUL) 0x3F8 ''ok'' [] (demo_serial [0x3F8, 0, 0, 0] 1) = Some (Inr s') \<and>
     io_trace s' = tr \<and> sent_bytes 0x3F8 tr = [0x6F, 0x6B]"
proof -
  have i: "get_port_index 0x3F8 (demo_serial [0x3F8, 0, 0, 0] 1) = 0" by (simp add: get_port_index_def)
  have dev: "transmitting busy_device 0x3F8"
    unfolding transmitting_def settles_def
  proof
    fix t
    show "\<exists>n. busy_device (polled (\<lambda>t. busy_device t (SERIAL_LINE_STATUS_PORT 0x3F8)) (InB (SERIAL_LINE_STATUS_PORT 0x3F8)) n t)
        (SERIAL_LINE_STATUS_PORT 0x3F8) AND SERIAL_TRANSMIT_EMPTY_MASK \<noteq> 0"
      by (intro exI [of _ "if odd (length t) then 0 else 1"]) (simp add: busy_device_def)
  qed
  have "printf_text ''ok'' [] (\<lambda>_. NUL) = Some ''ok''"
    by (simp add: printf_text_def printf_loop.simps(2) out_text_def)
  from serial_printf_sends [OF i _ _ _ dev this, of "0x1000" 0 True 0] show ?thesis by auto
qed

text \<open>
  C15. Detection registers every port twice, once in \<open>init_serial\<close> and once in \<open>detect_serial_ports\<close>. Whatever standard ports
  are there (a 16550 that returns in loopback mode the byte written to it, and whose transmitter always becomes empty
  again) while the others read \<open>0xFF\<close>, \<open>init_serial_ports\<close> returns, its count is twice the number of ports and at most four, the table holds the first two
  of them twice, and the default port is the last of these two: a third and a fourth port are never set up.
\<close>

theorem serial_ports_counted_twice:
  assumes "num_initialized_ports s = -1" "length (initialized_ports s) = MAX_SERIAL_PORTS" "cli_at me b n s"
    and "\<forall>i < MAX_SERIAL_PORTS. load32 (mem s) (printf_spinlock locks (int i)) = 0"
    and "\<forall>p \<in> set standard_com_ports. if there p then echoes dev p \<and> transmitting dev p else silent dev p"
    and "ps = filter there standard_com_ports"
  shows "\<exists>s'. init_serial_ports dev locks names me buf s = Some (Inr (if ps = [] then -1 else num_initialized_ports s', s')) \<and>
     num_initialized_ports s' = int (min 4 (2 * length ps)) \<and>
     take (min 4 (2 * length ps)) (initialized_ports s') = take 4 (twice ps) \<and>
     (ps \<noteq> [] \<longrightarrow> default_serial_port s' = last (take 2 ps))"
proof -
  let ?l = "take 4 (twice ps)"
  have "ports_ok locks me b n [] (s\<lparr>num_initialized_ports := 0\<rparr>)" using assms(2-4) by (simp add: ports_ok_def)
  from detect_loop_ports [OF this _ standard_ports(1) _ standard_ports(2) assms(5), of names buf] obtain s1 where
    s1: "detect_loop dev locks names me buf standard_com_ports (s\<lparr>num_initialized_ports := 0\<rparr>) = Some (Inr s1)" "ports_ok locks me b n ?l s1"
    using assms(6) by auto
  have len: "length ?l = min 4 (2 * length ps)" by (simp add: length_twice)
  have n: "num_initialized_ports s1 = int (length ?l)" "take (length ?l) (initialized_ports s1) = ?l"
    using s1(2) by (auto simp: ports_ok_def)
  have d: "detect_serial_ports dev locks names me buf s = Some (Inr (int (length ?l), s1))"
    using s1(1) n(1) assms(1) by (simp add: detect_serial_ports_def)
  show ?thesis
  proof (cases "ps = []")
    case True
    then show ?thesis using d n by (simp add: init_serial_ports_def twice_def)
  next
    case False
    then have l1: "?l \<noteq> []" by (cases ps) (simp_all add: twice_def)
    have l2: "length ps \<le> 4" using length_filter_le [of there standard_com_ports] by (simp add: assms(6) standard_ports(3))
    note l = l1 l2
    from l have "initialized_ports s1 ! (length ?l - 1) = last ?l"
      using n(2) by (metis last_conv_nth nth_take length_greater_0_conv diff_less zero_less_one)
    then have "initialized_ports s1 ! (length ?l - 1) = last (take 2 ps)" using last_twice [OF l(2) False] by simp
    moreover have "get_port_index (last (take 2 ps)) s1 \<noteq> -1"
      using get_port_index_present [OF s1(2), of "last ?l"] last_in_set [OF l(1)] last_twice [OF l(2) False] by simp
    moreover have "nat (int (length ?l) - 1) = length ?l - 1" by simp
    ultimately have "init_serial_ports dev locks names me buf s = Some (Inr (int (length ?l), s1\<lparr>default_serial_port := last (take 2 ps)\<rparr>))"
      using d l(1) by (simp add: init_serial_ports_def set_default_serial_port_def Let_def del: length_take)
    then show ?thesis using False n len by simp
  qed
qed

theorem serial_ports_counted_twice_witness:
  "\<exists>s'. init_serial_ports two_ports 0x1000 (\<lambda>_. 0x2000) 0 (\<lambda>_. NUL) (demo_serial [0, 0, 0, 0] (-1)) = Some (Inr (4, s')) \<and>
     take 4 (initialized_ports s') = [0x3F8, 0x3F8, 0x2F8, 0x2F8]"
proof -
  let ?there = "\<lambda>p. p = 0x3F8 \<or> p = (0x2F8 :: u16)" and ?s = "demo_serial [0, 0, 0, 0] (-1)"
  have dev: "\<forall>p \<in> set standard_com_ports. if ?there p then echoes two_ports p \<and> transmitting two_ports p else silent two_ports p"
    by (simp add: standard_com_ports_def echoes_def silent_def transmitting_def settles_def two_ports_def)
  have ps: "[0x3F8, 0x2F8] = filter ?there standard_com_ports" by (simp add: standard_com_ports_def)
  from serial_ports_counted_twice [OF _ _ _ _ dev ps, of ?s 0 True 0 "0x1000" "\<lambda>_. 0x2000" "\<lambda>_. NUL"]
  obtain s' where s': "init_serial_ports two_ports 0x1000 (\<lambda>_. 0x2000) 0 (\<lambda>_. NUL) ?s = Some (Inr (num_initialized_ports s', s'))"
    "num_initialized_ports s' = 4" "take 4 (initialized_ports s') = [0x3F8, 0x3F8, 0x2F8, 0x2F8]" by (auto simp: twice_def)
  show ?thesis using s' by auto
qed

end
