(* ===== verification/Apic.thy ===== *)
theory Apic
  imports Acpi Serial
begin

text \<open>
  The interrupt controllers: the local controller of a processor (\<^verbatim>\<open>kernel/apic/lapic.c\<close>), the I/O controllers that
  route device interrupts (\<^verbatim>\<open>kernel/apic/ioapic.c\<close>) and the legacy controller (\<^verbatim>\<open>kernel/pic/pic.c\<close>). Their registers
  are not memory: the state records every register access and every port access in order, and what a read returns is
  decided by the device, a parameter that sees the accesses so far. The table of interrupt controllers is read from the
  memory of the ACPI state. A result \<open>None\<close> is a loop that never ends.
\<close>

section \<open>Definitions\<close>

subsection \<open>Register access\<close>

datatype apic_event = Write32 u64 u32 | Read32 u64 u32 | Port io_event

type_synonym apic_device = "apic_event list \<Rightarrow> u64 \<Rightarrow> u32"
type_synonym port_device = "apic_event list \<Rightarrow> u16 \<Rightarrow> u8"

record IOAPICInfo =
  ia_id :: u8
  ia_address :: u32
  ia_gsi_base :: u32
  ia_max_redirect :: u8
  ia_regs :: u64

record apic_state =
  lapic :: u64
  ioapic_infos :: "IOAPICInfo list"
  ioapic_infos_count :: u32
  apic_trace :: "apic_event list"
  apic_log :: "log_line list"

definition log_apic :: "string \<Rightarrow> string \<Rightarrow> vararg list \<Rightarrow> 'a apic_state_scheme \<Rightarrow> 'a apic_state_scheme" where
  "log_apic logger format args s = s\<lparr>apic_log := apic_log s @ [LOG_SERIAL logger format args]\<rparr>"

definition mmio_write :: "u64 \<Rightarrow> u32 \<Rightarrow> 'a apic_state_scheme \<Rightarrow> 'a apic_state_scheme" where
  "mmio_write addr value s = s\<lparr>apic_trace := apic_trace s @ [Write32 addr value]\<rparr>"

definition mmio_read :: "apic_device \<Rightarrow> u64 \<Rightarrow> 'a apic_state_scheme \<Rightarrow> u32 \<times> 'a apic_state_scheme" where
  "mmio_read dev addr s = (let v = dev (apic_trace s) addr in (v, s\<lparr>apic_trace := apic_trace s @ [Read32 addr v]\<rparr>))"

definition port_out :: "u16 \<Rightarrow> u8 \<Rightarrow> 'a apic_state_scheme \<Rightarrow> 'a apic_state_scheme" where
  "port_out port val s = s\<lparr>apic_trace := apic_trace s @ [Port (OutB port val)]\<rparr>"

definition port_in :: "port_device \<Rightarrow> u16 \<Rightarrow> 'a apic_state_scheme \<Rightarrow> u8 \<times> 'a apic_state_scheme" where
  "port_in dev port s = (let v = dev (apic_trace s) port in (v, s\<lparr>apic_trace := apic_trace s @ [Port (InB port v)]\<rparr>))"

subsection \<open>The local controller\<close>

definition LAPIC_ID :: u32 where [simp]: "LAPIC_ID = 0x0020"
definition LAPIC_VERSION :: u32 where [simp]: "LAPIC_VERSION = 0x0030"
definition LAPIC_TPR :: u32 where [simp]: "LAPIC_TPR = 0x0080"
definition LAPIC_EOI :: u32 where [simp]: "LAPIC_EOI = 0x00B0"
definition LAPIC_SVR :: u32 where [simp]: "LAPIC_SVR = 0x00F0"
definition LAPIC_ESR :: u32 where [simp]: "LAPIC_ESR = 0x0280"
definition LAPIC_ICRLO :: u32 where [simp]: "LAPIC_ICRLO = 0x0300"
definition LAPIC_ICRHI :: u32 where [simp]: "LAPIC_ICRHI = 0x0310"
definition LAPIC_TIMER :: u32 where [simp]: "LAPIC_TIMER = 0x0320"
definition LAPIC_PERF :: u32 where [simp]: "LAPIC_PERF = 0x0340"
definition LAPIC_LINT0 :: u32 where [simp]: "LAPIC_LINT0 = 0x0350"
definition LAPIC_LINT1 :: u32 where [simp]: "LAPIC_LINT1 = 0x0360"
definition LAPIC_ERROR :: u32 where [simp]: "LAPIC_ERROR = 0x0370"
definition LAPIC_TIMER_ICR :: u32 where [simp]: "LAPIC_TIMER_ICR = 0x0380"
definition LAPIC_TIMER_DCR :: u32 where [simp]: "LAPIC_TIMER_DCR = 0x03E0"
definition LAPIC_SVR_ENABLE :: u32 where [simp]: "LAPIC_SVR_ENABLE = 0x100"
definition LAPIC_TIMER_PERIODIC :: u32 where [simp]: "LAPIC_TIMER_PERIODIC = 0x20000"
definition LAPIC_TIMER_MASKED :: u32 where [simp]: "LAPIC_TIMER_MASKED = 0x10000"
definition LAPIC_ICR_INIT :: u32 where [simp]: "LAPIC_ICR_INIT = 0x500"
definition LAPIC_ICR_STARTUP :: u32 where [simp]: "LAPIC_ICR_STARTUP = 0x600"
definition LAPIC_ICR_DELIVS :: u32 where [simp]: "LAPIC_ICR_DELIVS = 0x1000"
definition LAPIC_ICR_ASSERT :: u32 where [simp]: "LAPIC_ICR_ASSERT = 0x4000"
definition LAPIC_ICR_DEASSERT :: u32 where [simp]: "LAPIC_ICR_DEASSERT = 0"
definition LAPIC_ICR_LEVEL :: u32 where [simp]: "LAPIC_ICR_LEVEL = 0x8000"
definition LAPIC_TIMER_DIV_16 :: u32 where [simp]: "LAPIC_TIMER_DIV_16 = 0x03"
definition LAPIC_SPURIOUS_VECTOR :: u32 where [simp]: "LAPIC_SPURIOUS_VECTOR = 0xFF"
definition LAPIC_ERROR_VECTOR :: u32 where [simp]: "LAPIC_ERROR_VECTOR = 51"

text \<open>\<open>lapic[reg >> 2]\<close>, an array of 32-bit registers.\<close>

definition lapic_reg :: "'a apic_state_scheme \<Rightarrow> u32 \<Rightarrow> u64" where
  "lapic_reg s reg = lapic s + 4 * ucast (drop_bit 2 reg)"

definition lapic_write :: "u32 \<Rightarrow> u32 \<Rightarrow> 'a apic_state_scheme \<Rightarrow> 'a apic_state_scheme" where
  "lapic_write reg value s = (if lapic s = 0 then s else mmio_write (lapic_reg s reg) value s)"

definition lapic_read :: "apic_device \<Rightarrow> u32 \<Rightarrow> 'a apic_state_scheme \<Rightarrow> u32 \<times> 'a apic_state_scheme" where
  "lapic_read dev reg s = (if lapic s = 0 then (0, s) else mmio_read dev (lapic_reg s reg) s)"

definition lapic_is_available :: "'a apic_state_scheme \<Rightarrow> bool" where
  "lapic_is_available s \<longleftrightarrow> lapic s \<noteq> 0"

definition lapic_get_id :: "apic_device \<Rightarrow> 'a apic_state_scheme \<Rightarrow> u8 \<times> 'a apic_state_scheme" where
  "lapic_get_id dev s =
     (if lapic s = 0 then (0, s)
      else let (v, s) = lapic_read dev LAPIC_ID s in (ucast (drop_bit 24 v), s))"

definition lapic_init :: "apic_device \<Rightarrow> 'b acpi_state_scheme \<Rightarrow> 'a apic_state_scheme \<Rightarrow> 'a apic_state_scheme" where
  "lapic_init dev acpi s =
     (let lapic_phys = get_lapic_address acpi
      in if lapic_phys = 0 then log_apic ''LAPIC'' ''ERROR: No LAPIC address found in MADT'' [] s
         else
           let s = s\<lparr>lapic := ucast lapic_phys\<rparr>;
               s = log_apic ''LAPIC'' ''Physical address: 0x%x'' [ANum (ucast lapic_phys)] s;
               s = lapic_write LAPIC_SVR (LAPIC_SVR_ENABLE OR LAPIC_SPURIOUS_VECTOR) s;
               s = lapic_write LAPIC_TPR 0 s;
               s = lapic_write LAPIC_ERROR LAPIC_ERROR_VECTOR s;
               s = lapic_write LAPIC_ESR 0 s;
               s = lapic_write LAPIC_ESR 0 s;
               s = lapic_write LAPIC_EOI 0 s;
               s = lapic_write LAPIC_LINT0 LAPIC_TIMER_MASKED s;
               s = lapic_write LAPIC_LINT1 LAPIC_TIMER_MASKED s;
               (ver, s) = lapic_read dev LAPIC_VERSION s;
               s = (if drop_bit 16 ver \<ge> 4 then lapic_write LAPIC_PERF LAPIC_TIMER_MASKED s else s);
               s = lapic_write LAPIC_ERROR LAPIC_ERROR_VECTOR s;
               s = lapic_write LAPIC_ESR 0 s;
               s = lapic_write LAPIC_ESR 0 s;
               s = lapic_write LAPIC_EOI 0 s;
               (ident, s) = lapic_get_id dev s
           in log_apic ''LAPIC'' ''Initialized on CPU with APIC ID %d'' [ANum (ucast ident)] s)"

definition lapic_eoi :: "'a apic_state_scheme \<Rightarrow> 'a apic_state_scheme" where
  "lapic_eoi s = (if lapic s = 0 then s else lapic_write LAPIC_EOI 0 s)"

definition lapic_timer_start :: "u8 \<Rightarrow> u32 \<Rightarrow> 'a apic_state_scheme \<Rightarrow> 'a apic_state_scheme" where
  "lapic_timer_start vector initial_count s =
     (if lapic s = 0 then s
      else
        let s = lapic_write LAPIC_TIMER_DCR LAPIC_TIMER_DIV_16 s;
            s = lapic_write LAPIC_TIMER (LAPIC_TIMER_PERIODIC OR ucast vector) s;
            s = lapic_write LAPIC_TIMER_ICR initial_count s
        in log_apic ''LAPIC'' ''Timer started with vector %d, initial count %d'' [ANum (ucast vector), ANum (ucast initial_count)] s)"

definition lapic_timer_stop :: "'a apic_state_scheme \<Rightarrow> 'a apic_state_scheme" where
  "lapic_timer_stop s =
     (if lapic s = 0 then s
      else let s = lapic_write LAPIC_TIMER LAPIC_TIMER_MASKED s in lapic_write LAPIC_TIMER_ICR 0 s)"

partial_function (option) lapic_ipi_wait :: "apic_device \<Rightarrow> 'a apic_state_scheme \<Rightarrow> 'a apic_state_scheme option" where
  "lapic_ipi_wait dev s =
     (let (v, s) = lapic_read dev LAPIC_ICRLO s
      in if v AND LAPIC_ICR_DELIVS \<noteq> 0 then lapic_ipi_wait dev s else Some s)"

definition lapic_send_ipi :: "apic_device \<Rightarrow> u8 \<Rightarrow> u32 \<Rightarrow> 'a apic_state_scheme \<Rightarrow> 'a apic_state_scheme option" where
  "lapic_send_ipi dev ident vector s =
     (if lapic s = 0 then Some s
      else
        let s = lapic_write LAPIC_ICRHI (push_bit 24 (ucast ident)) s;
            s = lapic_write LAPIC_ICRLO vector s
        in lapic_ipi_wait dev s)"

definition lapic_send_init :: "apic_device \<Rightarrow> u8 \<Rightarrow> 'a apic_state_scheme \<Rightarrow> 'a apic_state_scheme option" where
  "lapic_send_init dev ident s =
     (if lapic s = 0 then Some s
      else
        let s = lapic_write LAPIC_ICRHI (push_bit 24 (ucast ident)) s;
            s = lapic_write LAPIC_ICRLO (LAPIC_ICR_INIT OR LAPIC_ICR_LEVEL OR LAPIC_ICR_ASSERT) s
        in Option.bind (lapic_ipi_wait dev s) (\<lambda>s.
             let s = lapic_write LAPIC_ICRHI (push_bit 24 (ucast ident)) s;
                 s = lapic_write LAPIC_ICRLO (LAPIC_ICR_INIT OR LAPIC_ICR_LEVEL OR LAPIC_ICR_DEASSERT) s
             in lapic_ipi_wait dev s))"

definition lapic_send_sipi :: "apic_device \<Rightarrow> u8 \<Rightarrow> u8 \<Rightarrow> 'a apic_state_scheme \<Rightarrow> 'a apic_state_scheme option" where
  "lapic_send_sipi dev ident vector s =
     (if lapic s = 0 then Some s
      else
        let s = lapic_write LAPIC_ICRHI (push_bit 24 (ucast ident)) s;
            s = lapic_write LAPIC_ICRLO (LAPIC_ICR_STARTUP OR ucast vector) s
        in lapic_ipi_wait dev s)"

subsection \<open>The I/O controllers\<close>

definition IOAPIC_REGSEL :: u64 where [simp]: "IOAPIC_REGSEL = 0x00"
definition IOAPIC_REGWIN :: u64 where [simp]: "IOAPIC_REGWIN = 0x10"
definition IOAPIC_REG_VER :: u8 where [simp]: "IOAPIC_REG_VER = 0x01"
definition IOAPIC_REG_TABLE :: u32 where [simp]: "IOAPIC_REG_TABLE = 0x10"
definition IOAPIC_DELMOD_FIXED :: u32 where [simp]: "IOAPIC_DELMOD_FIXED = 0"
definition IOAPIC_DESTMOD_PHYSICAL :: u32 where [simp]: "IOAPIC_DESTMOD_PHYSICAL = 0"
definition IOAPIC_INTPOL_HIGH :: u32 where [simp]: "IOAPIC_INTPOL_HIGH = 0"
definition IOAPIC_TRIGGER_EDGE :: u32 where [simp]: "IOAPIC_TRIGGER_EDGE = 0"
definition IOAPIC_MASKED :: u32 where [simp]: "IOAPIC_MASKED = 0x10000"

definition ioapic_write :: "u64 \<Rightarrow> u8 \<Rightarrow> u32 \<Rightarrow> 'a apic_state_scheme \<Rightarrow> 'a apic_state_scheme" where
  "ioapic_write base reg value s =
     (let s = mmio_write (base + IOAPIC_REGSEL) (ucast reg) s in mmio_write (base + IOAPIC_REGWIN) value s)"

definition ioapic_read :: "apic_device \<Rightarrow> u64 \<Rightarrow> u8 \<Rightarrow> 'a apic_state_scheme \<Rightarrow> u32 \<times> 'a apic_state_scheme" where
  "ioapic_read dev base reg s =
     (let s = mmio_write (base + IOAPIC_REGSEL) (ucast reg) s in mmio_read dev (base + IOAPIC_REGWIN) s)"

definition ioapic_for_gsi :: "u32 \<Rightarrow> 'a apic_state_scheme \<Rightarrow> IOAPICInfo option" where
  "ioapic_for_gsi gsi s =
     find (\<lambda>ia. let gsi_end = ia_gsi_base ia + ucast (ia_max_redirect ia) + 1 in gsi \<ge> ia_gsi_base ia \<and> gsi < gsi_end)
       (map (\<lambda>i. ioapic_infos s ! i) [0..<unat (ioapic_infos_count s)])"

definition ioapic_is_available :: "'a apic_state_scheme \<Rightarrow> bool" where
  "ioapic_is_available s \<longleftrightarrow> ioapic_infos_count s > 0"

definition ioapic_get_count :: "'a apic_state_scheme \<Rightarrow> u32" where
  "ioapic_get_count s = ioapic_infos_count s"

text \<open>The two registers of a redirection entry; the register number is passed as a byte.\<close>

definition table_low :: "u8 \<Rightarrow> u8" where
  "table_low idx = ucast (IOAPIC_REG_TABLE + 2 * ucast idx)"

definition table_high :: "u8 \<Rightarrow> u8" where
  "table_high idx = ucast (IOAPIC_REG_TABLE + 2 * ucast idx + 1)"

definition ioapic_set_entry :: "apic_device \<Rightarrow> u8 \<Rightarrow> u8 \<Rightarrow> u8 \<Rightarrow> u32 \<Rightarrow> 'a apic_state_scheme \<Rightarrow> 'a apic_state_scheme" where
  "ioapic_set_entry dev irq vector dest flags s =
     (case ioapic_for_gsi (ucast irq) s of
        None \<Rightarrow> log_apic ''IOAPIC'' ''ERROR: No I/O APIC for GSI %d'' [ANum (ucast irq)] s
      | Some ioapic \<Rightarrow>
          let idx = ucast (ucast irq - ia_gsi_base ioapic) :: u8;
              low = ucast vector OR flags;
              high = push_bit 24 (ucast dest) :: u32;
              s = log_apic ''IOAPIC'' ''Setting entry %d: low=0x%x high=0x%x'' [ANum (ucast idx), ANum (ucast low), ANum (ucast high)] s;
              s = ioapic_write (ia_regs ioapic) (table_low idx) low s;
              s = ioapic_write (ia_regs ioapic) (table_high idx) high s;
              (read_low, s) = ioapic_read dev (ia_regs ioapic) (table_low idx) s;
              (read_high, s) = ioapic_read dev (ia_regs ioapic) (table_high idx) s
          in log_apic ''IOAPIC'' ''Verified entry %d: low=0x%x high=0x%x''
               [ANum (ucast idx), ANum (ucast read_low), ANum (ucast read_high)] s)"

definition ioapic_enable_irq :: "apic_device \<Rightarrow> u8 \<Rightarrow> u8 \<Rightarrow> u8 \<Rightarrow> 'a apic_state_scheme \<Rightarrow> 'a apic_state_scheme" where
  "ioapic_enable_irq dev irq vector dest s =
     (let flags = IOAPIC_DELMOD_FIXED OR IOAPIC_DESTMOD_PHYSICAL OR IOAPIC_INTPOL_HIGH OR IOAPIC_TRIGGER_EDGE;
          s = log_apic ''IOAPIC'' ''Enabling IRQ %d -> vector %d, dest %d, flags 0x%x''
                [ANum (ucast irq), ANum (ucast vector), ANum (ucast dest), ANum (ucast flags)] s
      in ioapic_set_entry dev irq vector dest flags s)"

definition ioapic_debug_irq :: "apic_device \<Rightarrow> u8 \<Rightarrow> 'a apic_state_scheme \<Rightarrow> 'a apic_state_scheme" where
  "ioapic_debug_irq dev irq s =
     (case ioapic_for_gsi (ucast irq) s of
        None \<Rightarrow> log_apic ''IOAPIC'' ''DEBUG: No I/O APIC for GSI %d'' [ANum (ucast irq)] s
      | Some ioapic \<Rightarrow>
          let idx = ucast (ucast irq - ia_gsi_base ioapic) :: u8;
              (low, s) = ioapic_read dev (ia_regs ioapic) (table_low idx) s;
              (high, s) = ioapic_read dev (ia_regs ioapic) (table_high idx) s
          in log_apic ''IOAPIC'' ''DEBUG IRQ %d: low=0x%x high=0x%x masked=%d''
               [ANum (ucast irq), ANum (ucast low), ANum (ucast high), ANum (if low AND IOAPIC_MASKED \<noteq> 0 then 1 else 0)] s)"

definition ioapic_disable_irq :: "apic_device \<Rightarrow> u8 \<Rightarrow> 'a apic_state_scheme \<Rightarrow> 'a apic_state_scheme" where
  "ioapic_disable_irq dev irq s =
     (case ioapic_for_gsi (ucast irq) s of
        None \<Rightarrow> s
      | Some ioapic \<Rightarrow>
          let idx = ucast (ucast irq - ia_gsi_base ioapic) :: u8;
              (low, s) = ioapic_read dev (ia_regs ioapic) (table_low idx) s
          in ioapic_write (ia_regs ioapic) (table_low idx) (low OR IOAPIC_MASKED) s)"

text \<open>The body for an entry of an I/O controller at the address \<open>e\<close>.\<close>

definition ioapic_found :: "apic_device \<Rightarrow> memory \<Rightarrow> u64 \<Rightarrow> 'a apic_state_scheme \<Rightarrow> 'a apic_state_scheme" where
  "ioapic_found dev m e s =
     (let regs = ucast (load32 m (e + 4));
          (ver, s) = ioapic_read dev regs IOAPIC_REG_VER s;
          max_entries = ucast (drop_bit 16 ver AND 0xFF);
          ia = \<lparr>ia_id = m (e + 2), ia_address = load32 m (e + 4), ia_gsi_base = load32 m (e + 8), ia_max_redirect = max_entries, ia_regs = regs\<rparr>;
          s = s\<lparr>ioapic_infos := (ioapic_infos s)[unat (ioapic_infos_count s) := ia]\<rparr>;
          s = log_apic ''IOAPIC'' ''Found I/O APIC %d at 0x%x, GSI base %d, max entries %d''
                [ANum (ucast (ia_id ia)), ANum (ucast (ia_address ia)), ANum (ucast (ia_gsi_base ia)), ANum (ucast (ia_max_redirect ia))] s
      in s\<lparr>ioapic_infos_count := ioapic_infos_count s + 1\<rparr>)"

partial_function (option) ioapic_scan :: "apic_device \<Rightarrow> memory \<Rightarrow> u64 \<Rightarrow> u64 \<Rightarrow> 'a apic_state_scheme \<Rightarrow> 'a apic_state_scheme option" where
  "ioapic_scan dev m entry_ptr end_ptr s =
     (if entry_ptr < end_ptr \<and> ioapic_infos_count s < MAX_IOAPICS then
        ioapic_scan dev m (entry_ptr + ucast (m (entry_ptr + 1))) end_ptr
          (if m entry_ptr = MADT_ENTRY_IOAPIC then ioapic_found dev m entry_ptr s else s)
      else Some s)"

text \<open>The counter of the inner loop is a byte.\<close>

partial_function (option) ioapic_mask_loop :: "apic_device \<Rightarrow> nat \<Rightarrow> u8 \<Rightarrow> 'a apic_state_scheme \<Rightarrow> 'a apic_state_scheme option" where
  "ioapic_mask_loop dev i irq s =
     (if irq \<le> ia_max_redirect (ioapic_infos s ! i) then
        let gsi = ia_gsi_base (ioapic_infos s ! i) + ucast irq
        in ioapic_mask_loop dev i (irq + 1) (ioapic_disable_irq dev (ucast gsi) s)
      else Some s)"

primrec ioapic_mask_all :: "apic_device \<Rightarrow> nat list \<Rightarrow> 'a apic_state_scheme \<Rightarrow> 'a apic_state_scheme option" where
  "ioapic_mask_all dev [] s = Some s"
| "ioapic_mask_all dev (i # is) s = Option.bind (ioapic_mask_loop dev i 0 s) (ioapic_mask_all dev is)"

definition ioapic_init :: "apic_device \<Rightarrow> 'b acpi_state_scheme \<Rightarrow> 'a apic_state_scheme \<Rightarrow> 'a apic_state_scheme option" where
  "ioapic_init dev acpi s =
     (let madt = get_madt acpi; m = mem acpi
      in if madt = 0 then Some (log_apic ''IOAPIC'' ''ERROR: No MADT table available'' [] s)
         else
           let s = s\<lparr>ioapic_infos_count := 0\<rparr>
           in Option.bind (ioapic_scan dev m (madt + MADT_SIZE) (madt + ucast (sdt_length m madt)) s) (\<lambda>s.
                if ioapic_infos_count s = 0 then Some (log_apic ''IOAPIC'' ''WARNING: No I/O APICs found'' [] s)
                else
                  map_option (\<lambda>s. log_apic ''IOAPIC'' ''Initialized %d I/O APIC(s)'' [ANum (ucast (ioapic_infos_count s))] s)
                    (ioapic_mask_all dev [0..<unat (ioapic_infos_count s)] s)))"

subsection \<open>The legacy controller\<close>

definition PIC1_COMMAND :: u16 where [simp]: "PIC1_COMMAND = 0x20"
definition PIC1_DATA :: u16 where [simp]: "PIC1_DATA = 0x21"
definition PIC2_COMMAND :: u16 where [simp]: "PIC2_COMMAND = 0xA0"
definition PIC2_DATA :: u16 where [simp]: "PIC2_DATA = 0xA1"
definition PIC_EOI :: u8 where [simp]: "PIC_EOI = 0x20"
definition ICW1 :: u8 where [simp]: "ICW1 = 0x11"
definition PIC_MASTER_OFFSET :: u8 where [simp]: "PIC_MASTER_OFFSET = 32"
definition PIC_SLAVE_OFFSET :: u8 where [simp]: "PIC_SLAVE_OFFSET = 40"
definition ICW3_MASTER :: u8 where [simp]: "ICW3_MASTER = 0x04"
definition ICW3_SLAVE :: u8 where [simp]: "ICW3_SLAVE = 0x02"
definition ICW4_8086 :: u8 where [simp]: "ICW4_8086 = 0x01"

definition pic_send_eoi :: "u8 \<Rightarrow> 'a apic_state_scheme \<Rightarrow> 'a apic_state_scheme" where
  "pic_send_eoi irq s =
     (let s = (if irq \<ge> PIC_SLAVE_OFFSET then port_out PIC2_COMMAND PIC_EOI s else s) in port_out PIC1_COMMAND PIC_EOI s)"

definition pic_init :: "'a apic_state_scheme \<Rightarrow> 'a apic_state_scheme" where
  "pic_init s =
     (let s = port_out PIC1_COMMAND ICW1 s;
          s = port_out PIC2_COMMAND ICW1 s;
          s = port_out PIC1_DATA PIC_MASTER_OFFSET s;
          s = port_out PIC2_DATA PIC_SLAVE_OFFSET s;
          s = port_out PIC1_DATA ICW3_MASTER s;
          s = port_out PIC2_DATA ICW3_SLAVE s;
          s = port_out PIC1_DATA ICW4_8086 s
      in port_out PIC2_DATA ICW4_8086 s)"

section \<open>Reference definitions\<close>

text \<open>
  The register file of the I/O controller at \<open>base\<close> after a sequence of accesses: a write to the first word selects a
  register, a write to the word at \<open>0x10\<close> goes to the register selected last. The redirection entry \<open>idx\<close> has its low half in
  register \<open>0x10 + 2 * idx\<close> and its high half in the next one; bit 16 of the low half masks the interrupt.
\<close>

definition reg_step :: "u64 \<Rightarrow> apic_event \<Rightarrow> u8 \<times> (u8 \<rightharpoonup> u32) \<Rightarrow> u8 \<times> (u8 \<rightharpoonup> u32)" where
  "reg_step base e r =
     (case e of
        Write32 a v \<Rightarrow>
          if a = base then (ucast v, snd r) else if a = base + 0x10 then (fst r, (snd r)(fst r \<mapsto> v)) else r
      | Read32 a v \<Rightarrow> r
      | Port p \<Rightarrow> r)"

definition ioapic_reg :: "u64 \<Rightarrow> apic_event list \<Rightarrow> u8 \<rightharpoonup> u32" where
  "ioapic_reg base t = snd (fold (reg_step base) t (0, Map.empty))"

text \<open>The controllers found, and what the entries of the table say about them with the version registers \<open>ver\<close>.\<close>

definition listed_infos :: "'a apic_state_scheme \<Rightarrow> IOAPICInfo list" where
  "listed_infos s = take (unat (ioapic_infos_count s)) (ioapic_infos s)"

definition infos_ok :: "'a apic_state_scheme \<Rightarrow> bool" where
  "infos_ok s \<longleftrightarrow> length (ioapic_infos s) = unat MAX_IOAPICS \<and> ioapic_infos_count s \<le> MAX_IOAPICS"

definition info_of :: "(u64 \<Rightarrow> u32) \<Rightarrow> IOAPICEntry \<Rightarrow> IOAPICInfo" where
  "info_of ver io = \<lparr>ia_id = io_id io, ia_address = io_address io, ia_gsi_base = io_gsi_base io,
     ia_max_redirect = ucast (drop_bit 16 (ver (ucast (io_address io))) AND 0xFF), ia_regs = ucast (io_address io)\<rparr>"

definition has_version :: "apic_device \<Rightarrow> u64 \<Rightarrow> u32 \<Rightarrow> bool" where
  "has_version dev base v \<longleftrightarrow> (\<forall>t. dev (t @ [Write32 base 1]) (base + 0x10) = v)"

text \<open>
  Controllers whose registers do not overlap, whose interrupts have different numbers below 256 and whose redirection
  registers have numbers that fit a byte.
\<close>

definition regs_apart :: "u64 \<Rightarrow> u64 \<Rightarrow> bool" where
  "regs_apart a b \<longleftrightarrow> a \<noteq> b \<and> a \<noteq> b + 0x10 \<and> b \<noteq> a + 0x10"

definition handles :: "IOAPICInfo \<Rightarrow> nat \<Rightarrow> bool" where
  "handles ia gsi \<longleftrightarrow> unat (ia_gsi_base ia) \<le> gsi \<and> gsi \<le> unat (ia_gsi_base ia) + unat (ia_max_redirect ia)"

definition controllers_ok :: "IOAPICInfo list \<Rightarrow> bool" where
  "controllers_ok ias \<longleftrightarrow>
     (\<forall>ia \<in> set ias. unat (ia_gsi_base ia) + unat (ia_max_redirect ia) < 256 \<and> unat (ia_max_redirect ia) < 120) \<and>
     (\<forall>i < length ias. \<forall>j < length ias. i \<noteq> j \<longrightarrow>
        regs_apart (ia_regs (ias ! i)) (ia_regs (ias ! j)) \<and> (\<forall>g. handles (ias ! i) g \<longrightarrow> \<not> handles (ias ! j) g))"

definition redir_low :: "nat \<Rightarrow> u8" where
  "redir_low idx = of_nat (0x10 + 2 * idx)"


definition masked :: "IOAPICInfo \<Rightarrow> nat \<Rightarrow> apic_event list \<Rightarrow> bool" where
  "masked ia idx t \<longleftrightarrow> (\<exists>v. ioapic_reg (ia_regs ia) t (redir_low idx) = Some v \<and> bit v 16)"

text \<open>The port accesses among the accesses.\<close>

primrec port_event :: "apic_event \<Rightarrow> io_event list" where
  "port_event (Write32 a v) = []"
| "port_event (Read32 a v) = []"
| "port_event (Port p) = [p]"

definition port_trace :: "apic_event list \<Rightarrow> io_event list" where
  "port_trace t = concat (map port_event t)"

definition same_infos :: "'a apic_state_scheme \<Rightarrow> 'a apic_state_scheme \<Rightarrow> bool" where
  "same_infos s s' \<longleftrightarrow> ioapic_infos s' = ioapic_infos s \<and> ioapic_infos_count s' = ioapic_infos_count s \<and> lapic s' = lapic s \<and>
     apic_state.more s' = apic_state.more s \<and> port_trace (apic_trace s') = port_trace (apic_trace s)"

text \<open>A device with one I/O controller that has 24 entries, and a table whose second entry has length 0.\<close>

definition demo_ioapic :: apic_device where
  "demo_ioapic t a = (if a = 0xFEC00010 then 0x170020 else 0)"

definition demo_apic :: apic_state where
  "demo_apic = \<lparr>lapic = 0, ioapic_infos = replicate 8 \<lparr>ia_id = 0, ia_address = 0, ia_gsi_base = 0, ia_max_redirect = 0, ia_regs = 0\<rparr>,
     ioapic_infos_count = 0, apic_trace = [], apic_log = []\<rparr>"

definition demo_short :: acpi_state where
  "demo_short = demo_acpi\<lparr>mem := (mem demo_acpi)(0x1035 := 0)\<rparr>"

section \<open>Registers of the I/O controllers\<close>

lemma port_trace_simps [simp]: "port_trace [] = []" "port_trace (e # t) = port_event e @ port_trace t" "port_trace (t @ u) = port_trace t @ port_trace u"
  by (simp_all add: port_trace_def)

lemma ucast_byte_word: "ucast (ucast b :: u32) = b" for b :: u8
  by (rule bit_word_eqI) (auto simp: bit_simps)

lemma ioapic_reg_write:
  assumes "b = base \<or> regs_apart b base"
  shows "ioapic_reg b (apic_trace (ioapic_write base reg v s)) =
     (if b = base then (ioapic_reg b (apic_trace s))(reg \<mapsto> v) else ioapic_reg b (apic_trace s))"
  using assms by (auto simp: ioapic_reg_def ioapic_write_def mmio_write_def reg_step_def regs_apart_def ucast_byte_word)

lemma ioapic_reg_read:
  assumes "b = base \<or> regs_apart b base" "ioapic_read dev base reg s = (v, s')"
  shows "ioapic_reg b (apic_trace s') = ioapic_reg b (apic_trace s)"
  using assms by (auto simp: ioapic_reg_def ioapic_read_def mmio_write_def mmio_read_def reg_step_def regs_apart_def Let_def)

lemma ioapic_read_fields:
  assumes "ioapic_read dev base reg s = (v, s')"
  shows "ioapic_infos s' = ioapic_infos s" "ioapic_infos_count s' = ioapic_infos_count s" "lapic s' = lapic s"
    "apic_state.more s' = apic_state.more s" "port_trace (apic_trace s') = port_trace (apic_trace s)"
  using assms by (auto simp: ioapic_read_def mmio_write_def mmio_read_def Let_def)

lemma ioapic_write_fields [simp]:
  "ioapic_infos (ioapic_write base reg v s) = ioapic_infos s" "ioapic_infos_count (ioapic_write base reg v s) = ioapic_infos_count s"
  "lapic (ioapic_write base reg v s) = lapic s" "apic_state.more (ioapic_write base reg v s) = apic_state.more s"
  "port_trace (apic_trace (ioapic_write base reg v s)) = port_trace (apic_trace s)"
  by (simp_all add: ioapic_write_def mmio_write_def)

lemma log_apic_fields [simp]:
  "ioapic_infos (log_apic l f x s) = ioapic_infos s" "ioapic_infos_count (log_apic l f x s) = ioapic_infos_count s"
  "lapic (log_apic l f x s) = lapic s" "apic_state.more (log_apic l f x s) = apic_state.more s" "apic_trace (log_apic l f x s) = apic_trace s"
  by (simp_all add: log_apic_def)

lemma table_low_value: "unat idx < 120 \<Longrightarrow> unat (table_low idx) = 16 + 2 * unat idx"
  and table_high_value: "unat idx < 120 \<Longrightarrow> unat (table_high idx) = 17 + 2 * unat idx"
  by (simp_all add: table_low_def table_high_def unat_word_ariths unsigned_ucast_eq take_bit_nat_eq_self)


lemma table_low_inj: "\<lbrakk>unat i < 120; unat j < 120\<rbrakk> \<Longrightarrow> table_low i = table_low j \<longleftrightarrow> i = j"
  using table_low_value [of i] table_low_value [of j] by (auto simp: word_unat_eq_iff)

lemma table_high_low: "\<lbrakk>unat i < 120; unat j < 120\<rbrakk> \<Longrightarrow> table_high i \<noteq> table_low j"
  using table_high_value [of i] table_low_value [of j] by (auto simp: word_unat_eq_iff; presburger)

section \<open>Finding the controller of an interrupt\<close>

lemma listed_infos_map:
  assumes "infos_ok s"
  shows "map (\<lambda>i. ioapic_infos s ! i) [0..<unat (ioapic_infos_count s)] = listed_infos s"
proof (rule nth_equalityI)
  show len: "length (map (\<lambda>i. ioapic_infos s ! i) [0..<unat (ioapic_infos_count s)]) = length (listed_infos s)"
    using assms by (auto simp: listed_infos_def infos_ok_def word_le_nat_alt)
  show "map (\<lambda>i. ioapic_infos s ! i) [0..<unat (ioapic_infos_count s)] ! i = listed_infos s ! i"
    if "i < length (map (\<lambda>i. ioapic_infos s ! i) [0..<unat (ioapic_infos_count s)])" for i
    using that by (simp add: listed_infos_def)
qed

lemma in_range_handles:
  assumes "unat (ia_gsi_base ia) + unat (ia_max_redirect ia) < 256"
  shows "(gsi \<ge> ia_gsi_base ia \<and> gsi < ia_gsi_base ia + ucast (ia_max_redirect ia) + 1) \<longleftrightarrow> handles ia (unat gsi)"
proof -
  have "unat (ia_gsi_base ia + ucast (ia_max_redirect ia) + 1) = unat (ia_gsi_base ia) + unat (ia_max_redirect ia) + 1"
    using assms by (simp add: unat_word_ariths unsigned_ucast_eq take_bit_nat_eq_self)
  then show ?thesis by (auto simp: handles_def word_le_nat_alt word_less_nat_alt)
qed

lemma ioapic_for_gsi_handles:
  assumes "infos_ok s" "controllers_ok (listed_infos s)" "i < length (listed_infos s)" "handles (listed_infos s ! i) (unat gsi)"
  shows "ioapic_for_gsi gsi s = Some (listed_infos s ! i)"
proof -
  have eq: "(let gsi_end = ia_gsi_base ia + ucast (ia_max_redirect ia) + 1 in gsi \<ge> ia_gsi_base ia \<and> gsi < gsi_end) \<longleftrightarrow> handles ia (unat gsi)"
    if "ia \<in> set (listed_infos s)" for ia
    using assms(2) that in_range_handles [of ia gsi] by (auto simp: controllers_ok_def Let_def)
  have others: "\<not> handles (listed_infos s ! j) (unat gsi)" if "j < i" for j
    using assms(2-4) that by (auto simp: controllers_ok_def)
  show ?thesis unfolding ioapic_for_gsi_def listed_infos_map [OF assms(1)] find_Some_iff
    using assms(3,4) others eq by (intro exI [of _ i]) (auto simp: nth_mem less_trans)
qed

section \<open>Masking\<close>



lemma controllers_apart:
  assumes "controllers_ok ias" "ia \<in> set ias" "i < length ias"
  shows "ia_regs ia = ia_regs (ias ! i) \<or> regs_apart (ia_regs ia) (ia_regs (ias ! i))"
  using assms by (auto simp: controllers_ok_def in_set_conv_nth)





section \<open>Reading the table\<close>

lemma entry_ioapic_bytes:
  assumes "bytes_at m e (entry_bytes x)" "entry_ok x"
  shows "m e = 1 \<longleftrightarrow> entry_ioapic x \<noteq> []"
    and "entry_ioapic x = [io] \<Longrightarrow> m (e + 2) = io_id io \<and> load32 m (e + 4) = io_address io \<and> load32 m (e + 8) = io_gsi_base io"
proof -
  show "m e = 1 \<longleftrightarrow> entry_ioapic x \<noteq> []" using assms by (cases x) (auto simp: bytes_at_Cons bytes_at_append)
  assume io: "entry_ioapic x = [io]"
  then obtain ident addr gsi where x: "x = IoApic ident addr gsi" "io = \<lparr>io_id = ident, io_address = addr, io_gsi_base = gsi\<rparr>" by (cases x) auto
  then show "m (e + 2) = io_id io \<and> load32 m (e + 4) = io_address io \<and> load32 m (e + 8) = io_gsi_base io"
    using assms(1) by (simp add: bytes_at_append bytes_at_Cons load32_bytes add.commute)
qed

lemma entry_ioapic_cases: obtains "entry_ioapic x = []" | io where "entry_ioapic x = [io]"
  by (cases x) auto

lemma infos_ok_count:
  assumes "infos_ok s"
  shows "length (listed_infos s) = unat (ioapic_infos_count s)" "unat (ioapic_infos_count s) \<le> 8" "length (ioapic_infos s) = 8"
  using assms by (auto simp: infos_ok_def listed_infos_def word_le_nat_alt)

lemma ioapic_found_adds:
  assumes "infos_ok s" "ioapic_infos_count s < 8" "has_version dev (ucast (io_address io)) (ver (ucast (io_address io)))"
    and "m (e + 2) = io_id io" "load32 m (e + 4) = io_address io" "load32 m (e + 8) = io_gsi_base io"
  shows "infos_ok (ioapic_found dev m e s) \<and> listed_infos (ioapic_found dev m e s) = listed_infos s @ [info_of ver io] \<and>
     lapic (ioapic_found dev m e s) = lapic s \<and> apic_state.more (ioapic_found dev m e s) = apic_state.more s \<and>
     port_trace (apic_trace (ioapic_found dev m e s)) = port_trace (apic_trace s)"
proof -
  define a where "a = (ucast (io_address io) :: u64)"
  let ?t = "apic_trace s @ [Write32 a 1]"
  have r: "ioapic_read dev a IOAPIC_REG_VER s = (ver a, s\<lparr>apic_trace := ?t @ [Read32 (a + 0x10) (ver a)]\<rparr>)"
    using assms(3) by (simp add: ioapic_read_def mmio_write_def mmio_read_def has_version_def a_def Let_def)
  have c: "unat (ioapic_infos_count s + 1) = Suc (unat (ioapic_infos_count s))" "unat (ioapic_infos_count s) < 8"
    using assms(2) by (simp_all add: word_less_nat_alt unat_word_ariths)
  have found: "ioapic_infos (ioapic_found dev m e s) = (ioapic_infos s)[unat (ioapic_infos_count s) := info_of ver io] \<and>
      ioapic_infos_count (ioapic_found dev m e s) = ioapic_infos_count s + 1 \<and> lapic (ioapic_found dev m e s) = lapic s \<and>
      apic_state.more (ioapic_found dev m e s) = apic_state.more s \<and> port_trace (apic_trace (ioapic_found dev m e s)) = port_trace (apic_trace s)"
    using r assms(4-6) unfolding ioapic_found_def Let_def assms(5) a_def [symmetric]
    by (simp add: info_of_def a_def)
  then show ?thesis using c infos_ok_count(3) [OF assms(1)]
    by (simp add: listed_infos_def infos_ok_def word_le_nat_alt take_Suc_conv_app_nth)
qed

lemma ioapic_scan_entries:
  fixes acpi :: "'b acpi_state_scheme"
  assumes "bytes_at (mem acpi) p (concat (map entry_bytes es))" "list_all entry_ok es"
    and "unat p + length (concat (map entry_bytes es)) \<le> unat stop" "infos_ok s"
    and "\<forall>io \<in> set (concat (map entry_ioapic es)). has_version dev (ucast (io_address io)) (ver (ucast (io_address io)))"
  shows "\<exists>s'. ioapic_scan dev (mem acpi) p stop s = ioapic_scan dev (mem acpi) (p + of_nat (length (concat (map entry_bytes es)))) stop s' \<and>
     infos_ok s' \<and> listed_infos s' = take 8 (listed_infos s @ map (info_of ver) (concat (map entry_ioapic es))) \<and>
     lapic s' = lapic s \<and> apic_state.more s' = apic_state.more s \<and> port_trace (apic_trace s') = port_trace (apic_trace s)"
  using assms
proof (induction es arbitrary: p s)
  case Nil
  then show ?case using infos_ok_count [OF Nil.prems(4)] by auto
next
  case (Cons x es)
  let ?m = "mem acpi"
  define n where "n = length (entry_bytes x)"
  define r where "r = length (concat (map entry_bytes es))"
  have total: "length (concat (map entry_bytes (x # es))) = n + r" by (simp add: n_def r_def)
  have b: "bytes_at ?m p (entry_bytes x)" "bytes_at ?m (p + of_nat n) (concat (map entry_bytes es))"
    using Cons.prems(1) by (simp_all add: bytes_at_append n_def)
  have ok: "entry_ok x" using Cons.prems(2) by simp
  note e = entry_step_effect [OF b(1) ok, folded n_def]
  have wrap: "unat p + (n + r) \<le> unat stop" using Cons.prems(3) unfolding total .
  have lt: "p < stop" using wrap e(3) by (simp add: word_less_nat_alt)
  have "unat p + n \<le> unat stop" using wrap by linarith
  then have "unat p + n < 2 ^ LENGTH(64)" using unsigned_less [of stop] by (rule le_less_trans)
  then have u: "unat (p + of_nat n) = unat p + n" by (simp add: unat_word_ariths unat_of_nat)
  show ?case
  proof (cases "ioapic_infos_count s < 8")
    case False
    then have "length (listed_infos s) = 8" using infos_ok_count [OF Cons.prems(4)] by (simp add: word_less_nat_alt)
    moreover have "ioapic_scan dev ?m q stop s = Some s" for q using False by (subst ioapic_scan.simps) simp
    ultimately show ?thesis using Cons.prems(4) by (intro exI [of _ s]) simp
  next
    case True
    define s1 where "s1 = (if ?m p = 1 then ioapic_found dev ?m p s else s)"
    have s1: "infos_ok s1 \<and> listed_infos s1 = listed_infos s @ map (info_of ver) (entry_ioapic x) \<and> lapic s1 = lapic s \<and>
        apic_state.more s1 = apic_state.more s \<and> port_trace (apic_trace s1) = port_trace (apic_trace s)"
    proof (cases x rule: entry_ioapic_cases)
      case 1
      then show ?thesis using entry_ioapic_bytes(1) [OF b(1) ok] Cons.prems(4) by (simp add: s1_def)
    next
      case (2 io)
      then show ?thesis
        using entry_ioapic_bytes [OF b(1) ok] ioapic_found_adds [OF Cons.prems(4) True, of dev io ver ?m p] Cons.prems(5)
        by (simp add: s1_def)
    qed
    have "ioapic_scan dev ?m p stop s = ioapic_scan dev ?m (p + of_nat n) stop s1"
      using lt True e(2) ucast_of_nat_byte [OF e(4)] unfolding s1_def by (subst ioapic_scan.simps) simp
    moreover obtain s' where "ioapic_scan dev ?m (p + of_nat n) stop s1 = ioapic_scan dev ?m (p + of_nat n + of_nat r) stop s'" "infos_ok s'"
      "listed_infos s' = take 8 (listed_infos s1 @ map (info_of ver) (concat (map entry_ioapic es)))" "lapic s' = lapic s1"
      "apic_state.more s' = apic_state.more s1" "port_trace (apic_trace s') = port_trace (apic_trace s1)"
      using Cons.IH [of "p + of_nat n" s1, folded r_def] b(2) Cons.prems(2,5) u wrap s1 by auto
    ultimately show ?thesis unfolding total using s1 by (intro exI [of _ s']) (simp add: add.assoc)
  qed
qed

section \<open>A table that hangs the scan\<close>

lemma ioapic_scan_returns:
  assumes "ioapic_scan dev m entry_ptr end_ptr s = Some s'"
  shows "\<not> (entry_ptr < end_ptr \<and> ioapic_infos_count s < MAX_IOAPICS \<and> m entry_ptr \<noteq> MADT_ENTRY_IOAPIC \<and> m (entry_ptr + 1) = 0)"
proof (rule ioapic_scan.raw_induct [OF _ assms, of "\<lambda>dev m p q s s'. \<not> (p < q \<and> ioapic_infos_count s < MAX_IOAPICS \<and> m p \<noteq> MADT_ENTRY_IOAPIC \<and> m (p + 1) = 0)"])
  fix f :: "apic_device \<Rightarrow> memory \<Rightarrow> u64 \<Rightarrow> u64 \<Rightarrow> 'b apic_state_scheme \<Rightarrow> 'b apic_state_scheme option" and dev m p q s s'
  assume "\<And>dev m p q s s'. f dev m p q s = Some s' \<Longrightarrow> \<not> (p < q \<and> ioapic_infos_count s < MAX_IOAPICS \<and> m p \<noteq> MADT_ENTRY_IOAPIC \<and> m (p + 1) = 0)"
    and "(if p < q \<and> ioapic_infos_count s < MAX_IOAPICS then
        f dev m (p + ucast (m (p + 1))) q (if m p = MADT_ENTRY_IOAPIC then ioapic_found dev m p s else s) else Some s) = Some s'"
  from this(1) [of dev m p q s s'] this(2)
  show "\<not> (p < q \<and> ioapic_infos_count s < MAX_IOAPICS \<and> m p \<noteq> MADT_ENTRY_IOAPIC \<and> m (p + 1) = 0)" by auto
qed

lemma ioapic_scan_hangs:
  assumes "entry_ptr < end_ptr" "ioapic_infos_count s < MAX_IOAPICS" "m entry_ptr \<noteq> MADT_ENTRY_IOAPIC" "m (entry_ptr + 1) = 0"
  shows "ioapic_scan dev m entry_ptr end_ptr s = None"
  using assms ioapic_scan_returns [of dev m entry_ptr end_ptr s] by (cases "ioapic_scan dev m entry_ptr end_ptr s") blast+


lemma infos_ok_start:
  assumes "infos_ok s"
  shows "infos_ok (s\<lparr>ioapic_infos_count := 0\<rparr>)" "listed_infos (s\<lparr>ioapic_infos_count := 0\<rparr>) = []"
  using assms by (simp_all add: infos_ok_def listed_infos_def)


section \<open>Routing an interrupt\<close>

lemma controllers_same:
  assumes "controllers_ok ias" "ia \<in> set ias" "i < length ias"
  shows "ia_regs ia = ia_regs (ias ! i) \<longleftrightarrow> ia = ias ! i"
  using assms by (auto simp: controllers_ok_def regs_apart_def in_set_conv_nth)

lemma enable_irq_routes:
  assumes ok: "infos_ok s" "controllers_ok (listed_infos s)" "i < length (listed_infos s)"
    and ia: "ia = listed_infos s ! i" "handles ia (unat irq)" "idx = unat irq - unat (ia_gsi_base ia)"
    and s': "s' = ioapic_enable_irq dev irq vector dest s"
  shows "same_infos s s' \<and> (\<forall>ja \<in> set (listed_infos s). ioapic_reg (ia_regs ja) (apic_trace s') =
     (if ja = ia then (ioapic_reg (ia_regs ia) (apic_trace s))
        (table_low (of_nat idx) \<mapsto> ucast vector, table_high (of_nat idx) \<mapsto> push_bit 24 (ucast dest))
      else ioapic_reg (ia_regs ja) (apic_trace s)))"
proof -
  have "unat irq < 2 ^ LENGTH(8)" by (rule unsigned_less)
  then have u: "unat (ucast irq :: u32) = unat irq" by (simp add: unsigned_ucast_eq take_bit_nat_eq_self)
  have f: "ioapic_for_gsi (ucast irq) s = Some ia" using ioapic_for_gsi_handles [OF ok, of "ucast irq"] ia u by simp
  have "unat (ucast irq - ia_gsi_base ia :: u32) = idx" using ia(2,3) u by (simp add: unat_sub word_le_nat_alt handles_def)
  then have idx: "(ucast (ucast irq - ia_gsi_base ia :: u32) :: u8) = of_nat idx" by (metis of_nat_unat)
  define low high where "low = (ucast vector :: u32)" and "high = (push_bit 24 (ucast dest) :: u32)"
  define s0 where "s0 = log_apic ''IOAPIC'' ''Enabling IRQ %d -> vector %d, dest %d, flags 0x%x''
      [ANum (ucast irq), ANum (ucast vector), ANum (ucast dest), ANum 0] s"
  define s1 where "s1 = log_apic ''IOAPIC'' ''Setting entry %d: low=0x%x high=0x%x''
      [ANum (ucast (of_nat idx :: u8)), ANum (ucast low), ANum (ucast high)] s0"
  let ?lo = "table_low (of_nat idx)" and ?hi = "table_high (of_nat idx)"
  define s2 where "s2 = ioapic_write (ia_regs ia) ?hi high (ioapic_write (ia_regs ia) ?lo low s1)"
  obtain x s3 where r3: "ioapic_read dev (ia_regs ia) ?lo s2 = (x, s3)" by fastforce
  obtain y s4 where r4: "ioapic_read dev (ia_regs ia) ?hi s3 = (y, s4)" by fastforce
  have f0: "ioapic_for_gsi (ucast irq) s0 = Some ia" using f by (simp add: ioapic_for_gsi_def s0_def)
  have s'_eq: "s' = log_apic ''IOAPIC'' ''Verified entry %d: low=0x%x high=0x%x'' [ANum (ucast (of_nat idx :: u8)), ANum (ucast x), ANum (ucast y)] s4"
    using f0 r3 r4 idx unfolding s' ioapic_enable_irq_def ioapic_set_entry_def Let_def
    by (simp add: s0_def [symmetric] low_def [symmetric] high_def [symmetric] s1_def [symmetric] s2_def [symmetric])
  have "same_infos s s'"
    unfolding s'_eq using ioapic_read_fields [OF r3] ioapic_read_fields [OF r4] by (simp add: same_infos_def s2_def s1_def s0_def)
  moreover have "ioapic_reg (ia_regs ja) (apic_trace s') = (if ja = ia then (ioapic_reg (ia_regs ia) (apic_trace s))(?lo \<mapsto> low, ?hi \<mapsto> high)
      else ioapic_reg (ia_regs ja) (apic_trace s))" if "ja \<in> set (listed_infos s)" for ja
  proof -
    have ap: "ia_regs ja = ia_regs ia \<or> regs_apart (ia_regs ja) (ia_regs ia)" using controllers_apart [OF ok(2) that ok(3)] ia(1) by simp
    have "ia_regs ja = ia_regs ia \<longleftrightarrow> ja = ia" using controllers_same [OF ok(2) that ok(3)] ia(1) by simp
    moreover have "apic_trace s1 = apic_trace s" by (simp add: s1_def s0_def)
    ultimately show ?thesis
      unfolding s'_eq log_apic_fields ioapic_reg_read [OF ap r4] ioapic_reg_read [OF ap r3] s2_def ioapic_reg_write [OF ap] by auto
  qed
  ultimately show ?thesis by (simp add: low_def high_def)
qed

section \<open>Properties\<close>



text \<open>
  C20. A table of interrupt controllers with an entry of length 0, of a type other than an I/O controller, hangs the kernel: \<open>parse_madt_entries\<close> returns, having
  reported the entry, but the loop of \<open>ioapic_init\<close>, which does not check the length, never ends, as long as fewer than eight
  I/O controllers precede the entry.
\<close>

theorem zero_length_entry_hangs:
  fixes acpi :: "'b acpi_state_scheme" and ver :: "u64 \<Rightarrow> u32"
  assumes "bytes_at (mem acpi) (madt_ptr acpi + MADT_SIZE) (concat (map entry_bytes es) @ [type, 0])" "list_all entry_ok es"
    and "type \<noteq> MADT_ENTRY_IOAPIC" "length (concat (map entry_ioapic es)) < 8"
    and "\<forall>io \<in> set (concat (map entry_ioapic es)). has_version dev (ucast (io_address io)) (ver (ucast (io_address io)))"
    and "unat (madt_ptr acpi) + 44 + length (concat (map entry_bytes es)) < unat (madt_ptr acpi + ucast (sdt_length (mem acpi) (madt_ptr acpi)))"
    and "unat (madt_ptr acpi + ucast (sdt_length (mem acpi) (madt_ptr acpi))) + 255 < 2 ^ 64"
    and "madt_ptr acpi \<noteq> 0" "acpi_ok acpi" "infos_ok s"
  shows "ioapic_init dev acpi s = None \<and> (\<exists>acpi'. parse_madt_entries (madt_ptr acpi) acpi = Some acpi')"
proof
  define k where "k = length (concat (map entry_bytes es))"
  let ?p = "madt_ptr acpi + MADT_SIZE" and ?stop = "madt_ptr acpi + ucast (sdt_length (mem acpi) (madt_ptr acpi))"
  have w: "unat (madt_ptr acpi) + 44 + k < 2 ^ 64" using assms(6,7) unfolding k_def by linarith
  then have u: "unat ?p = unat (madt_ptr acpi) + 44" "unat (?p + of_nat k) = unat (madt_ptr acpi) + 44 + k"
    by (simp_all add: unat_word_ariths unat_of_nat)
  have b: "bytes_at (mem acpi) ?p (concat (map entry_bytes es))" "bytes_at (mem acpi) (?p + of_nat k) [type, 0]"
    using assms(1) by (simp_all add: bytes_at_append k_def)
  have "unat ?p + length (concat (map entry_bytes es)) \<le> unat ?stop" using assms(6) unfolding u(1) by linarith
  from ioapic_scan_entries [OF b(1) assms(2) this infos_ok_start(1) [OF assms(10)] assms(5)] obtain s1 where
    s1: "ioapic_scan dev (mem acpi) ?p ?stop (s\<lparr>ioapic_infos_count := 0\<rparr>) = ioapic_scan dev (mem acpi) (?p + of_nat k) ?stop s1"
    "infos_ok s1" "listed_infos s1 = take 8 (map (info_of ver) (concat (map entry_ioapic es)))"
    using infos_ok_start(2) [OF assms(10)] by (auto simp: k_def)
  have "ioapic_infos_count s1 < MAX_IOAPICS"
    using infos_ok_count(1) [OF s1(2)] assms(4) unfolding s1(3) by (simp add: word_less_nat_alt)
  moreover have "?p + of_nat k < ?stop" using assms(6) u(2) unfolding k_def by (simp only: word_less_nat_alt)
  ultimately have "ioapic_scan dev (mem acpi) (?p + of_nat k) ?stop s1 = None"
    using assms(3) b(2) by (intro ioapic_scan_hangs) (simp_all add: bytes_at_Cons)
  then show "ioapic_init dev acpi s = None" unfolding ioapic_init_def get_madt_def Let_def s1(1) using assms(8) by simp
  show "\<exists>acpi'. parse_madt_entries (madt_ptr acpi) acpi = Some acpi'"
    unfolding parse_madt_entries_def using parse_returns [OF assms(7,9)] by blast
qed

theorem zero_length_entry_hangs_witness:
  "ioapic_init demo_ioapic demo_short demo_apic = None \<and> (\<exists>acpi'. parse_madt_entries 0x1000 demo_short = Some acpi')"
proof -
  have ptr: "madt_ptr demo_short = 0x1000" by (simp add: demo_short_def demo_acpi_def)
  have other: "mem demo_short x = mem demo_acpi x" if "x \<noteq> 0x1035" for x using that by (simp add: demo_short_def)
  have e: "demo_entries = [LocalApic 0 0 1] @ [OtherEntry 2 [0, 0]] @ [LocalApic 1 5 0, IoApic 2 0xFEC00000 0]" by (simp add: demo_entries_def)
  have d: "bytes_at (mem demo_acpi) 0x102C (entry_bytes (LocalApic 0 0 1))" "mem demo_acpi 0x1034 = 2"
    using demo_acpi_bytes by (simp_all add: e bytes_at_append bytes_at_Cons)
  have low: "mem demo_short (x + of_nat i) = mem demo_acpi (x + of_nat i)" if "unat x + i < 0x1035" for x i
  proof (rule other)
    have "unat (x + of_nat i) = unat x + i" using that by (simp add: unat_word_ariths unat_of_nat)
    then show "x + of_nat i \<noteq> 0x1035" using that by auto
  qed
  have "bytes_at (mem demo_short) 0x102C (entry_bytes (LocalApic 0 0 1))" using d(1) low [of "0x102C"] by (simp add: bytes_at_def)
  moreover have "bytes_at (mem demo_short) 0x1034 [2, 0]" using d(2) other by (simp add: bytes_at_Cons demo_short_def)
  ultimately have b: "bytes_at (mem demo_short) 0x102C (concat (map entry_bytes [LocalApic 0 0 1]) @ [2, 0])"
    by (simp add: bytes_at_append bytes_at_Cons)
  have l: "sdt_length (mem demo_short) 0x1000 = 76"
    using demo_acpi_length load_le_cong [of 4 "mem demo_short" "0x1004" "mem demo_acpi"] low [of "0x1004"] by (simp add: sdt_length_def load32_def)
  from zero_length_entry_hangs [of demo_short "[LocalApic 0 0 1]" 2 demo_ioapic "\<lambda>_. 0" demo_apic] b l ptr show ?thesis
    by (simp add: acpi_ok_def infos_ok_def demo_apic_def) (simp add: demo_short_def demo_acpi_def)
qed

end
