(* ===== verification/Idt.thy ===== *)
theory Idt
  imports SmpSched Tty Apic
begin

text \<open>
  The interrupt descriptor table and the interrupt handlers (\<^verbatim>\<open>kernel/idt\<close>). The state extends that of the
  interrupt controllers with the table, which all processors share, and with the register that points to it and the
  interrupt flag of the processor that runs. The addresses of the handlers and of the table are arguments. The handlers
  work on the states of the components they call. A result \<open>None\<close> is a wait that never ends or an access out of range.
\<close>

section \<open>Definitions\<close>

subsection \<open>Descriptors\<close>

definition MAX_INTERRUPTS :: nat where [simp]: "MAX_INTERRUPTS = 256"
definition APIC_TIMER_VECTOR :: u8 where [simp]: "APIC_TIMER_VECTOR = 32"

record IDTR =
  idtr_limit :: u16
  idtr_base :: u64

record InterruptDescriptor64 =
  offset_1 :: u16
  id_selector :: u16
  id_ist :: u8
  type_attributes :: u8
  offset_2 :: u16
  offset_3 :: u32
  id_zero :: u32

definition sizeof_descriptor :: nat where [simp]: "sizeof_descriptor = 16"


record idt_state = apic_state +
  shared_idt :: "InterruptDescriptor64 list"
  hw_idtr :: IDTR
  hw_int :: bool


definition make_interrupt :: "InterruptDescriptor64 list \<Rightarrow> nat \<Rightarrow> u64 \<Rightarrow> InterruptDescriptor64 list" where
  "make_interrupt idt array_index handler =
     (if array_index \<ge> MAX_INTERRUPTS then idt
      else idt[array_index := (idt ! array_index)\<lparr>offset_1 := ucast handler, id_selector := 0x08, type_attributes := 0x8E,
        offset_2 := ucast (drop_bit 16 handler), offset_3 := ucast (drop_bit 32 handler)\<rparr>])"


subsection \<open>Setup\<close>




definition load_idt :: "u64 \<Rightarrow> idt_state \<Rightarrow> idt_state" where
  "load_idt base s = s\<lparr>hw_idtr := \<lparr>idtr_limit = of_nat (sizeof_descriptor * MAX_INTERRUPTS - 1), idtr_base = base\<rparr>\<rparr>"



definition setup_idt_ap :: "u64 \<Rightarrow> idt_state \<Rightarrow> idt_state" where
  "setup_idt_ap base s = lapic_timer_start APIC_TIMER_VECTOR 10000000 (load_idt base s)"

subsection \<open>Handlers\<close>

definition F1 :: u8 where [simp]: "F1 = 0x3B"

text \<open>The body of the loop of \<open>keyboard_handler\<close> for a scan code, on the terminals.\<close>

definition keyboard_scancode :: "cbuf \<Rightarrow> u8 \<Rightarrow> tty_state \<Rightarrow> tty_state option" where
  "keyboard_scancode buf res t =
     (if res \<ge> F1 \<and> unat res < unat F1 + TERMINALS_NUMBER then set_tty buf (res - F1) t
      else printf buf ''%x '' [ANum (ucast res)] t)"

partial_function (option) keyboard_loop ::
  "port_device \<Rightarrow> cbuf \<Rightarrow> u32 \<Rightarrow> u8 \<Rightarrow> 'a apic_state_scheme \<times> tty_state \<Rightarrow> ('a apic_state_scheme \<times> tty_state) option" where
  "keyboard_loop pdev buf index status st =
     (if status AND 1 \<noteq> 0 then
        let (res, a) = port_in pdev 0x60 (fst st);
            a = log_apic ''KEYBOARD'' ''Scancode: 0x%x on CPU %d'' [ANum (ucast res), ANum (ucast index)] a
        in Option.bind (keyboard_scancode buf res (snd st)) (\<lambda>t.
             let (status, a) = port_in pdev 0x64 a in keyboard_loop pdev buf index status (a, t))
      else Some st)"

definition keyboard_handler ::
  "port_device \<Rightarrow> cbuf \<Rightarrow> u32 \<Rightarrow> 'c percpu_state_scheme \<Rightarrow> 'a apic_state_scheme \<times> tty_state \<Rightarrow> ('a apic_state_scheme \<times> tty_state) option" where
  "keyboard_handler pdev buf me s st =
     (let (status, a) = port_in pdev 0x64 (fst st)
      in Option.bind (keyboard_loop pdev buf (cpu_index (the_cpu (mycpu me s) s)) status (a, snd st)) (\<lambda>(a, t).
           map_option (\<lambda>t. (lapic_eoi a, t)) (print [CHR 0x0A] t)))"

definition default_handler :: "tty_state \<Rightarrow> tty_state option" where
  "default_handler t = print (''unknown interrupt'' @ [CHR 0x0A]) t"

definition timer_interrupt :: "u32 \<Rightarrow> 'c percpu_state_scheme \<times> 'a apic_state_scheme \<Rightarrow> 'c percpu_state_scheme \<times> 'a apic_state_scheme" where
  "timer_interrupt me = (\<lambda>(s, a).
     let cpu = mycpu me s;
         s = upd_cpu cpu (\<lambda>c. c\<lparr>timer_ticks := timer_ticks c + 1\<rparr>) s;
         a = lapic_eoi a
     in (if scheduler_ready (the_cpu cpu s) then sched_tick me s else s, a))"

text \<open>
  What \<open>interrupt_handler\<close> has logged and printed when it reaches its endless loop. The table of messages and the
  register CR2 are arguments.
\<close>

definition interrupt_handler ::
  "cbuf \<Rightarrow> string list \<Rightarrow> u64 \<Rightarrow> u64 \<Rightarrow> u64 \<Rightarrow> 'a apic_state_scheme \<times> tty_state \<Rightarrow> ('a apic_state_scheme \<times> tty_state) option" where
  "interrupt_handler buf error_messages rcr2 error_code interrupt_number = (\<lambda>(a, t).
     if unat interrupt_number < length error_messages then
       let msg = error_messages ! unat interrupt_number;
           a = log_apic ''EXCEPTION'' ''Interrupt %d (%s), error_code: 0x%lx, CR2: 0x%lx''
                 [ANum interrupt_number, AStr (Some msg), ANum error_code, ANum rcr2] a
       in Option.bind (printf buf (''Interrupt number %d (%s), error_code: %b'' @ [CHR 0x0A]) [ANum interrupt_number, AStr (Some msg), ANum error_code] t) (\<lambda>t.
          map_option (\<lambda>t. (a, t)) (printf buf (''CR2: %x'' @ [CHR 0x0A]) [ANum rcr2] t))
     else None)"

section \<open>Reference definitions\<close>




text \<open>
  What the keyboard controller (8042) holds after the port accesses so far: its configuration byte, whether the reply to
  the command \<open>0x20\<close> waits in the output buffer, and whether the command \<open>0x60\<close> waits for its data byte. The command \<open>0xAE\<close> clears bit 4
  of the configuration, which disables the keyboard.
\<close>

record kbc_regs =
  kb_config :: u8
  kb_reply :: bool
  kb_expect :: bool

primrec kbc_step :: "io_event \<Rightarrow> kbc_regs \<Rightarrow> kbc_regs" where
  "kbc_step (OutB p v) c =
     (if p = 0x64 then
        if v = 0x20 then c\<lparr>kb_reply := True\<rparr>
        else if v = 0x60 then c\<lparr>kb_expect := True\<rparr>
        else if v = 0xAE then c\<lparr>kb_config := kb_config c AND NOT 0x10\<rparr> else c
      else if p = 0x60 \<and> kb_expect c then c\<lparr>kb_config := v, kb_expect := False\<rparr> else c)"
| "kbc_step (InB p v) c = (if p = 0x60 then c\<lparr>kb_reply := False\<rparr> else c)"

definition kbc :: "u8 \<Rightarrow> apic_event list \<Rightarrow> kbc_regs" where
  "kbc config t = fold kbc_step (port_trace t) \<lparr>kb_config = config, kb_reply = False, kb_expect = False\<rparr>"


text \<open>The last byte written to a port, and the last word written to a register.\<close>

primrec port_value :: "u16 \<Rightarrow> io_event \<Rightarrow> u8 option \<Rightarrow> u8 option" where
  "port_value p (OutB q v) r = (if q = p then Some v else r)"
| "port_value p (InB q v) r = r"













section \<open>Descriptors\<close>


lemma make_interrupt_simps [simp]:
  "length (make_interrupt idt i h) = length idt"
  by (simp add: make_interrupt_def)




section \<open>Accesses that leave the I/O controllers alone\<close>




section \<open>The keyboard controller\<close>



lemma kbc_snoc [simp]:
  "kbc config (t @ [Port e]) = kbc_step e (kbc config t)" "kbc config (t @ [Write32 a v]) = kbc config t" "kbc config (t @ [Read32 a v]) = kbc config t"
  by (simp_all add: kbc_def)

lemma kbc_reads [simp]: "kbc config (t @ map (\<lambda>v. Port (InB 0x64 v)) vs) = kbc config t"
proof -
  have "fold kbc_step (port_trace (map (\<lambda>v. Port (InB 0x64 v)) vs)) c = c" for c by (induction vs) simp_all
  then show ?thesis by (simp add: kbc_def)
qed

lemma port_value_reads [simp]: "fold (port_value p) (port_trace (map (\<lambda>v. Port (InB q v)) vs)) r = r"
  by (induction vs) simp_all



section \<open>The local controller\<close>

lemma lapic_write_fields [simp]:
  "lapic (lapic_write r v s) = lapic s" "ioapic_infos (lapic_write r v s) = ioapic_infos s"
  "ioapic_infos_count (lapic_write r v s) = ioapic_infos_count s" "apic_state.more (lapic_write r v s) = apic_state.more s"
  "port_trace (apic_trace (lapic_write r v s)) = port_trace (apic_trace s)"
  by (simp_all add: lapic_write_def mmio_write_def)

lemma lapic_read_fields [simp]:
  "lapic (snd (lapic_read dev r s)) = lapic s" "ioapic_infos (snd (lapic_read dev r s)) = ioapic_infos s"
  "ioapic_infos_count (snd (lapic_read dev r s)) = ioapic_infos_count s" "apic_state.more (snd (lapic_read dev r s)) = apic_state.more s"
  "port_trace (apic_trace (snd (lapic_read dev r s))) = port_trace (apic_trace s)"
  by (simp_all add: lapic_read_def mmio_read_def Let_def)

lemma lapic_get_id_fields [simp]:
  "lapic (snd (lapic_get_id dev s)) = lapic s" "ioapic_infos (snd (lapic_get_id dev s)) = ioapic_infos s"
  "ioapic_infos_count (snd (lapic_get_id dev s)) = ioapic_infos_count s" "apic_state.more (snd (lapic_get_id dev s)) = apic_state.more s"
  "port_trace (apic_trace (snd (lapic_get_id dev s))) = port_trace (apic_trace s)"
  by (simp_all add: lapic_get_id_def case_prod_beta)





section \<open>Routing the keyboard\<close>






section \<open>Properties\<close>



end
