(* ===== verification/Boot.thy ===== *)
theory Boot
  imports PageMaps Lists Idt
begin

text \<open>
  Starting the kernel: the startup of the other processors (\<^verbatim>\<open>kernel/apic/ap_startup.c\<close>) and the parts of
  \<^verbatim>\<open>kernel/main.c\<close> that compose the ACPI tables with the page tables and the threads with the scheduler. The startup works
  on the ACPI state, whose memory holds the trampoline and the stacks, and on the state of the interrupt controllers. The
  counter of started processors is written by the others while the boot processor waits: the values it reads are a
  parameter. The delays between the interrupts have no effect on the state.
\<close>

section \<open>Definitions\<close>

subsection \<open>Starting the other processors\<close>

definition AP_TRAMPOLINE_ADDR :: u64 where [simp]: "AP_TRAMPOLINE_ADDR = 0x8000"
definition AP_STACK_SIZE :: u64 where [simp]: "AP_STACK_SIZE = 0x4000"

record ap_counters =
  ap_started_count :: u32
  next_cpu_index :: u32

text \<open>\<open>start\<close> and \<open>stop\<close> delimit the trampoline code in the kernel image.\<close>

definition setup_trampoline :: "u64 \<Rightarrow> u64 \<Rightarrow> u64 \<Rightarrow> u64 \<Rightarrow> 'a acpi_state_scheme \<Rightarrow> 'a acpi_state_scheme option" where
  "setup_trampoline start stop ap_entry page_table s =
     map_option (\<lambda>s.
       let s = log_acpi ''AP'' ''Mapped low memory for trampoline'' [] s;
           trampoline_dest = AP_TRAMPOLINE_ADDR;
           trampoline_size = stop - start;
           s = s\<lparr>mem := copy_bytes (mem s) trampoline_dest start (unat trampoline_size)\<rparr>;
           s = log_acpi ''AP'' ''Copied trampoline code (%d bytes) to 0x%x'' [ANum trampoline_size, ANum AP_TRAMPOLINE_ADDR] s;
           s = log_acpi ''AP'' ''Trampoline first bytes: 0x%02x 0x%02x 0x%02x 0x%02x''
                 (map (\<lambda>i. ANum (ucast (mem s (trampoline_dest + of_nat i)))) [0..<4]) s;
           s = s\<lparr>mem := store64 (mem s) (trampoline_dest + 0xE0) page_table\<rparr>;
           s = s\<lparr>mem := store64 (mem s) (trampoline_dest + 0xE8) 0\<rparr>;
           s = s\<lparr>mem := store64 (mem s) (trampoline_dest + 0xF0) ap_entry\<rparr>
       in log_acpi ''AP'' ''CR3: 0x%llx, Entry: 0x%llx'' [ANum page_table, ANum ap_entry] s)
       (map_low_memory page_table 0x0 (PGSIZE * 16) s)"

text \<open>\<open>reads n\<close> is what the \<open>n\<close>th read of \<open>ap_started_count\<close> gives.\<close>

definition start_ap ::
  "apic_device \<Rightarrow> (nat \<Rightarrow> u32) \<Rightarrow> u8 \<Rightarrow> u64 \<Rightarrow> 'b acpi_state_scheme \<times> 'a apic_state_scheme \<Rightarrow> (bool \<times> 'b acpi_state_scheme \<times> 'a apic_state_scheme) option" where
  "start_ap dev reads ident stack = (\<lambda>(s, a).
     let s = s\<lparr>mem := store64 (mem s) (AP_TRAMPOLINE_ADDR + 0xE8) (stack + AP_STACK_SIZE)\<rparr>;
         s = log_acpi ''AP'' ''Starting AP with APIC ID %d, stack at 0x%llx'' [ANum (ucast ident), ANum stack] s;
         old_count = reads 0
     in Option.bind (lapic_send_init dev ident a) (\<lambda>a.
        Option.bind (lapic_send_sipi dev ident 0x08 a) (\<lambda>a.
        Option.bind (lapic_send_sipi dev ident 0x08 a) (\<lambda>a.
          if list_ex (\<lambda>i. reads (Suc i) > old_count) [0..<1000] then Some (True, s, a)
          else Some (False, log_acpi ''AP'' ''WARNING: AP %d did not start'' [ANum (ucast ident)] s, a)))))"

text \<open>The loop of \<open>start_all_aps\<close> over the processors of the table; \<open>reads i\<close> is for the start of processor \<open>i\<close>.\<close>

primrec start_aps ::
  "apic_device \<Rightarrow> (nat \<Rightarrow> nat \<Rightarrow> u32) \<Rightarrow> u8 \<Rightarrow> nat list \<Rightarrow> u32 \<Rightarrow> 'b acpi_state_scheme \<times> 'a apic_state_scheme \<Rightarrow>
   (u32 \<times> 'b acpi_state_scheme \<times> 'a apic_state_scheme) option" where
  "start_aps dev reads bsp_apic_id [] n_started st = Some (n_started, st)"
| "start_aps dev reads bsp_apic_id (i # is) n_started st =
     (case st of (s, a) \<Rightarrow>
        case get_cpu_info (of_nat i) s of
          None \<Rightarrow> start_aps dev reads bsp_apic_id is n_started (s, a)
        | Some cpu \<Rightarrow>
            if \<not> ci_enabled cpu then start_aps dev reads bsp_apic_id is n_started (s, a)
            else if ci_apic_id cpu = bsp_apic_id then
              start_aps dev reads bsp_apic_id is n_started (log_acpi ''AP'' ''Skipping BSP (APIC ID %d)'' [ANum (ucast (ci_apic_id cpu))] s, a)
            else
              let (stack, s) = kalloc s
              in if stack = 0 then
                   start_aps dev reads bsp_apic_id is n_started
                     (log_acpi ''AP'' ''ERROR: Failed to allocate stack for AP %d'' [ANum (ucast (ci_apic_id cpu))] s, a)
                 else
                   let s = s\<lparr>mem := memset (mem s) stack 0 AP_STACK_SIZE\<rparr>
                   in Option.bind (start_ap dev (reads i) (ci_apic_id cpu) stack (s, a)) (\<lambda>(ok, st).
                        start_aps dev reads bsp_apic_id is (if ok then n_started + 1 else n_started) st))"

definition start_all_aps ::
  "apic_device \<Rightarrow> (nat \<Rightarrow> nat \<Rightarrow> u32) \<Rightarrow> u64 \<Rightarrow> u64 \<Rightarrow> u64 \<Rightarrow> u64 \<Rightarrow> 'b acpi_state_scheme \<times> 'a apic_state_scheme \<Rightarrow>
   (u32 \<times> 'b acpi_state_scheme \<times> 'a apic_state_scheme) option" where
  "start_all_aps dev reads start stop ap_entry page_table = (\<lambda>(s, a).
     let n = get_cpu_count s;
         s = log_acpi ''AP'' ''Starting Application Processors (%d total CPUs)'' [ANum (ucast n)] s
     in Option.bind (setup_trampoline start stop ap_entry page_table s) (\<lambda>s.
          let (bsp_apic_id, a) = lapic_get_id dev a;
              s = log_acpi ''AP'' ''BSP APIC ID: %d'' [ANum (ucast bsp_apic_id)] s
          in map_option (\<lambda>(n_started, s, a). (n_started, log_acpi ''AP'' ''Started %d Application Processors'' [ANum (ucast n_started)] s, a))
               (start_aps dev reads bsp_apic_id [0..<unat n] 0 (s, a))))"

text \<open>What a started processor does before it enters \<open>sched_run\<close>; \<open>me\<close> is the number of its local controller.\<close>

definition ap_entry ::
  "apic_device \<Rightarrow> u64 \<Rightarrow> u64 \<Rightarrow> u64 \<Rightarrow> u32 \<Rightarrow> 'b acpi_state_scheme \<Rightarrow> ap_counters \<times> 'c smp_sched_scheme \<times> idt_state \<Rightarrow>
   (ap_counters \<times> 'c smp_sched_scheme \<times> idt_state) result" where
  "ap_entry dev percpu_base idt_base idle_thread_func me acpi = (\<lambda>(c, s, a).
     let my_index = next_cpu_index c;
         c = c\<lparr>next_cpu_index := next_cpu_index c + 1\<rparr>;
         s = percpu_init_ap percpu_base me my_index s;
         a = lapic_init dev acpi a;
         c = c\<lparr>ap_started_count := ap_started_count c + 1\<rparr>;
         cpu = mycpu me s;
         a = log_apic ''AP/BOOT'' ''Aplication processor %d (APIC ID: %d) starting...''
               [num_arg (cpu_index (the_cpu cpu s)), num_arg (apic_id (the_cpu cpu s))] a;
         a = setup_idt_ap idt_base a
     in bind_result (sched_init_cpu idle_thread_func me s) (\<lambda>s.
          let s = set_if me True s
          in Inr (c, upd_cpu (mycpu me s) (\<lambda>cpu. cpu\<lparr>scheduler_ready := True\<rparr>) s, a)))"

subsection \<open>The kernel's entry\<close>

text \<open>Mapping the I/O controllers of the table.\<close>

partial_function (option) map_ioapics :: "u64 \<Rightarrow> u64 \<Rightarrow> u64 \<Rightarrow> 'a acpi_state_scheme \<Rightarrow> 'a acpi_state_scheme option" where
  "map_ioapics kernel_table entry_ptr end_ptr s =
     (if entry_ptr < end_ptr then
        Option.bind
          (if mem s entry_ptr = MADT_ENTRY_IOAPIC then
             let addr = load32 (mem s) (entry_ptr + 4);
                 s = log_acpi ''MEMORY'' ''Mapping I/O APIC at 0x%x'' [ANum (ucast addr)] s
             in map_apic_region kernel_table (ucast addr) (ucast PGSIZE) s
           else Some s)
          (\<lambda>s. map_ioapics kernel_table (entry_ptr + ucast (mem s (entry_ptr + 1))) end_ptr s)
      else Some s)"

definition init_acpi_and_map_apic :: "u64 \<Rightarrow> u64 \<Rightarrow> u64 \<Rightarrow> 'a acpi_state_scheme \<Rightarrow> 'a acpi_state_scheme result option" where
  "init_acpi_and_map_apic rsdp_signature madt_signature kernel_table s =
     Option.bind (init_rsdp rsdp_signature s) (\<lambda>s.
       if get_rsdp s = 0 then Some (Inl (Panic ''Unable to initialize: ACPI unavailable''))
       else
         Option.bind (init_rsdt (get_rsdp s) s) (\<lambda>s.
         Option.bind (init_madt madt_signature s) (\<lambda>s.
           let s = log_cpu_info s;
               lapic_addr = get_lapic_address s
           in Option.bind
                (if lapic_addr \<noteq> 0 then
                   map_apic_region kernel_table (ucast lapic_addr) (ucast PGSIZE) (log_acpi ''MEMORY'' ''Mapping Local APIC at 0x%x'' [ANum (ucast lapic_addr)] s)
                 else Some s)
                (\<lambda>s.
                   let madt = get_madt s
                   in map_option Inr
                        (if madt \<noteq> 0 then map_ioapics kernel_table (madt + MADT_SIZE) (madt + ucast (sdt_length (mem s) madt)) s else Some s)))))"

definition log_demo :: "string \<Rightarrow> vararg list \<Rightarrow> 'a smp_sched_scheme \<Rightarrow> 'a smp_sched_scheme" where
  "log_demo format args s = s\<lparr>sched_log := sched_log s @ [LOG_SERIAL ''DEMO'' format args]\<rparr>"

text \<open>One thread of \<open>create_demo_threads\<close>.\<close>

definition create_demo_thread ::
  "u64 \<Rightarrow> u64 \<Rightarrow> u32 \<Rightarrow> u32 \<Rightarrow> u32 \<times> 'a smp_sched_scheme \<Rightarrow> (u32 \<times> 'a smp_sched_scheme) result option" where
  "create_demo_thread demo_thread_func sched_lock me cpu = (\<lambda>(thread_id, s).
     let (thread, s) = create_thread demo_thread_func 0 0 s
     in if thread = 0 then Some (Inr (thread_id, log_demo ''Failed to create thread %d'' [num_arg thread_id] s))
        else
          let s = s\<lparr>mem := set_fld (mem s) (fld (mem s) thread T_CONTEXT) CTX_RDI (ucast thread_id)\<rparr>
          in map_option (\<lambda>r. bind_result r (\<lambda>s.
               Inr (thread_id + 1, log_demo ''Created thread %d for CPU %d'' [num_arg thread_id, num_arg cpu] s)))
               (sched_add_thread sched_lock me thread (sint cpu) s))"

primrec create_demo_loop ::
  "u64 \<Rightarrow> u64 \<Rightarrow> u32 \<Rightarrow> u32 list \<Rightarrow> u32 \<times> 'a smp_sched_scheme \<Rightarrow> (u32 \<times> 'a smp_sched_scheme) result option" where
  "create_demo_loop demo_thread_func sched_lock me [] st = Some (Inr st)"
| "create_demo_loop demo_thread_func sched_lock me (cpu # rest) st =
     Option.bind (create_demo_thread demo_thread_func sched_lock me cpu st) (\<lambda>r. case r of
       Inl e \<Rightarrow> Some (Inl e)
     | Inr st \<Rightarrow> create_demo_loop demo_thread_func sched_lock me rest st)"

definition create_demo_threads :: "u64 \<Rightarrow> u64 \<Rightarrow> u32 \<Rightarrow> 'a smp_sched_scheme \<Rightarrow> 'a smp_sched_scheme result option" where
  "create_demo_threads demo_thread_func sched_lock me s =
     (let s = log_demo ''Creating 2 threads per CPU (%d CPUs)'' [num_arg (ncpu s)] s;
          targets = concat (map (\<lambda>i. replicate 2 (of_nat i)) [0..<unat (ncpu s)])
      in map_option (\<lambda>r. bind_result r (\<lambda>(thread_id, s). Inr (log_demo ''Created %d demo threads total'' [num_arg thread_id] s)))
           (create_demo_loop demo_thread_func sched_lock me targets (0, s)))"

section \<open>Reference definitions\<close>

text \<open>A local controller that delivers every interrupt it is told to send.\<close>

definition delivers :: "apic_device \<Rightarrow> u64 \<Rightarrow> bool" where
  "delivers dev l \<longleftrightarrow> settles (\<lambda>t. dev t (l + 0x300)) (Read32 (l + 0x300)) (\<lambda>v. v AND LAPIC_ICR_DELIVS = 0)"

text \<open>The register writes of a sequence of accesses.\<close>

primrec written :: "apic_event \<Rightarrow> (u64 \<times> u32) list" where
  "written (Write32 a v) = [(a, v)]"
| "written (Read32 a v) = []"
| "written (Port p) = []"

definition writes :: "apic_event list \<Rightarrow> (u64 \<times> u32) list" where
  "writes t = concat (map written t)"

text \<open>
  Accesses to the local controller at \<open>l\<close> that write a command to the register \<open>0x300\<close> only when the one before has been
  delivered, which a read of the register with bit 12 clear shows, and that end with no command under way. The pair holds
  whether all commands so far were written so, and whether one is under way.
\<close>

primrec ipi_step :: "u64 \<Rightarrow> apic_event \<Rightarrow> bool \<times> bool \<Rightarrow> bool \<times> bool" where
  "ipi_step l (Write32 a v) p = (if a = l + 0x300 then (fst p \<and> \<not> snd p, True) else p)"
| "ipi_step l (Read32 a v) p = (if a = l + 0x300 \<and> v AND 0x1000 = 0 then (fst p, False) else p)"
| "ipi_step l (Port e) p = p"

definition ipi_paced :: "u64 \<Rightarrow> apic_event list \<Rightarrow> bool" where
  "ipi_paced l t \<longleftrightarrow> fold (ipi_step l) t (True, False) = (True, False)"

text \<open>\<open>s'\<close> is \<open>s\<close> after such accesses that write \<open>ws\<close>.\<close>

definition sent :: "u64 \<Rightarrow> (u64 \<times> u32) list \<Rightarrow> 'a apic_state_scheme \<Rightarrow> 'a apic_state_scheme \<Rightarrow> bool" where
  "sent l ws s s' \<longleftrightarrow> (\<exists>u. s' = s\<lparr>apic_trace := apic_trace s @ u\<rparr> \<and> writes u = ws \<and> ipi_paced l u)"

text \<open>A second processor, and a free page whose neighbour holds data.\<close>

definition demo_two_cpus :: acpi_state where
  "demo_two_cpus = demo_acpi\<lparr>cpus := (cpus demo_acpi)[1 := make_cpu 1 (1, 5, 1)], cpu_count := 2, freelist := 0x200000,
     mem := (\<lambda>x. if x = 0x201234 then 7 else 0)\<rparr>"

section \<open>Sending interrupts\<close>

lemma sent_trans:
  assumes "sent l ws s s'" "sent l vs s' s''"
  shows "sent l (ws @ vs) s s''"
proof -
  obtain u v where "s' = s\<lparr>apic_trace := apic_trace s @ u\<rparr>" "s'' = s'\<lparr>apic_trace := apic_trace s' @ v\<rparr>" "writes (u @ v) = ws @ vs" "ipi_paced l (u @ v)"
    using assms by (auto simp: sent_def writes_def ipi_paced_def)
  then show ?thesis unfolding sent_def by (intro exI [of _ "u @ v"]) simp
qed

lemma sent_lapic: "sent l ws s s' \<Longrightarrow> lapic s' = lapic s"
  by (auto simp: sent_def)

interpretation ipi: polling "lapic_ipi_wait dev" apic_trace "\<lambda>t. apic_trace_update (\<lambda>_. t)" "\<lambda>t. dev t (l + 0x300)"
  "Read32 (l + 0x300)" "\<lambda>v. v AND LAPIC_ICR_DELIVS = 0" "\<lambda>s. lapic s = l \<and> l \<noteq> 0" for dev l
  by unfold_locales (subst lapic_ipi_wait.simps, simp_all add: lapic_read_def lapic_reg_def mmio_read_def Let_def)

text \<open>A command: the destination, the command, and the wait for its delivery.\<close>

lemma send_command:
  assumes "lapic s = l" "l \<noteq> 0" "delivers dev l"
  shows "\<exists>s'. lapic_ipi_wait dev (lapic_write LAPIC_ICRLO v (lapic_write LAPIC_ICRHI d s)) = Some s' \<and>
     sent l [(l + 0x310, d), (l + 0x300, v)] s s'"
proof -
  let ?s2 = "s\<lparr>apic_trace := apic_trace s @ [Write32 (l + 0x310) d, Write32 (l + 0x300) v]\<rparr>"
  have s2: "lapic_write LAPIC_ICRLO v (lapic_write LAPIC_ICRHI d s) = ?s2"
    using assms(1,2) by (simp add: lapic_write_def lapic_reg_def mmio_write_def)
  obtain vs w where w: "lapic_ipi_wait dev ?s2 = Some (?s2\<lparr>apic_trace := apic_trace ?s2 @ map (Read32 (l + 0x300)) vs @ [Read32 (l + 0x300) w]\<rparr>)"
    "w AND LAPIC_ICR_DELIVS = 0" "list_all (\<lambda>v. \<not> v AND LAPIC_ICR_DELIVS = 0) vs"
    using ipi.returns [of ?s2 l dev] assms unfolding delivers_def by auto
  let ?u = "[Write32 (l + 0x310) d, Write32 (l + 0x300) v] @ map (Read32 (l + 0x300)) vs @ [Read32 (l + 0x300) w]"
  have "fold (ipi_step l) (map (Read32 (l + 0x300)) vs) p = p" for p using w(3) by (induction vs) simp_all
  then have "ipi_paced l ?u" using w(2) by (simp add: ipi_paced_def)
  moreover have "writes ?u = [(l + 0x310, d), (l + 0x300, v)]" by (induction vs) (simp_all add: writes_def)
  ultimately have "sent l [(l + 0x310, d), (l + 0x300, v)] s (s\<lparr>apic_trace := apic_trace s @ ?u\<rparr>)" unfolding sent_def by blast
  then show ?thesis unfolding s2 w(1) by simp
qed

lemma send_init_sequence:
  assumes "lapic s = l" "l \<noteq> 0" "delivers dev l" "d = push_bit 24 (ucast ident)"
  shows "\<exists>s'. lapic_send_init dev ident s = Some s' \<and> sent l [(l + 0x310, d), (l + 0x300, 0xC500), (l + 0x310, d), (l + 0x300, 0x8500)] s s'"
proof -
  obtain s1 where s1: "lapic_ipi_wait dev (lapic_write LAPIC_ICRLO 0xC500 (lapic_write LAPIC_ICRHI d s)) = Some s1"
    "sent l [(l + 0x310, d), (l + 0x300, 0xC500)] s s1" using send_command [OF assms(1-3)] by blast
  have l1: "lapic s1 = l" using sent_lapic [OF s1(2)] assms(1) by simp
  obtain s2 where s2: "lapic_ipi_wait dev (lapic_write LAPIC_ICRLO 0x8500 (lapic_write LAPIC_ICRHI d s1)) = Some s2"
    "sent l [(l + 0x310, d), (l + 0x300, 0x8500)] s1 s2" using send_command [OF l1 assms(2,3)] by blast
  have "lapic_send_init dev ident s = Some s2"
    using s1(1) s2(1) assms(1,2,4) by (simp add: lapic_send_init_def Let_def)
  then show ?thesis using sent_trans [OF s1(2) s2(2)] by simp
qed

lemma send_sipi_sequence:
  assumes "lapic s = l" "l \<noteq> 0" "delivers dev l" "d = push_bit 24 (ucast ident)"
  shows "\<exists>s'. lapic_send_sipi dev ident vector s = Some s' \<and> sent l [(l + 0x310, d), (l + 0x300, 0x600 OR ucast vector)] s s'"
  using send_command [OF assms(1-3), of "0x600 OR ucast vector" d] assms(1,2,4) by (simp add: lapic_send_sipi_def Let_def)

lemma start_ap_returns:
  assumes "lapic a = l" "l \<noteq> 0" "delivers dev l" "d = push_bit 24 (ucast ident)"
  shows "\<exists>s' a'. start_ap dev reads ident stack (s, a) = Some (list_ex (\<lambda>i. reads (Suc i) > reads 0) [0..<1000], s', a') \<and>
     mem s' = store64 (mem s) 0x80E8 (stack + 0x4000) \<and>
     sent l [(l + 0x310, d), (l + 0x300, 0xC500), (l + 0x310, d), (l + 0x300, 0x8500), (l + 0x310, d), (l + 0x300, 0x608), (l + 0x310, d), (l + 0x300, 0x608)] a a'"
proof -
  obtain a1 where a1: "lapic_send_init dev ident a = Some a1"
    "sent l [(l + 0x310, d), (l + 0x300, 0xC500), (l + 0x310, d), (l + 0x300, 0x8500)] a a1" using send_init_sequence [OF assms] by blast
  have l1: "lapic a1 = l" using sent_lapic [OF a1(2)] assms(1) by simp
  obtain a2 where a2: "lapic_send_sipi dev ident 0x08 a1 = Some a2" "sent l [(l + 0x310, d), (l + 0x300, 0x608)] a1 a2"
    using send_sipi_sequence [OF l1 assms(2-4), of "0x08"] by auto
  have l2: "lapic a2 = l" using sent_lapic [OF a2(2)] l1 by simp
  obtain a3 where a3: "lapic_send_sipi dev ident 0x08 a2 = Some a3" "sent l [(l + 0x310, d), (l + 0x300, 0x608)] a2 a3"
    using send_sipi_sequence [OF l2 assms(2-4), of "0x08"] by auto
  have w: "sent l [(l + 0x310, d), (l + 0x300, 0xC500), (l + 0x310, d), (l + 0x300, 0x8500), (l + 0x310, d), (l + 0x300, 0x608), (l + 0x310, d), (l + 0x300, 0x608)] a a3"
    using sent_trans [OF sent_trans [OF a1(2) a2(2)] a3(2)] by simp
  show ?thesis using a1(1) a2(1) a3(1) w by (simp add: start_ap_def Let_def log_acpi_def)
qed

lemma memset_stack:
  assumes "unat p \<ge> 0x10000" "unat p + 0x4000 \<le> 2 ^ 64" "unat (x - p) < 0x4000"
  shows "store64 (memset m p 0 0x4000) 0x80E8 v x = 0"
proof -
  define k where "k = unat (x - p)"
  have e: "p + (x - p) = x" by simp
  have k: "k < 0x4000" using assms(3) by (simp add: k_def)
  have "unat x = (unat p + k) mod 2 ^ LENGTH(64)" using unat_word_ariths(1) [of p "x - p"] unfolding e k_def [symmetric] .
  also have "\<dots> = unat p + k" using assms(2) k by (intro mod_less) simp
  finally have x: "unat x = unat p + k" .
  have "(0x80E8 :: u64) \<le> x" using x assms(1) by (simp add: word_le_nat_alt)
  then have "unat (x - 0x80E8) = unat x - 0x80E8" using unat_sub [of "0x80E8" x] by simp
  then have "\<not> unat (x - 0x80E8) < 8" using x assms(1) by linarith
  then show ?thesis using k unfolding k_def store64_apply memset_apply by simp
qed

section \<open>Properties\<close>

text \<open>
  C25. \<open>start_ap\<close> sends a processor exactly the sequence that starts it: INIT asserted, INIT deasserted and twice the startup
  interrupt for page 8, each after its destination and each only when a read has shown the one before to be delivered, and
  nothing else. It returns, leaves the top of the stack where the trampoline reads it, and reports success iff one of
  its thousand reads of the counter sees a new processor.
\<close>

theorem start_ap_sequence:
  assumes "lapic a = l" "l \<noteq> 0" "delivers dev l" "d = push_bit 24 (ucast ident)"
  shows "\<exists>s' a' u. start_ap dev reads ident stack (s, a) = Some (list_ex (\<lambda>i. reads (Suc i) > reads 0) [0..<1000], s', a') \<and>
     load64 (mem s') (AP_TRAMPOLINE_ADDR + 0xE8) = stack + AP_STACK_SIZE \<and> apic_trace a' = apic_trace a @ u \<and>
     writes u = [(l + 0x310, d), (l + 0x300, 0xC500), (l + 0x310, d), (l + 0x300, 0x8500),
       (l + 0x310, d), (l + 0x300, 0x608), (l + 0x310, d), (l + 0x300, 0x608)] \<and> ipi_paced l u"
  using start_ap_returns [OF assms, of reads stack s] by (auto simp: sent_def load64_store64_same)

theorem start_ap_sequence_witness:
  "\<exists>s' a' u. start_ap (\<lambda>t x. if even (length t) then 0x1000 else 0) (\<lambda>n. if n < 5 then 0 else 1) 5 0x200000 (demo_acpi, demo_apic\<lparr>lapic := 0xFEE00000\<rparr>) =
       Some (True, s', a') \<and> apic_trace a' = u \<and>
     writes u = [(0xFEE00310, 0x05000000), (0xFEE00300, 0xC500), (0xFEE00310, 0x05000000), (0xFEE00300, 0x8500),
       (0xFEE00310, 0x05000000), (0xFEE00300, 0x608), (0xFEE00310, 0x05000000), (0xFEE00300, 0x608)] \<and> ipi_paced 0xFEE00000 u"
proof -
  let ?dev = "\<lambda>t x. if even (length t) then 0x1000 else 0" and ?a = "demo_apic\<lparr>lapic := 0xFEE00000\<rparr>"
  have "delivers ?dev 0xFEE00000"
    unfolding delivers_def settles_def
  proof
    fix t show "\<exists>n. ?dev (polled (\<lambda>t. ?dev t (0xFEE00000 + 0x300)) (Read32 (0xFEE00000 + 0x300)) n t) (0xFEE00000 + 0x300) AND LAPIC_ICR_DELIVS = 0"
      by (intro exI [of _ "if even (length t) then 1 else 0"]) simp
  qed
  moreover have "list_ex (\<lambda>i. (if Suc i < 5 then 0 else (1 :: u32)) > 0) [0..<1000]"
    unfolding list_ex_iff by (intro bexI [of _ 4]) simp_all
  ultimately show ?thesis
    using start_ap_sequence [of ?a "0xFEE00000" ?dev "0x05000000" 5 "\<lambda>n. if n < 5 then 0 else 1" "0x200000" demo_acpi]
    by (simp add: demo_apic_def push_bit_eq_mult) blast
qed

text \<open>
  C6. The stack of a started processor is one page from \<open>kalloc\<close>, but \<open>start_all_aps\<close> clears 16 KB from its start and passes
  the address 16 KB above it as the top of the stack: whatever the three pages behind it hold is overwritten with zeros.
\<close>

theorem ap_stack_overruns:
  assumes "get_cpu_info (of_nat i) s = Some cpu" "ci_enabled cpu" "ci_apic_id cpu \<noteq> bsp_apic_id"
    and "unat (freelist s) \<ge> 0x10000" "unat (freelist s) + 0x4000 \<le> 2 ^ 64" "lapic a \<noteq> 0" "delivers dev (lapic a)"
  shows "\<exists>n' s' a'. start_aps dev reads bsp_apic_id [i] n (s, a) = Some (n', s', a') \<and> freelist s' = load64 (mem s) (freelist s) \<and>
     (\<forall>x. unat (x - freelist s) < 4 * 4096 \<longrightarrow> mem s' x = 0)"
proof -
  let ?p = "freelist s"
  have p: "?p \<noteq> 0" using assms(4) by auto
  obtain s1 where k: "kalloc s = (?p, s1)" "freelist s1 = load64 (mem s) ?p" using p by (simp add: kalloc_def Let_def)
  let ?s2 = "s1\<lparr>mem := memset (mem s1) ?p 0 AP_STACK_SIZE\<rparr>"
  obtain s' a' where st: "start_ap dev (reads i) (ci_apic_id cpu) ?p (?s2, a) = Some (list_ex (\<lambda>j. reads i (Suc j) > reads i 0) [0..<1000], s', a')"
    "mem s' = store64 (mem ?s2) 0x80E8 (?p + 0x4000)"
    using start_ap_returns [OF refl assms(6,7) refl] by blast
  have "start_aps dev reads bsp_apic_id [i] n (s, a) = Some (if list_ex (\<lambda>j. reads i (Suc j) > reads i 0) [0..<1000] then n + 1 else n, s', a')"
    using assms(1-3) k(1) p st(1) by (simp add: Let_def)
  moreover have "freelist s' = freelist ?s2"
    using st(1) by (auto simp: start_ap_def Let_def log_acpi_def bind_eq_Some_conv split: if_splits)
  ultimately show ?thesis using st(2) memset_stack [OF assms(4,5)] k(2) by simp
qed

theorem ap_stack_overruns_witness:
  "mem demo_two_cpus 0x201234 = 7 \<and>
   (\<exists>n' s' a'. start_aps (\<lambda>t x. 0) (\<lambda>i n. 0) 0 [1] 0 (demo_two_cpus, demo_apic\<lparr>lapic := 0xFEE00000\<rparr>) = Some (n', s', a') \<and> mem s' 0x201234 = 0)"
proof -
  have "get_cpu_info (of_nat 1) demo_two_cpus = Some (make_cpu 1 (1, 5, 1))"
    by (simp add: get_cpu_info_def demo_two_cpus_def demo_acpi_def word_le_nat_alt)
  from ap_stack_overruns [OF this, of 0 "demo_apic\<lparr>lapic := 0xFEE00000\<rparr>" "\<lambda>t x. 0" "\<lambda>i n. 0" 0]
  show ?thesis by (auto simp: make_cpu_def demo_two_cpus_def demo_apic_def delivers_def settles_def)
qed

end
