(* ===== verification/BootMem.thy ===== *)
theory BootMem
  imports PageMaps
begin

text \<open>
  The address space of the kernel while it boots: the page tables of \<^verbatim>\<open>x86_64/boot/boot.asm\<close>, which map the first two
  megabytes, and the calls of \<^verbatim>\<open>kernel/main.c\<close> that free the memory below \<open>INIT_PHYSTOP\<close>, extend the tables with \<open>kvminit\<close>
  and free the memory above. The addresses of the tables and the end of the image are chosen by the linker and are
  arguments. The theorems follow the address space through these calls with the memory they have: a table covers two
  megabytes, so that \<open>kvminit\<close> takes one page for every 512 it maps.
\<close>

section \<open>Definitions\<close>

text \<open>
  \<open>page_tables_setup\<close> of \<^verbatim>\<open>boot.asm\<close>: one entry in each upper table, and the loop over the 512 entries of the lowest. The
  stores write 32 bits.
\<close>

definition page_tables_setup :: "u32 \<Rightarrow> u32 \<Rightarrow> u32 \<Rightarrow> u32 \<Rightarrow> memory \<Rightarrow> memory" where
  "page_tables_setup p4_table p3_table p2_table p1_table m =
     (let m = store32 m (ucast p4_table) (p3_table OR 0x3);
          m = store32 m (ucast p3_table) (p2_table OR 0x3);
          m = store32 m (ucast p2_table) (p1_table OR 0x3)
      in fold (\<lambda>ecx m. store32 m (ucast (p1_table + of_nat ecx * 8)) (0x1000 * of_nat ecx OR 0x3)) [0..<512] m)"

text \<open>The tables are built and their root is loaded into \<open>cr3\<close>.\<close>

definition boot_start :: "u32 \<Rightarrow> u32 \<Rightarrow> u32 \<Rightarrow> u32 \<Rightarrow> 'a vmstate_scheme \<Rightarrow> 'a vmstate_scheme" where
  "boot_start p4_table p3_table p2_table p1_table s =
     s\<lparr>mem := page_tables_setup p4_table p3_table p2_table p1_table (mem s), cr3 := ucast p4_table\<rparr>"

text \<open>The first calls of \<open>kernel_main\<close> on the memory: \<open>kinit (KEND, INIT_PHYSTOP)\<close> and \<open>kvminit (INIT_PHYSTOP, PHYSTOP)\<close>.\<close>

definition init_memory :: "u64 \<Rightarrow> 'a vmstate_scheme \<Rightarrow> (u64 \<times> 'a vmstate_scheme) result option" where
  "init_memory kend s =
     (case kinit kend kend INIT_PHYSTOP s of Inl e \<Rightarrow> Some (Inl e) | Inr s \<Rightarrow> map_option Inr (kvminit INIT_PHYSTOP PHYSTOP s))"

section \<open>Reference definitions\<close>

text \<open>How many of the \<open>n\<close> pages from page number \<open>A\<close> on are the first of a table.\<close>

definition new_tables :: "nat \<Rightarrow> nat \<Rightarrow> nat" where
  "new_tables A n = (A + n + 511) div 512 - (A + 511) div 512"

text \<open>What the loader leaves: the four tables are distinct pages of zeroes inside the image of the kernel.\<close>

definition boot_image :: "u64 \<Rightarrow> u32 list \<Rightarrow> memory \<Rightarrow> bool" where
  "boot_image kend tables m \<longleftrightarrow> distinct tables \<and>
     (\<forall>p \<in> set tables. page_aligned (ucast p) \<and> p \<noteq> 0 \<and> unat p + 4096 \<le> unat kend \<and> (\<forall>x. in_page (ucast p) x \<longrightarrow> m x = 0))"

section \<open>Walks under tables that exist\<close>

lemma walk_loop_skip:
  "\<lbrakk>follow (mem s) root pre = Some t; length pre = k; path_from (k + l) va = pre @ path_from l va\<rbrakk>
   \<Longrightarrow> walk_loop (k + l) root va alloc s = walk_loop l t va alloc s"
proof (induction k arbitrary: root pre)
  case (Suc k)
  then obtain i rest where pre: "pre = i # rest" by (cases pre) auto
  then have "i = level_index (Suc (k + l)) va" "path_from (k + l) va = rest @ path_from l va" using Suc.prems(3) by simp_all
  moreover have "bit (load64 (mem s) (root + 8 * of_nat i)) 0"
    "follow (mem s) (load64 (mem s) (root + 8 * of_nat i) AND 0xFFFFFFFFF000) rest = Some t"
    using Suc.prems(1) pre by (auto simp: Let_def split: if_splits)
  ultimately show ?case using Suc.IH [of _ rest] Suc.prems(2) pre by (simp add: Let_def decode_address)
qed simp

lemma walk_post_from:
  assumes "vm_inv kend root s ps" "follow (mem s) root pre = Some t" "pre @ path_from l va = path_from 3 va"
    "walk root va True s = (r, s')"
  shows "walk_post kend root s ps l (path_from 3 va) va r s'"
proof -
  have len: "length pre + l = 3" using arg_cong [OF assms(3), of length] by simp
  have "good_path (pre @ path_from l va)" by (simp only: assms(3) good_path_from)
  then have "good_path pre" by simp
  moreover have "walk_loop l t va True s = (r, s')"
    using walk_loop_skip [OF assms(2) refl, of l va] assms(3,4) len by (simp add: walk_def)
  ultimately have "walk_post kend root s ps l (pre @ path_from l va) va r s'" using walk_loop_alloc [OF assms(1,2) _ len] by blast
  then show ?thesis by (simp only: assms(3))
qed

lemma leaf_follow: "leaf_of m root x \<noteq> None \<Longrightarrow> \<exists>t. follow m root (path_from 3 x) = Some t"
  by (auto simp: leaf_of_def entry_at_va_path split: option.splits)

lemma level_index_nat: "level_index l x = unat x div 2 ^ (12 + 9 * l) mod 512"
proof -
  have "level_index l x = unat (take_bit 9 (drop_bit (12 + l * 9) x))"
    unfolding level_index_def mask_literals by (simp add: take_bit_eq_mask)
  also have "\<dots> = unat x div 2 ^ (12 + l * 9) mod 2 ^ 9"
    by (simp only: unsigned_take_bit_eq unat_drop_bit_eq) (simp only: take_bit_eq_mod drop_bit_eq_div)
  finally show ?thesis by (simp add: mult.commute)
qed

lemma path_low: "unat a < 2 ^ 30 \<Longrightarrow> path_from 3 a = [0, 0, unat a div 2 ^ 21]"
  by (simp add: numeral_3_eq_3 level_index_nat)

lemma walk_post_low:
  assumes "vm_inv kend root s ps" "leaf_of (mem s) root b \<noteq> None" "unat a < 2 ^ 30" "unat b < 2 ^ 30"
    "walk root a True s = (r, s')"
  shows "walk_post kend root s ps (if unat a div 2 ^ 21 = unat b div 2 ^ 21 then 0 else 1) (path_from 3 a) a r s'"
proof -
  obtain t where t: "follow (mem s) root [0, 0, unat b div 2 ^ 21] = Some t"
    using leaf_follow [OF assms(2)] path_low [OF assms(4)] by auto
  show ?thesis
  proof (cases "unat a div 2 ^ 21 = unat b div 2 ^ 21")
    case True
    then show ?thesis using walk_post_from [OF assms(1) t _ assms(5), of 0] path_low [OF assms(3)] by simp
  next
    case False
    obtain u where "follow (mem s) root [0, 0] = Some u"
      using t follow_append [of "mem s" root "[0, 0]" "[unat b div 2 ^ 21]"] by (cases "follow (mem s) root [0, 0]") auto
    moreover have "[0, 0] @ path_from 1 a = path_from 3 a"
      using path_low [OF assms(3)] by (simp add: numeral_3_eq_3)
    ultimately show ?thesis using walk_post_from [OF assms(1) _ _ assms(5), of "[0, 0]" u 1] False by simp
  qed
qed

lemma new_tables_Suc: "new_tables A (Suc n) = (if 512 dvd A then 1 else 0) + new_tables (Suc A) n"
proof -
  have "A + 511 = 512 * (A div 512) + (A mod 512 + 511)" by simp
  then have "(A + 511) div 512 = A div 512 + (A mod 512 + 511) div 512" by (metis div_mult_self4 zero_neq_numeral)
  moreover have "(A mod 512 + 511) div 512 = (if 512 dvd A then 0 else 1)"
  proof (cases "512 dvd A")
    case False
    then have "1 \<le> A mod 512" "A mod 512 < 512" by (simp_all add: dvd_eq_mod_eq_0 Suc_le_eq)
    then have "512 \<le> A mod 512 + 511" "A mod 512 + 511 < 1024" by linarith+
    then have "(A mod 512 + 511) div 512 = 1" by (intro div_nat_eqI) simp_all
    then show ?thesis using False by simp
  qed simp
  moreover have "(A + 512) div 512 = Suc (A div 512)" by simp
  ultimately have "(A + 512) div 512 = (A + 511) div 512 + (if 512 dvd A then 1 else 0)" by simp
  moreover have "(A + 512) div 512 \<le> (A + Suc n + 511) div 512" by (rule div_le_mono) simp
  ultimately show ?thesis by (auto simp: new_tables_def ac_simps)
qed


lemma kvminit_loop_low:
  fixes s :: "'a vmstate_scheme"
  assumes "vm_inv kend root s ps" "unat a = 4096 * Suc A" "leaf_of (mem s) root (a - 4096) \<noteq> None"
    "unat a + 4096 * Suc n < 2 ^ 30" "new_tables (Suc A) n \<le> length ps"
    "unat a + 4096 * n < unat stop" "unat stop \<le> unat a + 4096 * Suc n"
  shows "\<exists>s' ps'. kvminit_loop root a stop s = Some s' \<and> vm_inv kend root s' ps' \<and> suffix ps' ps \<and>
     cr3 s' = cr3 s \<and> length ps \<le> length ps' + new_tables (Suc A) n \<and>
     (\<forall>va. leaf_of (mem s') root va = (if in_pages a n va then Some (low_entry va) else leaf_of (mem s) root va)) \<and>
     (\<forall>x. in_tables (mem s') root x \<longrightarrow> in_tables (mem s) root x \<or> (\<exists>p \<in> set ps. in_page p x))"
  using assms
proof (induction n arbitrary: a A s ps)
  case 0
  have "unat (a + 4096) = unat a + 4096" using unat_nth_page [of a 1] 0(4) by (simp add: nth_page_def)
  then show ?case using 0 by (subst kvminit_loop.simps) (auto simp: word_less_nat_alt new_tables_def)
next
  case (Suc n)
  obtain r s1 where w: "walk root a True s = (r, s1)" by (cases "walk root a True s")
  let ?c = "if 512 dvd Suc A then 1 else 0 :: nat"
  have prev: "unat (a - 4096) = 4096 * A" using Suc.prems(2) by (simp add: unat_sub word_le_nat_alt)
  have "unat a div 2 ^ 21 = Suc A div 512" "unat (a - 4096) div 2 ^ 21 = A div 512"
    using div_mult2_eq [of "4096 * Suc A" 4096 512] div_mult2_eq [of "4096 * A" 4096 512] Suc.prems(2) prev by simp_all
  moreover have "Suc A div 512 = A div 512 \<longleftrightarrow> \<not> 512 dvd Suc A" by (simp add: div_Suc dvd_eq_mod_eq_0)
  ultimately have post: "walk_post kend root s ps ?c (path_from 3 a) a r s1"
    using walk_post_low [OF Suc.prems(1,3) _ _ w] Suc.prems(2,4) prev by auto
  have c: "new_tables (Suc A) (Suc n) = ?c + new_tables (Suc (Suc A)) n" by (rule new_tables_Suc)
  have r: "r \<noteq> 0" using post c Suc.prems(5) by (auto simp: walk_post_def split: if_splits)
  define s2 where "s2 = s1\<lparr>mem := store64 (mem s1) r (encode_page_entry (low_entry a))\<rparr>"
  obtain ps' where s2: "vm_inv kend root s2 ps'" "suffix ps' ps" "length ps \<le> length ps' + ?c" "cr3 s2 = cr3 s"
    "\<And>va. leaf_of (mem s2) root va = (if same_page a va then Some (low_entry va) else leaf_of (mem s) root va)"
    "\<And>x. in_tables (mem s2) root x \<Longrightarrow> in_tables (mem s) root x \<or> (\<exists>p \<in> set ps. in_page p x)"
    using low.walk_store_identity [OF post r s2_def] by blast
  have up: "unat (a + 4096) = unat a + 4096" using unat_nth_page [of a 1] Suc.prems(4) by (simp add: nth_page_def)
  then have "a + 4096 < stop" using Suc.prems(6) by (simp add: word_less_nat_alt)
  then have "kvminit_loop root a stop s = kvminit_loop root (a + 4096) stop s2"
    using w r by (subst kvminit_loop.simps) (simp add: s2_def init_entry_eq)
  moreover have "leaf_of (mem s2) root (a + 4096 - 4096) \<noteq> None" using s2(5) [of a] by simp
  then obtain s' ps'' where s': "kvminit_loop root (a + 4096) stop s2 = Some s'" "vm_inv kend root s' ps''" "suffix ps'' ps'"
     "cr3 s' = cr3 s2" "length ps' \<le> length ps'' + new_tables (Suc (Suc A)) n"
     "\<And>va. leaf_of (mem s') root va = (if in_pages (a + 4096) n va then Some (low_entry va) else leaf_of (mem s2) root va)"
     "\<And>x. in_tables (mem s') root x \<Longrightarrow> in_tables (mem s2) root x \<or> (\<exists>p \<in> set ps'. in_page p x)"
    using Suc.IH [OF s2(1), of "a + 4096" "Suc A"] Suc.prems(2,4-7) up s2(3) c by auto
  moreover have "in_tables (mem s) root x \<or> (\<exists>p \<in> set ps. in_page p x)" if "in_tables (mem s') root x" for x
    using s'(7) [OF that] s2(6) [of x] set_mono_suffix [OF s2(2)] by blast
  moreover have "suffix ps'' ps" using s'(3) s2(2) by (rule suffix_order.trans)
  ultimately show ?case using s2(3-5) c by (intro exI [of _ s'] exI [of _ ps'']) (auto simp: in_pages_Suc)
qed

section \<open>The tables of the boot code\<close>

lemma load64_zero_bytes: "\<lbrakk>load64 m a = 0; i < 8\<rbrakk> \<Longrightarrow> m (a + of_nat i) = 0"
proof (rule bit_word_eqI)
  fix k assume "load64 m a = 0" and k: "i < 8" "k < LENGTH(8)"
  then have "\<not> bit (load_le m a 8) (8 * i + k)" by (simp add: load64_def)
  then show "bit (m (a + of_nat i)) k = bit 0 k" using k by (simp add: bit_load_le)
qed

lemma store32_zero:
  assumes "load64 m a = 0"
  shows "store32 m a v = store64 m a (ucast v)"
proof
  fix x
  have "x = a + of_nat (unat (x - a))" by simp
  then have "m x = 0" if "unat (x - a) < 8" using load64_zero_bytes [OF assms that] by simp
  moreover have "ucast (drop_bit (8 * k) (ucast v :: u64)) = (0 :: u8)" if "4 \<le> k" for k
    using that by (intro bit_word_eqI) (auto simp: bit_simps dest!: bit_imp_le_length)
  ultimately show "store32 m a v x = store64 m a (ucast v) x" by (auto simp: store32_def store64_def store_le_apply)
qed

lemma store32_slot:
  assumes "page_aligned p" "i < 512" "load64 m (p + 8 * of_nat i) = 0"
  shows "\<not> in_page p x \<Longrightarrow> store32 m (p + 8 * of_nat i) v x = m x"
    and "\<lbrakk>page_aligned q; j < 512\<rbrakk> \<Longrightarrow>
       load64 (store32 m (p + 8 * of_nat i) v) (q + 8 * of_nat j) = (if p = q \<and> i = j then ucast v else load64 m (q + 8 * of_nat j))"
  unfolding store32_zero [OF assms(3)] using assms(1,2)
  by (simp_all add: store64_outside_page load64_store64 aligned8_slot slot_eq_iff)

lemma fill_table:
  assumes "page_aligned p" "\<And>i. i < 512 \<Longrightarrow> load64 m (p + 8 * of_nat i) = 0" "n \<le> 512"
  shows "i < 512 \<Longrightarrow> load64 (fold (\<lambda>k m. store32 m (p + 8 * of_nat k) (f k)) [0..<n] m) (p + 8 * of_nat i) = (if i < n then ucast (f i) else 0)"
    and "\<not> in_page p x \<Longrightarrow> fold (\<lambda>k m. store32 m (p + 8 * of_nat k) (f k)) [0..<n] m x = m x"
  using assms(3)
proof (induction n arbitrary: i x)
  case 0 case 1 then show ?case using assms(2) by simp
next
  case 0 case 2 then show ?case by simp
next
  case (Suc n) case 1
  then show ?case using Suc.IH(1) [of n] Suc.IH(1) [of i] store32_slot(2) [OF assms(1) _ _ assms(1)] by (auto simp: less_Suc_eq)
next
  case (Suc n) case 2
  then show ?case using Suc.IH(1) [of n] Suc.IH(2) [of x] store32_slot(1) [OF assms(1)] by simp
qed


lemma load64_zero_page: "\<lbrakk>\<And>x. in_page p x \<Longrightarrow> m x = 0; i < 512\<rbrakk> \<Longrightarrow> load64 m (p + 8 * of_nat i) = 0"
  using load64_other_page [of p m "\<lambda>_. 0" i] by simp

lemma ucast_u32_eq_iff: "(ucast (p :: u32) :: u64) = ucast q \<longleftrightarrow> p = q"
  by (metis unat_ucast_u32 word_unat_eq_iff)

lemma store32_head:
  assumes "page_aligned p" "load64 m p = 0" "page_aligned q" "j < 512"
  shows "load64 (store32 m p v) (q + 8 * of_nat j) = (if p = q \<and> j = 0 then ucast v else load64 m (q + 8 * of_nat j))"
  using store32_slot(2) [of p 0 m q j v] assms by auto

lemma p1_slot:
  assumes "unat p + 4096 \<le> unat (kend :: u64)" "unat kend \<le> 2 ^ 32" "k < 512"
  shows "(ucast (p + of_nat k * 8 :: u32) :: u64) = ucast p + 8 * of_nat k"
proof -
  have "unat (p + of_nat k * 8) = unat p + 8 * k" using assms by (simp add: unat_word_ariths unat_of_nat)
  moreover have "unat (ucast p + 8 * of_nat k :: u64) = unat p + 8 * k"
    using assms by (simp add: unat_word_ariths unat_of_nat unat_ucast_u32)
  ultimately show ?thesis by (simp add: word_unat_eq_iff unat_ucast_u32)
qed

lemma boot_entries:
  assumes "boot_image kend [p4, p3, p2, p1] m" "unat kend \<le> 2 ^ 32" "i < 512" "q \<in> {p4, p3, p2, p1}"
  shows "load64 (page_tables_setup p4 p3 p2 p1 m) (ucast q + 8 * of_nat i) =
     (if q = p1 then ucast (0x1000 * of_nat i OR 0x3 :: u32)
      else if i = 0 then ucast ((if q = p4 then p3 else if q = p3 then p2 else p1) OR 0x3) else 0)"
proof -
  let ?p = "ucast :: u32 \<Rightarrow> u64"
  define m1 where "m1 = store32 m (?p p4) (p3 OR 0x3)"
  define m2 where "m2 = store32 m1 (?p p3) (p2 OR 0x3)"
  define m3 where "m3 = store32 m2 (?p p2) (p1 OR 0x3)"
  define m' where "m' = fold (\<lambda>k m. store32 m (?p p1 + 8 * of_nat k) (0x1000 * of_nat k OR 0x3)) [0..<512] m3"
  have al: "page_aligned (?p p4)" "page_aligned (?p p3)" "page_aligned (?p p2)" "page_aligned (?p p1)" "page_aligned (?p q)"
    and d: "distinct [p4, p3, p2, p1]" and k: "unat p1 + 4096 \<le> unat kend"
    using assms(1,4) by (auto simp: boot_image_def)
  have al': "page_aligned (?p p)" if "p \<in> {p4, p3, p2, p1}" for p using that al by auto
  have z: "load64 m (?p p + 8 * of_nat j) = 0" if "p \<in> {p4, p3, p2, p1}" "j < 512" for p j
    using assms(1) that by (intro load64_zero_page) (auto simp: boot_image_def)
  have m1: "load64 m1 (?p p + 8 * of_nat j) = (if p4 = p \<and> j = 0 then ?p (p3 OR 0x3) else 0)"
    if "p \<in> {p4, p3, p2, p1}" "j < 512" for p j
    using store32_head [OF al(1) _ al' [OF that(1)] that(2)] z [of p4 0] z [OF that] unfolding m1_def by (simp add: ucast_u32_eq_iff)
  have m2: "load64 m2 (?p p + 8 * of_nat j) = (if p3 = p \<and> j = 0 then ?p (p2 OR 0x3) else if p4 = p \<and> j = 0 then ?p (p3 OR 0x3) else 0)"
    if "p \<in> {p4, p3, p2, p1}" "j < 512" for p j
    using store32_head [OF al(2) _ al' [OF that(1)] that(2)] m1 [of p3 0] m1 [OF that] d unfolding m2_def by (auto simp: ucast_u32_eq_iff split: if_splits)
  have m3: "load64 m3 (?p p + 8 * of_nat j) = (if j = 0 \<and> p \<noteq> p1 then ?p ((if p = p4 then p3 else if p = p3 then p2 else p1) OR 0x3) else 0)"
    if "p \<in> {p4, p3, p2, p1}" "j < 512" for p j
    using store32_head [OF al(3) _ al' [OF that(1)] that(2)] m2 [of p2 0] m2 [OF that] d that(1) unfolding m3_def
    by (auto simp: ucast_u32_eq_iff)
  have "page_tables_setup p4 p3 p2 p1 m = m'"
    unfolding page_tables_setup_def Let_def m'_def m3_def m2_def m1_def using k assms(2) by (intro fold_cong) (simp_all add: p1_slot)
  moreover have "load64 m' (?p q + 8 * of_nat i) = load64 m3 (?p q + 8 * of_nat i)" if "q \<noteq> p1"
  proof (rule load64_other_page [OF _ assms(3)])
    fix x assume "in_page (?p q) x"
    then have "\<not> in_page (?p p1) x" using pages_disjoint [OF al(5,4)] that by (auto simp: ucast_u32_eq_iff)
    then show "m' x = m3 x" unfolding m'_def using al(4) m3 [of p1] by (intro fill_table(2)) simp_all
  qed
  moreover have "load64 m' (?p p1 + 8 * of_nat i) = ucast (0x1000 * of_nat i OR 0x3 :: u32)"
    unfolding m'_def using fill_table(1) [OF al(4), of m3 512 i] m3 [of p1] assms(3) by simp
  ultimately show ?thesis using m3 [OF assms(4,3)] d by auto
qed

lemma entry_bits:
  fixes p :: u32
  assumes "page_aligned (ucast p)"
  shows "bit (ucast (p OR 0x3) :: u64) 0" "(ucast (p OR 0x3) :: u64) AND 0xFFFFFFFFF000 = ucast p"
proof -
  have "unat p < 2 ^ LENGTH(32)" by (rule unsigned_less)
  then have "(ucast p :: u64) AND 0xFFFFFFFFF000 = ucast p"
    using assms by (intro frame_address) (simp_all add: unat_ucast_u32)
  moreover have "(ucast (p OR q) :: u64) = ucast p OR ucast q" for q :: u32 by (rule bit_word_eqI) (auto simp: bit_simps)
  then have "(ucast (p OR 0x3) :: u64) = ucast p OR 0x3" by simp
  moreover have "(0x3 :: u64) AND 0xFFFFFFFFF000 = 0" by simp
  ultimately show "(ucast (p OR 0x3) :: u64) AND 0xFFFFFFFFF000 = ucast p" by (simp add: bit.conj_disj_distrib2)
  show "bit (ucast (p OR 0x3) :: u64) 0" by (simp add: bit_simps)
qed

lemma boot_step:
  assumes "boot_image kend [p4, p3, p2, p1] m" "unat kend \<le> 2 ^ 32" "i < 512"
  defines "m' \<equiv> page_tables_setup p4 p3 p2 p1 m"
  shows "follow m' (ucast p4) (i # r) = (if i = 0 then follow m' (ucast p3) r else None)"
    and "follow m' (ucast p3) (i # r) = (if i = 0 then follow m' (ucast p2) r else None)"
    and "follow m' (ucast p2) (i # r) = (if i = 0 then follow m' (ucast p1) r else None)"
    and "follow m' (ucast p1) (i # r) = follow m' (4096 * of_nat i) r"
proof -
  have al: "page_aligned (ucast p4)" "page_aligned (ucast p3)" "page_aligned (ucast p2)" "page_aligned (ucast p1)"
    and d: "distinct [p4, p3, p2, p1]" using assms(1) by (auto simp: boot_image_def)
  note e = boot_entries [OF assms(1-3), folded m'_def]
  show "follow m' (ucast p4) (i # r) = (if i = 0 then follow m' (ucast p3) r else None)"
    using e [of p4] d entry_bits [OF al(2)] by (auto simp: Let_def)
  show "follow m' (ucast p3) (i # r) = (if i = 0 then follow m' (ucast p2) r else None)"
    using e [of p3] d entry_bits [OF al(3)] by (auto simp: Let_def)
  show "follow m' (ucast p2) (i # r) = (if i = 0 then follow m' (ucast p1) r else None)"
    using e [of p2] d entry_bits [OF al(4)] by (auto simp: Let_def)
  have "unat (0x1000 * of_nat i :: u32) = 4096 * i" "unat (4096 * of_nat i :: u64) = 4096 * i"
    using assms(3) by (simp_all add: unat_word_ariths unat_of_nat)
  then have u: "(ucast (0x1000 * of_nat i :: u32) :: u64) = 4096 * of_nat i" "page_aligned (4096 * of_nat i)"
    by (simp_all add: word_unat_eq_iff unat_ucast_u32 page_aligned_def)
  then show "follow m' (ucast p1) (i # r) = follow m' (4096 * of_nat i) r"
    using e [of p1] entry_bits [of "0x1000 * of_nat i"] by (simp add: Let_def)
qed

lemma boot_follow:
  assumes "boot_image kend [p4, p3, p2, p1] m" "unat kend \<le> 2 ^ 32" "good_path q" "length q \<le> 3"
  shows "follow (page_tables_setup p4 p3 p2 p1 m) (ucast p4) q =
     (if q = replicate (length q) 0 then Some (ucast ([p4, p3, p2, p1] ! length q)) else None)"
proof -
  note step = boot_step [OF assms(1,2)]
  consider "q = []" | i where "q = [i]" | i j where "q = [i, j]" | i j k where "q = [i, j, k]"
    using assms(4) by (cases q; cases "tl q"; cases "tl (tl q)"; cases "tl (tl (tl q))") auto
  then show ?thesis using assms(3) by cases (auto simp del: follow.simps(2) simp: step)
qed

lemma boot_wf:
  assumes "boot_image kend [p4, p3, p2, p1] m" "unat kend \<le> 2 ^ 32" "\<And>p. p \<in> set ps \<Longrightarrow> kend \<le> p"
  shows "wf_tables (page_tables_setup p4 p3 p2 p1 m) (ucast p4) ps"
  unfolding wf_tables_def
proof (intro allI impI)
  let ?T = "[p4, p3, p2, p1]"
  note f = boot_follow [OF assms(1,2)]
  fix q t assume q: "length q \<le> 3" "good_path q" "follow (page_tables_setup p4 p3 p2 p1 m) (ucast p4) q = Some t"
  then have t: "q = replicate (length q) 0" "t = ucast (?T ! length q)" using f [of q] by (auto split: if_splits)
  have "?T ! length q \<in> set ?T" using q(1) by (intro nth_mem) simp
  then have p: "page_aligned t" "t \<noteq> 0" "unat t + 4096 \<le> unat kend"
    using assms(1) t(2) ucast_u32_eq_iff [of _ 0] unfolding boot_image_def by (auto simp: unat_ucast_u32)
  have "t \<notin> set ps" using assms(3) [of t] p(3) by (auto simp: word_le_nat_alt)
  moreover have "q' = q" if "length q' \<le> 3" "good_path q'" "follow (page_tables_setup p4 p3 p2 p1 m) (ucast p4) q' = Some t" for q'
  proof -
    have t': "q' = replicate (length q') 0" "t = ucast (?T ! length q')" using f [OF that(2,1)] that(3) by (auto split: if_splits)
    have "distinct ?T" using assms(1) by (simp add: boot_image_def)
    then have "length q = length q'" using t(2) t'(2) q(1) that(1) nth_eq_iff_index_eq [of ?T "length q" "length q'"] by (simp add: ucast_u32_eq_iff)
    then show ?thesis using t(1) t'(1) by metis
  qed
  ultimately show "page_aligned t \<and> t \<noteq> 0 \<and> t \<notin> set ps \<and>
      (\<forall>q'. length q' \<le> 3 \<longrightarrow> good_path q' \<longrightarrow> follow (page_tables_setup p4 p3 p2 p1 m) (ucast p4) q' = Some t \<longrightarrow> q' = q)"
    using p(1,2) by blast
qed

lemma in_page_below:
  assumes "in_page p x" "unat p + 4096 \<le> n" "n \<le> 2 ^ 32"
  shows "unat x < n"
proof -
  have "x = p + of_nat (unat (x - p))" by simp
  then show ?thesis using assms unat_add_small [of p "unat (x - p)"] by (simp add: in_page_def)
qed

lemma boot_in_tables:
  assumes "boot_image kend [p4, p3, p2, p1] m" "unat kend \<le> 2 ^ 32" "in_tables (page_tables_setup p4 p3 p2 p1 m) (ucast p4) x"
  shows "x < kend"
proof -
  obtain q t where q: "good_path q" "length q \<le> 3" "follow (page_tables_setup p4 p3 p2 p1 m) (ucast p4) q = Some t" and x: "in_page t x"
    using assms(3) by (auto simp: in_tables_def)
  then have t: "t = ucast ([p4, p3, p2, p1] ! length q)" using boot_follow [OF assms(1,2)] by (simp split: if_splits)
  moreover have "[p4, p3, p2, p1] ! length q \<in> set [p4, p3, p2, p1]" using q(2) by (intro nth_mem) simp
  ultimately have t: "unat t + 4096 \<le> unat kend" using assms(1) unfolding boot_image_def by (auto simp: unat_ucast_u32)
  then show ?thesis using in_page_below [OF x t assms(2)] by (simp add: word_less_nat_alt)
qed

lemma path_zero:
  assumes "unat x < 2 ^ 48" "path_from 3 x = [0, 0, 0]"
  shows "unat x < 2 ^ 21"
proof -
  have z: "unat x div 2 ^ 21 mod 512 = 0" "unat x div 2 ^ 30 mod 512 = 0" "unat x div 2 ^ 39 mod 512 = 0"
    using assms(2) by (simp_all add: numeral_3_eq_3 level_index_nat)
  have low: "y < k" if "y div k mod 512 = 0" "y < k * 512" "0 < k" for y k :: nat
    using that by (simp add: less_mult_imp_div_less div_eq_0_iff mult.commute)
  have "unat x < 2 ^ 39" using low [OF z(3)] assms(1) by simp
  then have "unat x < 2 ^ 30" using low [OF z(2)] by simp
  then show ?thesis using low [OF z(1)] by simp
qed

lemma boot_leaf:
  assumes "boot_image kend [p4, p3, p2, p1] m" "unat kend \<le> 2 ^ 32" "unat x < 2 ^ 48"
  shows "leaf_of (page_tables_setup p4 p3 p2 p1 m) (ucast p4) x \<noteq> None \<longleftrightarrow> unat x < 0x200000"
    and "translate (page_tables_setup p4 p3 p2 p1 m) (ucast p4) x = (if unat x < 0x200000 then Some x else None)"
proof -
  have "translate (page_tables_setup p4 p3 p2 p1 m) (ucast p4) x = (if unat x < 0x200000 then Some x else None)"
  proof (cases "unat x < 0x200000")
    case True
    then have "va_path x = [0, 0, 0, unat x div 4096]" by (simp add: va_path_def numeral_3_eq_3 level_index_nat)
    moreover have "unat x div 4096 < 512" using True by (simp add: div_less_iff_less_mult)
    ultimately have "page_of (page_tables_setup p4 p3 p2 p1 m) (ucast p4) x = Some (4096 * of_nat (unat x div 4096))"
      using boot_step [OF assms(1,2)] unfolding page_of_def by (simp del: follow.simps(2))
    moreover have "4096 * of_nat (unat x div 4096) = PGROUNDDOWN x"
      using \<open>unat x div 4096 < 512\<close> unat_PGROUNDDOWN [of x] by (simp add: word_unat_eq_iff unat_word_ariths unat_of_nat)
    ultimately show ?thesis using True by (simp add: translate_def page_or_offset page_offset_split)
  next
    case False
    then have "path_from 3 x \<noteq> [0, 0, 0]" using path_zero [OF assms(3)] by auto
    then have "follow (page_tables_setup p4 p3 p2 p1 m) (ucast p4) (path_from 3 x) = None"
      using boot_follow [OF assms(1,2), of "path_from 3 x"] by (auto simp: numeral_3_eq_3)
    then show ?thesis using False by (simp add: translate_def page_of_def va_path_def follow_append)
  qed
  then show "translate (page_tables_setup p4 p3 p2 p1 m) (ucast p4) x = (if unat x < 0x200000 then Some x else None)" .
  then show "leaf_of (page_tables_setup p4 p3 p2 p1 m) (ucast p4) x \<noteq> None \<longleftrightarrow> unat x < 0x200000"
    by (auto simp: translate_def page_of_leaf split: if_splits)
qed

section \<open>Frames of the free list\<close>

lemma kfree_more: "kfree kend p s = Inr s' \<Longrightarrow> kstate.more s' = kstate.more s"
  by (auto simp: kfree_def Let_def split: if_splits)

lemma kinit_loop_frame:
  "kinit_loop kend p stop s = Inr s' \<Longrightarrow> stop \<le> PHYSTOP \<Longrightarrow> unat p < 2 ^ 32 \<Longrightarrow>
     kstate.more s' = kstate.more s \<and> (\<forall>x < p. mem s' x = mem s x)"
proof (induction kend p stop s arbitrary: s' rule: kinit_loop.induct)
  case (1 kend p stop s)
  show ?case
  proof (cases "p + PGSIZE < stop")
    case True
    then obtain s1 where s1: "kfree kend p s = Inr s1" "kinit_loop kend (p + PGSIZE) stop s1 = Inr s'"
      using "1.prems"(1) kinit_loop.simps [of kend p stop s] by (cases "kfree kend p s") auto
    have p: "unat (p + PGSIZE) = unat p + 4096" using unat_add_small [of p 4096] "1.prems"(3) by simp
    have "unat (p + PGSIZE) < 2 ^ 32" using True "1.prems"(2) by (simp add: word_less_nat_alt word_le_nat_alt)
    then have s': "kstate.more s' = kstate.more s1" "\<And>x. x < p + PGSIZE \<Longrightarrow> mem s' x = mem s1 x"
      using "1.IH" [OF True s1] "1.prems"(2) by auto
    have "mem s1 x = mem s x" if "x < p" for x
    proof (rule kpages.free_frame [OF s1(1)])
      have "unat (x - p) = unat x + 2 ^ 64 - unat p" using that by (simp add: unat_sub_if' word_less_nat_alt)
      then show "\<not> in_page p x" using "1.prems"(3) by (simp add: in_page_def)
    qed
    then show ?thesis using s' kfree_more [OF s1(1)] p by (auto simp: word_less_nat_alt)
  next
    case False
    then show ?thesis using "1.prems"(1) kinit_loop.simps [of kend p stop s] by simp
  qed
qed


section \<open>Freeing memory above the tables\<close>

lemma tables_kept:
  assumes "\<And>x. in_tables m root x \<Longrightarrow> m' x = m x" "good_path q" "length q \<le> 4"
  shows "same_slots m m' root q"
  unfolding same_slots_def
proof (intro allI impI)
  fix pre i t assume p: "prefix (pre @ [i]) q" "follow m root pre = Some t"
  have g: "good_path pre" "i < 512" "length pre \<le> 3" using prefix_snocD [OF p(1) assms(2,3)] by auto
  then have "in_tables m root x" if "in_page t x" for x using p(2) that unfolding in_tables_def by blast
  then show "load64 m' (t + 8 * of_nat i) = load64 m (t + 8 * of_nat i)" using assms(1) g(2) by (intro load64_other_page) auto
qed

lemma wf_tables_free:
  assumes "wf_tables m root free" "\<And>q t. \<lbrakk>good_path q; length q \<le> 3; follow m root q = Some t\<rbrakk> \<Longrightarrow> t \<notin> set free'"
  shows "wf_tables m root free'"
  unfolding wf_tables_def
proof (intro allI impI conjI)
  fix q t assume q: "length q \<le> 3" "good_path q" "follow m root q = Some t"
  show "page_aligned t" "t \<noteq> 0" using wf_tablesD [OF assms(1) q(3,2,1)] by simp_all
  show "t \<notin> set free'" using assms(2) q by blast
  show "q' = q" if "length q' \<le> 3" "good_path q'" "follow m root q' = Some t" for q'
    using wf_tables_inj [OF assms(1) that(3,2,1) q(3,2,1)] .
qed

lemma kinit_above_tables:
  fixes s :: "'a vmstate_scheme"
  assumes inv: "vm_inv kend root s ps" and below: "\<And>x. in_tables (mem s) root x \<Longrightarrow> x < start" "\<And>p. p \<in> set ps \<Longrightarrow> p < start"
    and b: "kend \<le> start" "0 < start" "stop \<le> PHYSTOP" "unat start + 4095 < 2 ^ 32"
  shows "\<exists>s'. kinit kend start stop s = Inr s' \<and> vm_inv kend root s' (rev (kinit_range (PGROUNDUP start) stop) @ ps) \<and>
     cr3 s' = cr3 s \<and> (\<forall>va. leaf_of (mem s') root va = leaf_of (mem s) root va) \<and>
     (\<forall>x. in_tables (mem s') root x = in_tables (mem s) root x)"
proof -
  let ?p = "PGROUNDUP start"
  have up: "start \<le> ?p" "unat ?p < 2 ^ 32" using unat_PGROUNDUP [of start] b(4) by (simp_all add: word_le_nat_alt)
  have p: "kend \<le> ?p" "?p \<noteq> 0" using up(1) b(1,2) by auto
  have range: "?p \<le> q" if "q \<in> set (kinit_range ?p stop)" for q using kinit_range_bounds [OF b(3) that] by (simp add: word_le_nat_alt)
  have "set (kinit_range ?p stop) \<inter> set ps = {}" using range below(2) up(1) by fastforce
  then obtain s' where s': "kinit kend start stop s = Inr s'" "kmem_inv kend s' (rev (kinit_range ?p stop) @ ps)"
    using kinit_loop_spec [of kend s ps ?p stop] inv b p up by (auto simp: kinit_def vm_inv_def)
  have frame: "kstate.more s' = kstate.more s" "\<And>x. x < ?p \<Longrightarrow> mem s' x = mem s x"
    using kinit_loop_frame [of kend ?p stop s s'] s'(1) b(3) up(2) by (auto simp: kinit_def)
  have "mem s' x = mem s x" if "in_tables (mem s) root x" for x
    using frame(2) [of x] below(1) [OF that] up(1) by simp
  then have slots: "same_slots (mem s) (mem s') root q" if "good_path q" "length q \<le> 4" for q
    using tables_kept [of "mem s" root "mem s'" q] that by blast
  have f: "follow (mem s') root q = follow (mem s) root q" if "good_path q" "length q \<le> 3" for q
    using same_slots_follow [OF slots] that by simp
  have "t \<notin> set (rev (kinit_range ?p stop) @ ps)" if "good_path q" "length q \<le> 3" "follow (mem s) root q = Some t" for q t
  proof -
    have "in_tables (mem s) root t" unfolding in_tables_def using that by (intro exI [of _ q] exI [of _ t]) simp
    then have "t < ?p" using below(1) up(1) by (meson order_less_le_trans)
    then have "t \<notin> set (kinit_range ?p stop)" using range [of t] by (auto simp: not_le [symmetric])
    moreover have "t \<notin> set ps" using wf_tablesD(3) [of "mem s" root ps q t] that inv by (simp add: vm_inv_def)
    ultimately show ?thesis by simp
  qed
  note free = this
  have "wf_tables (mem s) root ps" using inv by (simp add: vm_inv_def)
  then have "wf_tables (mem s) root (rev (kinit_range ?p stop) @ ps)" by (rule wf_tables_free) (rule free)
  then have "wf_tables (mem s') root (rev (kinit_range ?p stop) @ ps)" by (rule wf_tables_cong) (simp_all add: f)
  moreover have "leaf_of (mem s') root va = leaf_of (mem s) root va" for va
    using same_slots_entry_at [OF slots [of "va_path va"]] by (simp add: leaf_of_def)
  moreover have "in_tables (mem s') root x = in_tables (mem s) root x" for x using f unfolding in_tables_def by metis
  moreover have "cr3 s' = cr3 s" using vm_more(1) [OF frame(1)] .
  ultimately show ?thesis using s' by (auto simp: vm_inv_def)
qed


section \<open>From the loader to the kernel's address space\<close>

lemma boot_kinit:
  assumes "boot_image kend [p4, p3, p2, p1] m" "freelist s = 0" "mem s = m" "0x1000 \<le> unat kend" "unat kend \<le> 0x1C0000"
    "s0 = s\<lparr>mem := page_tables_setup p4 p3 p2 p1 m, cr3 := ucast p4\<rparr>"
  shows "\<exists>s1 ps. kinit kend kend INIT_PHYSTOP s0 = Inr s1 \<and> vm_inv kend (ucast p4) s1 ps \<and> cr3 s1 = ucast p4 \<and>
     63 \<le> length ps \<and> (\<forall>p \<in> set ps. unat p + 4096 < 0x200000) \<and>
     (\<forall>va. leaf_of (mem s1) (ucast p4) va = leaf_of (mem s0) (ucast p4) va) \<and>
     (\<forall>x. in_tables (mem s1) (ucast p4) x \<longrightarrow> x < kend)"
proof -
  have k: "unat kend \<le> 2 ^ 32" using assms(5) by simp
  have "vm_inv kend (ucast p4) s0 []" using assms boot_wf [OF assms(1) k, of "[]"] by (simp add: vm_inv_def kmem_inv_def)
  moreover have "x < kend" if "in_tables (mem s0) (ucast p4) x" for x using boot_in_tables [OF assms(1) k] that assms(6) by simp
  moreover have "kend > 0" using assms(4) by (simp add: word_less_nat_alt)
  ultimately obtain s1 where s1: "kinit kend kend INIT_PHYSTOP s0 = Inr s1"
    "vm_inv kend (ucast p4) s1 (rev (kinit_range (PGROUNDUP kend) INIT_PHYSTOP))" "cr3 s1 = cr3 s0"
    "\<And>va. leaf_of (mem s1) (ucast p4) va = leaf_of (mem s0) (ucast p4) va"
    "\<And>x. in_tables (mem s1) (ucast p4) x = in_tables (mem s0) (ucast p4) x"
    using kinit_above_tables [of kend "ucast p4" s0 "[]" kend INIT_PHYSTOP] assms(5) by (auto simp: word_le_nat_alt)
  have "unat (PGROUNDUP kend) \<le> 0x1C0000" using unat_PGROUNDUP [of kend] assms(5) by simp
  then have "63 \<le> length (kinit_range (PGROUNDUP kend) INIT_PHYSTOP)"
    by (simp add: kinit_range_def less_eq_div_iff_mult_less_eq)
  moreover have "unat q + 4096 < 0x200000" if "q \<in> set (kinit_range (PGROUNDUP kend) INIT_PHYSTOP)" for q
    using kinit_range_bounds [OF _ that] by (simp add: word_le_nat_alt)
  ultimately show ?thesis
    using s1 assms(6) boot_in_tables [OF assms(1) k] by (intro exI [of _ s1] exI [of _ "rev (kinit_range (PGROUNDUP kend) INIT_PHYSTOP)"]) auto
qed

lemma boot_kvminit:
  fixes s :: "'a vmstate_scheme"
  assumes "vm_inv kend root s ps" "cr3 s = root" "63 \<le> length ps" "leaf_of (mem s) root 0x1FF000 \<noteq> None"
  shows "\<exists>s' ps'. kvminit INIT_PHYSTOP PHYSTOP s = Some (root, s') \<and> vm_inv kend root s' ps' \<and> suffix ps' ps \<and> length ps \<le> length ps' + 63 \<and>
     cr3 s' = root \<and>
     (\<forall>x. unat x < 2 ^ 48 \<longrightarrow>
        translate (mem s') root x = (if 0x200000 \<le> unat x \<and> unat x < 0x7FFF000 then Some x else translate (mem s) root x)) \<and>
     (\<forall>x. in_tables (mem s') root x \<longrightarrow> in_tables (mem s) root x \<or> (\<exists>p \<in> set ps. in_page p x))"
proof -
  have n: "new_tables (Suc 511) 32255 = 63" by (simp add: new_tables_def)
  obtain s' ps' where s': "kvminit_loop root 0x200000 PHYSTOP s = Some s'" "vm_inv kend root s' ps'" "suffix ps' ps" "cr3 s' = cr3 s"
    "length ps \<le> length ps' + 63"
    "\<And>va. leaf_of (mem s') root va = (if in_pages 0x200000 32255 va then Some (low_entry va) else leaf_of (mem s) root va)"
    "\<And>x. in_tables (mem s') root x \<Longrightarrow> in_tables (mem s) root x \<or> (\<exists>p \<in> set ps. in_page p x)"
    using kvminit_loop_low [OF assms(1), of "0x200000" 511 32255 PHYSTOP] assms(3,4) n by auto
  have r: "in_pages 0x200000 32255 x \<longleftrightarrow> 0x200000 \<le> unat x \<and> unat x < 0x7FFF000" if "unat x < 2 ^ 48" for x
    using in_pages_low [of "0x200000" 32255 x] that by (simp add: page_aligned_def)
  have "translate (mem s') root x = (if 0x200000 \<le> unat x \<and> unat x < 0x7FFF000 then Some x else translate (mem s) root x)"
    if "unat x < 2 ^ 48" for x
    using low.identity_translate [OF _ that, of "mem s'" root] translate_cong [of "mem s'" root x "mem s"] s'(6) [of x] r [OF that]
    by (auto split: if_splits)
  moreover have "kvminit INIT_PHYSTOP PHYSTOP s = Some (root, s')" using s'(1) assms(2) by (simp add: kvminit_def PGROUNDUP_def)
  ultimately show ?thesis using s' assms(2) by blast
qed

section \<open>Properties\<close>

text \<open>
  C14. The address space of the booted kernel. The boot code maps exactly the first two megabytes, each address to itself.
  If the image leaves 63 whole pages below two megabytes (\<open>KEND\<close> is at most \<open>0x1C0000\<close>), then \<open>kinit (KEND, INIT_PHYSTOP)\<close> and
  \<open>kvminit (INIT_PHYSTOP, PHYSTOP)\<close> return with the root of the boot code, and the tables map exactly the addresses below \<open>PHYSTOP\<close>
  without its last page, each to itself. The free list and the tables are intact and lie below two megabytes.
\<close>

theorem boot_identity:
  fixes s :: "'a vmstate_scheme"
  assumes "boot_image kend [p4, p3, p2, p1] (mem s)" "freelist s = 0" "0x1000 \<le> unat kend" "unat kend \<le> 0x1C0000"
  shows "\<exists>s' ps. init_memory kend (boot_start p4 p3 p2 p1 s) = Some (Inr (ucast p4, s')) \<and> vm_inv kend (ucast p4) s' ps \<and>
     (\<forall>x. unat x < 2 ^ 48 \<longrightarrow>
        translate (mem (boot_start p4 p3 p2 p1 s)) (ucast p4) x = (if unat x < 0x200000 then Some x else None) \<and>
        translate (mem s') (ucast p4) x = (if unat x < 0x7FFF000 then Some x else None)) \<and>
     (\<forall>p \<in> set ps. unat p < 0x200000) \<and> (\<forall>x. in_tables (mem s') (ucast p4) x \<longrightarrow> unat x < 0x200000)"
proof -
  define s0 where "s0 = boot_start p4 p3 p2 p1 s"
  have k: "unat kend \<le> 2 ^ 32" using assms(4) by simp
  have m0: "mem s0 = page_tables_setup p4 p3 p2 p1 (mem s)" by (simp add: s0_def boot_start_def)
  note t0 = boot_leaf [OF assms(1) k, folded m0]
  obtain s1 ps where s1: "kinit kend kend INIT_PHYSTOP s0 = Inr s1" "vm_inv kend (ucast p4) s1 ps" "cr3 s1 = ucast p4" "63 \<le> length ps"
    "\<And>p. p \<in> set ps \<Longrightarrow> unat p + 4096 < 0x200000" "\<And>va. leaf_of (mem s1) (ucast p4) va = leaf_of (mem s0) (ucast p4) va"
    "\<And>x. in_tables (mem s1) (ucast p4) x \<Longrightarrow> x < kend"
    using boot_kinit [OF assms(1,2) refl assms(3,4), of s0] by (auto simp: s0_def boot_start_def)
  have "leaf_of (mem s1) (ucast p4) 0x1FF000 \<noteq> None" using s1(6) t0(1) [of "0x1FF000"] by simp
  from boot_kvminit [OF s1(2,3,4) this] obtain s' ps' where
    s': "kvminit INIT_PHYSTOP PHYSTOP s1 = Some (ucast p4, s')" "vm_inv kend (ucast p4) s' ps'" "suffix ps' ps"
    "\<And>x. unat x < 2 ^ 48 \<Longrightarrow> translate (mem s') (ucast p4) x =
       (if 0x200000 \<le> unat x \<and> unat x < 0x7FFF000 then Some x else translate (mem s1) (ucast p4) x)"
    "\<And>x. in_tables (mem s') (ucast p4) x \<Longrightarrow> in_tables (mem s1) (ucast p4) x \<or> (\<exists>p \<in> set ps. in_page p x)"
    by blast
  have "translate (mem s') (ucast p4) x = (if unat x < 0x7FFF000 then Some x else None)" if "unat x < 2 ^ 48" for x
    using s'(4) [OF that] translate_cong [OF s1(6), of x] t0(2) [OF that] by auto
  moreover have "unat x < 0x200000" if "in_tables (mem s') (ucast p4) x" for x
    using s'(5) [OF that] s1(5,7) assms(4) in_page_below [of _ x "0x200000"] by (fastforce simp: word_less_nat_alt)
  moreover have "unat p < 0x200000" if "p \<in> set ps'" for p using s1(5) [of p] set_mono_suffix [OF s'(3)] that by auto
  ultimately show ?thesis using s1(1) s'(1,2) t0(2) by (auto simp: init_memory_def simp flip: s0_def)
qed

theorem boot_identity_witness:
  "\<exists>s' ps. init_memory 0x130000 (boot_start 0x121000 0x122000 0x123000 0x124000
       \<lparr>mem = \<lambda>_. 0, freelist = 0, cr3 = 0, invlpg_log = []\<rparr>) = Some (Inr (0x121000, s')) \<and> vm_inv 0x130000 0x121000 s' ps \<and>
     (\<forall>x. unat x < 2 ^ 48 \<longrightarrow> translate (mem s') 0x121000 x = (if unat x < 0x7FFF000 then Some x else None))"
  using boot_identity [of "0x130000" "0x121000" "0x122000" "0x123000" "0x124000" "\<lparr>mem = \<lambda>_. 0, freelist = 0, cr3 = 0, invlpg_log = []\<rparr>"]
  by (auto simp: boot_image_def page_aligned_def)

text \<open>
  C18. The second \<open>kinit\<close> of \<open>kernel_main\<close>. When the tables and the free pages lie below two megabytes, \<open>kinit (INIT_PHYSTOP, PHYSTOP)\<close>
  does not panic, puts the 32255 pages from two megabytes up to the last page below \<open>PHYSTOP\<close>, which it leaves out, in
  front of the free list, and changes neither the tables nor any translation.
\<close>

theorem upper_memory_freed:
  fixes s :: "'a vmstate_scheme"
  assumes "vm_inv kend root s ps" "kend \<le> INIT_PHYSTOP"
    and "\<forall>p \<in> set ps. unat p < 0x200000" "\<forall>x. in_tables (mem s) root x \<longrightarrow> unat x < 0x200000"
  shows "\<exists>s' qs. kinit kend INIT_PHYSTOP PHYSTOP s = Inr s' \<and> vm_inv kend root s' (qs @ ps) \<and> cr3 s' = cr3 s \<and>
     length qs = 32255 \<and> set qs = {q. page_aligned q \<and> 0x200000 \<le> unat q \<and> unat q < 0x7FFF000} \<and>
     (\<forall>x. translate (mem s') root x = translate (mem s) root x) \<and>
     (\<forall>x. in_tables (mem s') root x = in_tables (mem s) root x)"
proof -
  have up: "PGROUNDUP INIT_PHYSTOP = 0x200000" by (simp add: PGROUNDUP_def)
  obtain s' where s': "kinit kend INIT_PHYSTOP PHYSTOP s = Inr s'"
    "vm_inv kend root s' (rev (kinit_range 0x200000 PHYSTOP) @ ps)" "cr3 s' = cr3 s"
    "\<And>va. leaf_of (mem s') root va = leaf_of (mem s) root va" "\<And>x. in_tables (mem s') root x = in_tables (mem s) root x"
    using kinit_above_tables [OF assms(1), of INIT_PHYSTOP PHYSTOP] assms(2-4) up by (auto simp: word_less_nat_alt)
  have "length (kinit_range 0x200000 PHYSTOP) = 32255" by (simp add: kinit_range_def)
  moreover have "set (kinit_range 0x200000 PHYSTOP) = {q. page_aligned q \<and> 0x200000 \<le> unat q \<and> unat q < 0x7FFF000}"
    using set_kinit_range [of PHYSTOP "0x200000"] by (auto simp: page_aligned_def word_le_nat_alt)
  ultimately show ?thesis using s' translate_cong [OF s'(4)] by (intro exI [of _ s'] exI [of _ "rev (kinit_range 0x200000 PHYSTOP)"]) auto
qed

theorem upper_memory_freed_witness:
  "\<exists>s' qs. kinit 0x150000 INIT_PHYSTOP PHYSTOP demo_vm = Inr s' \<and> vm_inv 0x150000 0x1000 s' (qs @ demo_pages) \<and> length qs = 32255"
proof -
  have "unat x < 0x200000" if tb: "in_tables (mem demo_vm) 0x1000 x" for x
  proof -
    obtain q t where q: "good_path q" "follow (mem demo_vm) 0x1000 q = Some t" "in_page t x"
      using tb by (auto simp: in_tables_def)
    then have "t = 0x1000" using follow_zero_page [OF demo_root_zero] by (cases q) auto
    then show ?thesis using in_page_below [of "0x1000" x "0x2000"] q(3) by simp
  qed
  then show ?thesis using upper_memory_freed [OF demo_inv] by (fastforce simp: demo_pages_def)
qed

end
