(* ===== verification/Spec2Isabelle.thy ===== *)
theory Spec2Isabelle
  imports Boot BootMem
begin

text \<open>
  Verification of the ShipOS kernel, a small multiprocessor kernel for x86-64 written in C.

  \<^bold>\<open>The program.\<close> The boot code (\<^verbatim>\<open>src/x86_64/boot\<close>) builds page tables for the first two megabytes and calls \<open>kernel_main\<close>
  (\<^verbatim>\<open>src/kernel/main.c\<close>). That sets up the serial ports and the virtual terminals, frees the memory behind the kernel image,
  extends the page tables, reads the ACPI tables to find the processors and the interrupt controllers, maps the controllers,
  frees the rest of the memory, prepares the data of the processors and the scheduler, installs the interrupt descriptors,
  starts the other processors, creates threads and enters the scheduler. Everything lives in one identity-mapped memory:
  page tables, threads, list nodes and locks are pages of the page allocator or fields in them.

  \<^bold>\<open>The theories\<close>, in the order of their imports. Names of C functions are kept; a loop of a function \<open>f\<close> is \<open>f_loop\<close> or
  has a name of its own.

  \<^item> \<open>Prelude\<close>: word types, results with panics, and the locale \<open>polling\<close> for loops that wait for a device.
  \<^item> \<open>Memory\<close>: the flat memory with little-endian loads and stores, \<^verbatim>\<open>memlayout.h\<close>, \<^verbatim>\<open>lib/src/memset.c\<close>, \<^verbatim>\<open>lib/src/memcmp.c\<close>.
  \<^item> \<open>Kalloc\<close>: the page allocator \<^verbatim>\<open>kalloc/kalloc.c\<close>. The record \<open>kstate\<close> holds the memory and the head of the free list, which is
    threaded through the free pages; \<open>kmem_inv\<close> relates it to a list of pages. The locale \<open>page_allocator\<close> is the contract
    the clients use.
  \<^item> \<open>Paging\<close>, \<open>PageMaps\<close>: \<^verbatim>\<open>paging/paging.c\<close>. \<open>vmstate\<close> adds \<open>cr3\<close> and the log of flushed addresses; \<open>translate\<close> is the translation the
    tables in memory denote, \<open>vm_inv\<close> says that tables and free pages do not overlap. The locale \<open>identity_entry\<close> covers
    the functions that map pages to themselves.
  \<^item> \<open>BootMem\<close>: the page tables of \<^verbatim>\<open>boot.asm\<close> and the calls of \<open>kernel_main\<close> on the memory.
  \<^item> \<open>StrUtils\<close>, \<open>Format\<close>: \<^verbatim>\<open>lib/src/str_utils.c\<close> and the interpreter of format strings that \<open>printf\<close> (\<^verbatim>\<open>tty/tty.c\<close>) and \<open>serial_printf\<close> share.
  \<^item> \<open>Tty\<close>: the terminals \<^verbatim>\<open>tty/tty.c\<close> over the screen \<^verbatim>\<open>vga/vga.c\<close>.
  \<^item> \<open>NodeRings\<close>, \<open>Lists\<close>: circular lists in memory, the locale \<open>node_queue\<close>, and \<^verbatim>\<open>list/list.c\<close>.
  \<^item> \<open>Threads\<close>, \<open>Proc\<close>: \<^verbatim>\<open>sched/threads.c\<close>, \<^verbatim>\<open>sched/proc.c\<close> and \<^verbatim>\<open>sched/scheduler.c\<close>.
  \<^item> \<open>Percpu\<close>: \<^verbatim>\<open>sched/percpu.c\<close>; \<open>percpu_state\<close> has the processor records and, per processor, the interrupt flag and the
    descriptor registers.
  \<^item> \<open>Sync\<close>: \<^verbatim>\<open>sync/spinlock.c\<close> and \<^verbatim>\<open>sync/mutex.c\<close>, with the interleavings of several processors as an inductive step relation.
  \<^item> \<open>SmpSched\<close>: \<^verbatim>\<open>sched/smp_sched.c\<close>, run queues and the scheduler of several processors.
  \<^item> \<open>Serial\<close>: \<^verbatim>\<open>serial/serial.c\<close>. \<open>Acpi\<close>: \<^verbatim>\<open>desc/\<close>. \<open>Apic\<close>: \<^verbatim>\<open>apic/lapic.c\<close>, \<^verbatim>\<open>apic/ioapic.c\<close> and \<^verbatim>\<open>pic/pic.c\<close>. \<open>Idt\<close>: \<^verbatim>\<open>idt/\<close>.
  \<^item> \<open>Boot\<close>: \<^verbatim>\<open>apic/ap_startup.c\<close> and the functions of \<^verbatim>\<open>main.c\<close> that compose components.

  \<^bold>\<open>How the code is modelled.\<close> Operations pass their state explicitly; the records extend each other as the components share
  the memory (\<open>kstate\<close>, then \<open>vmstate\<close> and \<open>acpi_state\<close>, or \<open>percpu_state\<close> and the states of locks, scheduler and serial
  ports). Integers have the width of the C types and wrap. A call of \<open>panic\<close> is the error value of the operation. A loop
  that may run forever is a partial function: \<open>None\<close> is not returning, there is no fuel, and a theorem that an operation
  returns says so. C leaves some operations undefined: a field that overruns the buffer of \<open>printf\<close> and a width that
  overflows have no result, a shift by more than the width of its operand has an unspecified one. Accesses to ports and device registers
  are recorded in order; what a read gives is a function of the accesses before it, an argument named \<open>dev\<close> or \<open>pdev\<close>. Where
  a theorem needs a device to behave as its manual says, a named condition says so: \<open>echoes\<close> and \<open>silent\<close> for serial ports,
  \<open>has_version\<close> for I/O controllers, \<open>kbc_device\<close> for the keyboard controller, \<open>delivers\<close> for the local controller. The executing
  processor, the addresses the linker chooses, the context switch and the code in assembly are arguments too.

  \<^bold>\<open>What the theorems show.\<close>

  \<^item> Memory: the allocator's functional behaviour and its invariant (C1, C2, C4, C5), mapping, unmapping and translation of
    pages and ranges with their failures (C7 to C12), and the address space through the boot of the kernel (C14, C18).
  \<^item> Text: numerals and fields (C19, C21 to C23), the parser of format specifications (C24), the terminals as a roll of
    rows (C26, C27), clearing a terminal (C28), the serial output (C3) and the detection of serial ports (C15).
  \<^item> Lists and threads: the list as a sequence (C29), \<open>pop_thread_list\<close> (C31), the choice of a thread (C32).
  \<^item> Processors and locks: nesting of interrupt disabling (C33), lookup (C34), descriptor tables (C35), mutual
    exclusion (C36), the mutex that cannot be acquired (C37).
  \<^item> Scheduling: every thread has its turn (C38), queues refine lists (C39), balancing (C40).
  \<^item> Hardware: the ACPI tables (C17, C30), the I/O controllers (C13, C20), the interrupt setup (C16), the start of a processor
    (C25) and its stack (C6).

  Some of these prove that the code does not do what it means to: C6, C15, C20, C22, C28, C31 and C37.

  \<^bold>\<open>Not modelled.\<close> The switch to 64-bit mode, the entry of interrupts, the trampoline of started processors and the context
  switch are assembly. The interval timer \<^verbatim>\<open>pit/\<close> and the macros \<^verbatim>\<open>list/linkedlist.h\<close> are not used by the kernel. \<open>kernel_main\<close> itself only
  calls the modelled functions in turn. Functions that only print the state, the shutdown and the built-in tests are left
  out. The lock of \<open>printf\<close> is not part of \<open>Tty\<close>, whose state is that of one processor; that of \<open>serial_printf\<close> is part of \<open>Serial\<close>.
\<close>

end
